(* ===== verification/Prelude.thy ===== *)
theory Prelude
  imports Main "HOL-Library.Word" "HOL-Library.Monad_Syntax"
begin

text \<open>
  Shared vocabulary of the development: the C integer types as words, the status codes of
  \<^verbatim>\<open>top/include/nusa/err.h\<close>, the assertion monad (a result of \<open>None\<close> is a failed
  \<^verbatim>\<open>DEBUG_ASSERT\<close>, a \<^verbatim>\<open>panic\<close> or an access outside an array), and the generic
  lemmas on lists, options and words that the component theories share.
\<close>

unbundle bit_operations_syntax

section \<open>C types and status codes\<close>

type_synonym u8 = "8 word"
type_synonym u32 = "32 word"
type_synonym u64 = "64 word"
type_synonym status_t = int
type_synonym addr = nat

text \<open>
  A pointer to a \<^verbatim>\<open>thread_t\<close>: the statically allocated idle thread of a CPU
  (\<^verbatim>\<open>&_idle_threads[cpu]\<close>), or any other thread structure.
\<close>

datatype thread_id = idle_thread nat | thread_at nat

abbreviation (input) NO_ERROR :: status_t where "NO_ERROR \<equiv> 0"
abbreviation (input) ERR_GENERIC :: status_t where "ERR_GENERIC \<equiv> -1"
abbreviation (input) ERR_NOT_FOUND :: status_t where "ERR_NOT_FOUND \<equiv> -2"
abbreviation (input) ERR_NOT_READY :: status_t where "ERR_NOT_READY \<equiv> -3"
abbreviation (input) ERR_NO_MSG :: status_t where "ERR_NO_MSG \<equiv> -4"
abbreviation (input) ERR_NO_MEMORY :: status_t where "ERR_NO_MEMORY \<equiv> -5"
abbreviation (input) ERR_INVALID_ARGS :: status_t where "ERR_INVALID_ARGS \<equiv> -8"
abbreviation (input) ERR_NOT_ENOUGH_BUFFER :: status_t where "ERR_NOT_ENOUGH_BUFFER \<equiv> -9"
abbreviation (input) ERR_NOT_SUSPENDED :: status_t where "ERR_NOT_SUSPENDED \<equiv> -10"
abbreviation (input) ERR_OBJECT_DESTROYED :: status_t where "ERR_OBJECT_DESTROYED \<equiv> -11"
abbreviation (input) ERR_NOT_BLOCKED :: status_t where "ERR_NOT_BLOCKED \<equiv> -12"
abbreviation (input) ERR_TIMED_OUT :: status_t where "ERR_TIMED_OUT \<equiv> -13"
abbreviation (input) ERR_ALREADY_EXISTS :: status_t where "ERR_ALREADY_EXISTS \<equiv> -14"
abbreviation (input) ERR_NOT_ALLOWED :: status_t where "ERR_NOT_ALLOWED \<equiv> -17"
abbreviation (input) ERR_TOO_BIG :: status_t where "ERR_TOO_BIG \<equiv> -25"
abbreviation (input) ERR_CANCELLED :: status_t where "ERR_CANCELLED \<equiv> -26"
abbreviation (input) ERR_BUSY :: status_t where "ERR_BUSY \<equiv> -33"
abbreviation (input) ERR_THREAD_DETACHED :: status_t where "ERR_THREAD_DETACHED \<equiv> -34"
abbreviation (input) ERR_OUT_OF_RANGE :: status_t where "ERR_OUT_OF_RANGE \<equiv> -37"
abbreviation (input) ERR_BAD_HANDLE :: status_t where "ERR_BAD_HANDLE \<equiv> -42"
abbreviation (input) ERR_PARTIAL_WRITE :: status_t where "ERR_PARTIAL_WRITE \<equiv> -44"

section \<open>Assertions\<close>

text \<open>
  \<^verbatim>\<open>DEBUG_ASSERT(x)\<close> of \<^verbatim>\<open>lib/libc/include/assert.h\<close> in a build with
  \<^verbatim>\<open>LK_DEBUGLEVEL > 1\<close>: the operation goes on when the condition holds and panics
  otherwise.
\<close>

definition DEBUG_ASSERT :: "bool \<Rightarrow> unit option" where
  "DEBUG_ASSERT b = (if b then Some () else None)"

named_theorems kmonad \<open>unfolding the assertion monad\<close>

lemma DEBUG_ASSERT_True [simp]: "DEBUG_ASSERT True = Some ()"
  by (simp add: DEBUG_ASSERT_def)

lemma DEBUG_ASSERT_False [simp]: "DEBUG_ASSERT False = None"
  by (simp add: DEBUG_ASSERT_def)

lemma DEBUG_ASSERT_eq_Some [simp]: "DEBUG_ASSERT b = Some u \<longleftrightarrow> b"
  by (simp add: DEBUG_ASSERT_def)

lemma DEBUG_ASSERT_bind [simp]:
  "Option.bind (DEBUG_ASSERT b) f = Some y \<longleftrightarrow> b \<and> f () = Some y"
  by (simp add: DEBUG_ASSERT_def)

lemma DEBUG_ASSERT_bind_if: "Option.bind (DEBUG_ASSERT b) f = (if b then f () else None)"
  by (simp add: DEBUG_ASSERT_def)

lemma bind_SomeE:
  assumes "Option.bind m f = Some y"
  obtains x where "m = Some x" and "f x = Some y"
  using assms by (cases m) auto

lemmas [kmonad] = bind_eq_Some_conv

section \<open>Lists\<close>

lemma remove1_notin [simp]: "x \<notin> set xs \<Longrightarrow> remove1 x xs = xs"
  by (induction xs) auto

lemma remove1_append_split: "x \<notin> set xs \<Longrightarrow> remove1 x (xs @ x # ys) = xs @ ys"
  by (induction xs) auto

lemma length_remove1_in: "x \<in> set xs \<Longrightarrow> length (remove1 x xs) = length xs - 1"
  by (simp add: length_remove1)

section \<open>Words\<close>

text \<open>The C expression \<^verbatim>\<open>1 << p\<close> on unsigned operands.\<close>

definition shl1 :: "nat \<Rightarrow> 'a::len word" where
  "shl1 p = push_bit p 1"

lemma bit_shl1: "bit (shl1 p :: 'a::len word) i \<longleftrightarrow> i = p \<and> i < LENGTH('a)"
  by (auto simp: shl1_def bit_exp_iff)

lemma bit_or_shl1:
  "bit (w OR shl1 p :: 'a::len word) i \<longleftrightarrow> bit w i \<or> i = p \<and> i < LENGTH('a)"
  by (auto simp: bit_or_iff bit_shl1)

lemma bit_andnot_shl1:
  "bit (w AND NOT (shl1 p) :: 'a::len word) i \<longleftrightarrow> bit w i \<and> i \<noteq> p"
  by (auto simp: bit_and_iff bit_not_iff bit_shl1 dest: bit_imp_le_length)

lemma unat_p2:
  assumes "p < LENGTH('a)"
  shows "unat (2 ^ p :: 'a::len word) = 2 ^ p"
proof -
  have "(2 ^ p :: 'a word) = word_of_nat (2 ^ p)" by simp
  then have "unat (2 ^ p :: 'a word) = 2 ^ p mod 2 ^ LENGTH('a)" by (simp only: unat_of_nat)
  with assms show ?thesis by (simp add: power_strict_increasing)
qed

lemma unat_shl1: "p < LENGTH('a) \<Longrightarrow> unat (shl1 p :: 'a::len word) = 2 ^ p"
  by (simp add: shl1_def unat_p2)

lemma shl1_minus_one: "(shl1 p :: 'a::len word) - 1 = mask p"
  by (simp add: shl1_def mask_eq_exp_minus_1)

lemma unat_drop_bit: "unat (drop_bit n w :: 'a::len word) = unat w div 2 ^ n"
  by (metis drop_bit_eq_div unat_drop_bit_eq)

lemma unat_and_mask: "unat (w AND mask n :: 'a::len word) = unat w mod 2 ^ n"
  by (simp flip: take_bit_eq_mask take_bit_eq_mod add: unsigned_take_bit_eq)

section \<open>Forward simulation\<close>

text \<open>
  Runs of a deterministic component given as one function per operation, and the contract
  "the detailed steps implement the abstract ones" with its consequence for whole runs.
\<close>

fun run_ops :: "('op \<Rightarrow> 's \<Rightarrow> 's \<times> 'out) \<Rightarrow> 'op list \<Rightarrow> 's \<Rightarrow> 's \<times> 'out list" where
  "run_ops f [] s = (s, [])"
| "run_ops f (op # ops) s = (case f op s of (s', r) \<Rightarrow> case run_ops f ops s' of (s'', rs) \<Rightarrow> (s'', r # rs))"

fun ops_ok :: "('op \<Rightarrow> 's \<Rightarrow> bool) \<Rightarrow> ('op \<Rightarrow> 's \<Rightarrow> 's \<times> 'out) \<Rightarrow> 'op list \<Rightarrow> 's \<Rightarrow> bool" where
  "ops_ok pre f [] s \<longleftrightarrow> True"
| "ops_ok pre f (op # ops) s \<longleftrightarrow> pre op s \<and> ops_ok pre f ops (fst (f op s))"

locale simulation =
  fixes rep :: "'c \<Rightarrow> 'a \<Rightarrow> bool"
    and conc :: "'op \<Rightarrow> 'c \<Rightarrow> 'c \<times> 'out"
    and spec :: "'op \<Rightarrow> 'a \<Rightarrow> 'a \<times> 'out"
    and pre :: "'op \<Rightarrow> 'a \<Rightarrow> bool"
  assumes step_sim: "rep c a \<Longrightarrow> pre op a \<Longrightarrow> rep (fst (conc op c)) (fst (spec op a)) \<and> snd (conc op c) = snd (spec op a)"
begin

lemma run_sim:
  assumes "rep c a" and "ops_ok pre spec ops a"
  shows "rep (fst (run_ops conc ops c)) (fst (run_ops spec ops a)) \<and> snd (run_ops conc ops c) = snd (run_ops spec ops a)"
  using assms
proof (induction ops arbitrary: c a)
  case Nil
  then show ?case by simp
next
  case (Cons op ops)
  then have s: "rep (fst (conc op c)) (fst (spec op a))" "snd (conc op c) = snd (spec op a)"
    using step_sim [of c a op] by auto
  from Cons.IH [OF s(1)] Cons.prems(2) s(2) show ?case by (simp add: case_prod_beta)
qed

end

text \<open>The same for operations that may fail: the detailed run never fails where the abstract one is allowed.\<close>

fun run_opt :: "('op \<Rightarrow> 's \<Rightarrow> ('s \<times> 'out) option) \<Rightarrow> 'op list \<Rightarrow> 's \<Rightarrow> ('s \<times> 'out list) option" where
  "run_opt f [] s = Some (s, [])"
| "run_opt f (op # ops) s = do {
     (s', r) \<leftarrow> f op s;
     (s'', rs) \<leftarrow> run_opt f ops s';
     Some (s'', r # rs)
   }"

locale partial_simulation =
  fixes rep :: "'c \<Rightarrow> 'a \<Rightarrow> bool"
    and conc :: "'op \<Rightarrow> 'c \<Rightarrow> ('c \<times> 'out) option"
    and spec :: "'op \<Rightarrow> 'a \<Rightarrow> 'a \<times> 'out"
    and pre :: "'op \<Rightarrow> 'a \<Rightarrow> bool"
  assumes step_sim: "rep c a \<Longrightarrow> pre op a \<Longrightarrow> \<exists>c'. conc op c = Some (c', snd (spec op a)) \<and> rep c' (fst (spec op a))"
begin

lemma run_sim:
  assumes "rep c a" and "ops_ok pre spec ops a"
  shows "\<exists>c'. run_opt conc ops c = Some (c', snd (run_ops spec ops a)) \<and> rep c' (fst (run_ops spec ops a))"
  using assms
proof (induction ops arbitrary: c a)
  case Nil
  then show ?case by simp
next
  case (Cons op ops)
  then obtain c1 where c1: "conc op c = Some (c1, snd (spec op a))" "rep c1 (fst (spec op a))"
    using step_sim [of c a op] by auto
  obtain c' where "run_opt conc ops c1 = Some (c', snd (run_ops spec ops (fst (spec op a))))"
      "rep c' (fst (run_ops spec ops (fst (spec op a))))"
    using Cons.IH [OF c1(2)] Cons.prems(2) by auto
  then show ?case using c1(1) by (simp add: case_prod_beta)
qed

end

end
