(* ===== verification/Klist.thy ===== *)
theory Klist
  imports Prelude
begin

text \<open>
  The intrusive doubly linked lists of \<^verbatim>\<open>top/include/nusa/list.h\<close>: a heap of nodes
  with their two pointers, the inline functions as heap transformers, and the lemma that
  each of them implements the corresponding operation on a sequence. Every other theory
  models a kernel list by the sequence of its entries; this theory is what justifies it.
\<close>

section \<open>Nodes and operations\<close>

record list_node =
  n_prev :: addr
  n_next :: addr

type_synonym heap = "addr \<Rightarrow> list_node"

abbreviation NULL :: addr where "NULL \<equiv> 0"

definition set_prev :: "addr \<Rightarrow> addr \<Rightarrow> heap \<Rightarrow> heap" where
  "set_prev a v h = h(a := (h a)\<lparr>n_prev := v\<rparr>)"

definition set_next :: "addr \<Rightarrow> addr \<Rightarrow> heap \<Rightarrow> heap" where
  "set_next a v h = h(a := (h a)\<lparr>n_next := v\<rparr>)"

definition list_initialize :: "addr \<Rightarrow> heap \<Rightarrow> heap" where
  "list_initialize list h = set_prev list list (set_next list list h)"

definition list_clear_node :: "addr \<Rightarrow> heap \<Rightarrow> heap" where
  "list_clear_node item h = set_prev item NULL (set_next item NULL h)"

definition list_in_list :: "addr \<Rightarrow> heap \<Rightarrow> bool" where
  "list_in_list item h = (if n_prev (h item) = NULL \<and> n_next (h item) = NULL then False else True)"

definition list_add_head :: "addr \<Rightarrow> addr \<Rightarrow> heap \<Rightarrow> heap" where
  "list_add_head list item h =
     (let h1 = set_next item (n_next (h list)) h;
          h2 = set_prev item list h1;
          h3 = set_prev (n_next (h2 list)) item h2
      in set_next list item h3)"

definition list_add_after :: "addr \<Rightarrow> addr \<Rightarrow> heap \<Rightarrow> heap" where
  "list_add_after entry new_entry h = list_add_head entry new_entry h"

definition list_add_tail :: "addr \<Rightarrow> addr \<Rightarrow> heap \<Rightarrow> heap" where
  "list_add_tail list item h =
     (let h1 = set_prev item (n_prev (h list)) h;
          h2 = set_next item list h1;
          h3 = set_next (n_prev (h2 list)) item h2
      in set_prev list item h3)"

definition list_add_before :: "addr \<Rightarrow> addr \<Rightarrow> heap \<Rightarrow> heap" where
  "list_add_before entry new_entry h = list_add_tail entry new_entry h"

definition list_delete :: "addr \<Rightarrow> heap \<Rightarrow> heap" where
  "list_delete item h =
     (let h1 = set_prev (n_next (h item)) (n_prev (h item)) h;
          h2 = set_next (n_prev (h1 item)) (n_next (h1 item)) h1
      in set_prev item NULL (set_next item NULL h2))"

definition list_remove_head :: "addr \<Rightarrow> heap \<Rightarrow> heap \<times> addr" where
  "list_remove_head list h =
     (if n_next (h list) \<noteq> list
      then (let item = n_next (h list) in (list_delete item h, item))
      else (h, NULL))"

definition list_remove_tail :: "addr \<Rightarrow> heap \<Rightarrow> heap \<times> addr" where
  "list_remove_tail list h =
     (if n_prev (h list) \<noteq> list
      then (let item = n_prev (h list) in (list_delete item h, item))
      else (h, NULL))"

definition list_peek_head :: "addr \<Rightarrow> heap \<Rightarrow> addr" where
  "list_peek_head list h = (if n_next (h list) \<noteq> list then n_next (h list) else NULL)"

definition list_peek_tail :: "addr \<Rightarrow> heap \<Rightarrow> addr" where
  "list_peek_tail list h = (if n_prev (h list) \<noteq> list then n_prev (h list) else NULL)"

definition list_prev :: "addr \<Rightarrow> addr \<Rightarrow> heap \<Rightarrow> addr" where
  "list_prev list item h = (if n_prev (h item) \<noteq> list then n_prev (h item) else NULL)"

definition list_prev_wrap :: "addr \<Rightarrow> addr \<Rightarrow> heap \<Rightarrow> addr" where
  "list_prev_wrap list item h =
     (if n_prev (h item) \<noteq> list then n_prev (h item)
      else if n_prev (h (n_prev (h item))) \<noteq> list then n_prev (h (n_prev (h item)))
      else NULL)"

definition list_next :: "addr \<Rightarrow> addr \<Rightarrow> heap \<Rightarrow> addr" where
  "list_next list item h = (if n_next (h item) \<noteq> list then n_next (h item) else NULL)"

definition list_next_wrap :: "addr \<Rightarrow> addr \<Rightarrow> heap \<Rightarrow> addr" where
  "list_next_wrap list item h =
     (if n_next (h item) \<noteq> list then n_next (h item)
      else if n_next (h (n_next (h item))) \<noteq> list then n_next (h (n_next (h item)))
      else NULL)"

definition list_is_empty :: "addr \<Rightarrow> heap \<Rightarrow> bool" where
  "list_is_empty list h = (if n_next (h list) = list then True else False)"

text \<open>
  \<^verbatim>\<open>list_for_every\<close> as used by \<^verbatim>\<open>list_length\<close>: the loop ends only when it comes back
  to the head, so on a corrupt heap it may not return (\<open>None\<close>).
\<close>

partial_function (option) list_length_loop :: "addr \<Rightarrow> addr \<Rightarrow> nat \<Rightarrow> heap \<Rightarrow> nat option" where
  "list_length_loop list node cnt h =
     (if node = list then Some cnt else list_length_loop list (n_next (h node)) (Suc cnt) h)"

definition list_length :: "addr \<Rightarrow> heap \<Rightarrow> nat option" where
  "list_length list h = list_length_loop list (n_next (h list)) 0 h"

section \<open>What a well-formed list represents\<close>

text \<open>
  \<open>dseg h a xs b\<close>: walking forwards from \<open>a\<close> one meets exactly \<open>xs\<close> and then \<open>b\<close>, and
  the back pointers agree. A list with head \<open>l\<close> represents \<open>xs\<close> when this holds from \<open>l\<close>
  round to \<open>l\<close>.
\<close>

fun dseg :: "heap \<Rightarrow> addr \<Rightarrow> addr list \<Rightarrow> addr \<Rightarrow> bool" where
  "dseg h a [] b \<longleftrightarrow> n_next (h a) = b \<and> n_prev (h b) = a"
| "dseg h a (x # xs) b \<longleftrightarrow> n_next (h a) = x \<and> n_prev (h x) = a \<and> dseg h x xs b"

definition is_list :: "addr \<Rightarrow> heap \<Rightarrow> addr list \<Rightarrow> bool" where
  "is_list l h xs \<longleftrightarrow> dseg h l xs l \<and> distinct (l # xs) \<and> NULL \<notin> set (l # xs)"

lemmas node_upd = set_prev_def set_next_def

lemma dseg_append: "dseg h a (xs @ y # ys) b \<longleftrightarrow> dseg h a xs y \<and> dseg h y ys b"
  by (induction xs arbitrary: a) auto

lemma dseg_cong:
  assumes "\<And>x. x \<in> set (a # xs) \<Longrightarrow> n_next (h' x) = n_next (h x)"
    and "\<And>x. x \<in> set (xs @ [b]) \<Longrightarrow> n_prev (h' x) = n_prev (h x)"
  shows "dseg h' a xs b = dseg h a xs b"
  using assms by (induction xs arbitrary: a) auto

lemma dseg_next: "dseg h a xs b \<Longrightarrow> n_next (h a) = hd (xs @ [b])"
  by (cases xs) auto

lemma dseg_prev: "dseg h a xs b \<Longrightarrow> n_prev (h b) = last (a # xs)"
  by (induction xs arbitrary: a) auto

lemma add_head_fields:
  "n_next (list_add_head e item h x) =
     (if x = e then item else if x = item then n_next (h e) else n_next (h x))"
  "item \<noteq> e \<Longrightarrow> n_prev (list_add_head e item h x) =
     (if x = n_next (h e) then item else if x = item then e else n_prev (h x))"
  by (auto simp: list_add_head_def node_upd Let_def)

lemma add_tail_fields:
  "n_prev (list_add_tail e item h x) =
     (if x = e then item else if x = item then n_prev (h e) else n_prev (h x))"
  "item \<noteq> e \<Longrightarrow> n_next (list_add_tail e item h x) =
     (if x = n_prev (h e) then item else if x = item then e else n_next (h x))"
  by (auto simp: list_add_tail_def node_upd Let_def)

lemma delete_fields:
  "n_next (h item) \<noteq> item \<Longrightarrow> n_prev (list_delete item h x) =
     (if x = item then NULL else if x = n_next (h item) then n_prev (h item) else n_prev (h x))"
  "n_next (h item) \<noteq> item \<Longrightarrow> n_prev (h item) \<noteq> item \<Longrightarrow> n_next (list_delete item h x) =
     (if x = item then NULL else if x = n_prev (h item) then n_next (h item) else n_next (h x))"
  by (auto simp: list_delete_def node_upd Let_def)

lemma dseg_add_head:
  assumes "dseg h e ys b" and "item \<notin> set (e # ys @ [b])" and "distinct ys"
    and "e \<notin> set ys" and "b \<notin> set ys"
  shows "dseg (list_add_head e item h) e (item # ys) b"
proof (cases ys)
  case Nil
  with assms show ?thesis by (auto simp: add_head_fields)
next
  case (Cons y zs)
  with assms have "dseg (list_add_head e item h) y zs b = dseg h y zs b"
    by (intro dseg_cong) (auto simp: add_head_fields)
  with Cons assms show ?thesis by (auto simp: add_head_fields)
qed

lemma dseg_snoc_iff: "dseg h a (xs @ [y]) b \<longleftrightarrow> dseg h a xs y \<and> dseg h y [] b"
  by (rule dseg_append)

lemma is_list_add_head_at:
  assumes "is_list l h (xs @ ys)" and "item \<notin> set (l # xs @ ys)" and "item \<noteq> NULL"
  shows "is_list l (list_add_head (last (l # xs)) item h) (xs @ item # ys)"
proof (cases xs rule: rev_cases)
  case Nil
  with assms have "dseg (list_add_head l item h) l (item # ys) l"
    by (intro dseg_add_head) (auto simp: is_list_def)
  with Nil assms show ?thesis by (simp add: is_list_def)
next
  case (snoc xs' e)
  with assms have d: "dseg h l xs' e" "dseg h e ys l" "distinct (l # xs' @ e # ys)"
    by (auto simp: is_list_def dseg_append)
  have "dseg (list_add_head e item h) e (item # ys) l"
    using d assms(2) snoc by (intro dseg_add_head) auto
  moreover have "n_next (h e) \<notin> set (xs' @ [e])"
    using dseg_next [OF d(2)] d(3) by (cases ys) auto
  then have "dseg (list_add_head e item h) l xs' e = dseg h l xs' e"
    using d assms(2) snoc by (intro dseg_cong) (auto simp: add_head_fields)
  ultimately show ?thesis
    using d assms snoc by (auto simp: is_list_def dseg_append)
qed

text \<open>\<open>list_add_tail e\<close> before the node \<open>e\<close> is \<open>list_add_head\<close> after its predecessor.\<close>

lemma add_tail_add_head:
  assumes "n_next (h (n_prev (h e))) = e" and "item \<noteq> e" and "item \<noteq> n_prev (h e)"
  shows "list_add_tail e item h = list_add_head (n_prev (h e)) item h"
proof
  fix x
  show "list_add_tail e item h x = list_add_head (n_prev (h e)) item h x"
    using assms by (intro list_node.equality) (auto simp: add_tail_fields add_head_fields)
qed

lemma dseg_prev_next: "dseg h a xs b \<Longrightarrow> n_next (h (last (a # xs))) = b"
  by (induction xs arbitrary: a) auto

lemma is_list_neighbours:
  assumes "is_list l h (xs @ ys)"
  shows "n_next (h (last (l # xs))) = hd (ys @ [l])" "n_prev (h (hd (ys @ [l]))) = last (l # xs)"
proof -
  have "dseg h l (xs @ ys) l" using assms by (simp add: is_list_def)
  then show "n_next (h (last (l # xs))) = hd (ys @ [l])" "n_prev (h (hd (ys @ [l]))) = last (l # xs)"
    by (cases ys; auto simp: dseg_append dest: dseg_prev dseg_prev_next)+
qed

lemma is_list_add_tail_at:
  assumes "is_list l h (xs @ ys)" and "item \<notin> set (l # xs @ ys)" and "item \<noteq> NULL"
  shows "is_list l (list_add_tail (hd (ys @ [l])) item h) (xs @ item # ys)"
proof -
  note n = is_list_neighbours [OF assms(1)]
  have "item \<noteq> hd (ys @ [l])" using assms(2) by (cases ys) auto
  moreover have "item \<noteq> last (l # xs)"
    using assms(2) by (metis Un_iff last_in_set list.distinct(1) set_ConsD set_append list.set_intros(1,2))
  ultimately have "list_add_tail (hd (ys @ [l])) item h = list_add_head (last (l # xs)) item h"
    using n by (simp add: add_tail_add_head)
  then show ?thesis using is_list_add_head_at [OF assms] by simp
qed

lemma is_list_delete:
  assumes "is_list l h (xs @ x # ys)"
  shows "is_list l (list_delete x h) (xs @ ys)" "\<not> list_in_list x (list_delete x h)"
proof -
  from assms have d: "dseg h l xs x" "dseg h x ys l" "distinct (l # xs @ x # ys)"
      "NULL \<notin> set (l # xs @ x # ys)"
    by (auto simp: is_list_def dseg_append)
  have nx: "n_next (h x) = hd (ys @ [l])" by (rule dseg_next [OF d(2)])
  have pv: "n_prev (h x) = last (l # xs)" by (rule dseg_prev [OF d(1)])
  have ne: "n_next (h x) \<noteq> x" using nx d(3) by (cases ys) auto
  have pe: "n_prev (h x) \<noteq> x" using pv d(3) by (cases xs rule: rev_cases) auto
  note f = delete_fields(1) [of h x, OF ne] delete_fields(2) [of h x, OF ne pe]
  show "\<not> list_in_list x (list_delete x h)"
    by (simp add: list_in_list_def f)
  have "last (l # xs) \<in> set (l # xs)" by (rule last_in_set) simp
  moreover have "set (l # xs) \<inter> set ys = {}" using d(3) by auto
  ultimately have lx: "n_prev (h x) \<notin> set ys" using pv by fastforce
  have front: "dseg (list_delete x h) l xs' e = dseg h l xs' e" if "xs = xs' @ [e]" for xs' e
    using that d(3) nx pv by (intro dseg_cong) (auto simp: f hd_append split: list.splits)
  have rear: "dseg (list_delete x h) y zs l = dseg h y zs l" if "ys = y # zs" for y zs
    using that d(3) nx lx by (intro dseg_cong) (auto simp: f)
  have "dseg (list_delete x h) l (xs @ ys) l"
  proof (cases xs rule: rev_cases)
    case Nil
    with d nx pv rear show ?thesis by (cases ys) (auto simp: f)
  next
    case (snoc xs' e)
    with d nx pv rear front show ?thesis
      by (cases ys) (auto simp: f dseg_append)
  qed
  with d show "is_list l (list_delete x h) (xs @ ys)"
    by (auto simp: is_list_def)
qed

lemma list_length_loop_dseg:
  assumes "dseg h a xs l" and "l \<notin> set xs"
  shows "list_length_loop l (n_next (h a)) cnt h = Some (cnt + length xs)"
  using assms
proof (induction xs arbitrary: a cnt)
  case Nil
  then show ?case by (simp add: list_length_loop.simps)
next
  case (Cons x xs)
  then have "list_length_loop l (n_next (h x)) (Suc cnt) h = Some (Suc cnt + length xs)"
    by simp
  with Cons show ?case by (auto simp: list_length_loop.simps [of l x])
qed

lemma is_list_initialize: "l \<noteq> NULL \<Longrightarrow> is_list l (list_initialize l h) []"
  by (simp add: is_list_def list_initialize_def node_upd)

lemma is_list_empty_iff: "is_list l h xs \<Longrightarrow> n_next (h l) = l \<longleftrightarrow> xs = []"
  by (cases xs) (auto simp: is_list_def)

lemma is_list_empty_iff_prev: "is_list l h xs \<Longrightarrow> n_prev (h l) = l \<longleftrightarrow> xs = []"
  using is_list_neighbours(2) [of l h xs "[]"]
  by (cases xs rule: rev_cases) (auto simp: is_list_def)

lemma is_list_add_head: "is_list l h xs \<Longrightarrow> item \<notin> set (l # xs) \<Longrightarrow> item \<noteq> NULL \<Longrightarrow>
    is_list l (list_add_head l item h) (item # xs)"
  using is_list_add_head_at [of l h "[]" xs item] by simp

lemma is_list_add_tail: "is_list l h xs \<Longrightarrow> item \<notin> set (l # xs) \<Longrightarrow> item \<noteq> NULL \<Longrightarrow>
    is_list l (list_add_tail l item h) (xs @ [item])"
  using is_list_add_tail_at [of l h xs "[]" item] by simp

lemma is_list_remove_head:
  assumes "is_list l h xs"
  shows "case xs of
      [] \<Rightarrow> list_remove_head l h = (h, NULL)
    | x # ys \<Rightarrow> snd (list_remove_head l h) = x \<and> is_list l (fst (list_remove_head l h)) ys \<and>
        \<not> list_in_list x (fst (list_remove_head l h))"
proof (cases xs)
  case Nil
  with is_list_empty_iff [OF assms] show ?thesis by (simp add: list_remove_head_def)
next
  case (Cons x ys)
  then have "n_next (h l) = x" "x \<noteq> l" using assms by (auto simp: is_list_def)
  with Cons is_list_delete [of l h "[]" x ys] assms show ?thesis
    by (simp add: list_remove_head_def)
qed

lemma is_list_remove_tail:
  assumes "is_list l h xs"
  shows "if xs = [] then list_remove_tail l h = (h, NULL)
    else snd (list_remove_tail l h) = last xs \<and> is_list l (fst (list_remove_tail l h)) (butlast xs) \<and>
        \<not> list_in_list (last xs) (fst (list_remove_tail l h))"
proof (cases xs rule: rev_cases)
  case Nil
  with is_list_empty_iff_prev [OF assms] show ?thesis by (simp add: list_remove_tail_def)
next
  case (snoc ys x)
  then have "n_prev (h l) = x" "x \<noteq> l"
    using assms is_list_neighbours(2) [of l h xs "[]"] by (auto simp: is_list_def)
  with snoc is_list_delete [of l h ys x "[]"] assms show ?thesis
    by (simp add: list_remove_tail_def)
qed

section \<open>The sequence interface\<close>

text \<open>
  What the rest of the kernel relies on: a list object has a sequence of entries, new
  entries go to either end, and entries leave from the head.
\<close>

locale kernel_list =
  fixes rep :: "'l \<Rightarrow> 'h \<Rightarrow> 'x list \<Rightarrow> bool"
    and fresh :: "'l \<Rightarrow> 'x list \<Rightarrow> 'x \<Rightarrow> bool"
    and add_head :: "'l \<Rightarrow> 'x \<Rightarrow> 'h \<Rightarrow> 'h"
    and add_tail :: "'l \<Rightarrow> 'x \<Rightarrow> 'h \<Rightarrow> 'h"
    and remove_head :: "'l \<Rightarrow> 'h \<Rightarrow> 'h \<times> 'x"
  assumes rep_add_head: "rep l h xs \<Longrightarrow> fresh l xs x \<Longrightarrow> rep l (add_head l x h) (x # xs)"
    and rep_add_tail: "rep l h xs \<Longrightarrow> fresh l xs x \<Longrightarrow> rep l (add_tail l x h) (xs @ [x])"
    and rep_remove_head: "rep l h (x # xs) \<Longrightarrow>
          snd (remove_head l h) = x \<and> rep l (fst (remove_head l h)) xs"
    and fresh_snoc: "fresh l (xs @ [y]) x \<longleftrightarrow> fresh l xs x \<and> x \<noteq> y"
begin

fun add_all :: "'l \<Rightarrow> 'x list \<Rightarrow> 'h \<Rightarrow> 'h" where
  "add_all l [] h = h"
| "add_all l (x # xs) h = add_all l xs (add_tail l x h)"

fun remove_n :: "nat \<Rightarrow> 'l \<Rightarrow> 'h \<Rightarrow> 'h \<times> 'x list" where
  "remove_n 0 l h = (h, [])"
| "remove_n (Suc n) l h =
     (let (h1, x) = remove_head l h; (h2, xs) = remove_n n l h1 in (h2, x # xs))"

lemma rep_add_all:
  "rep l h ys \<Longrightarrow> distinct xs \<Longrightarrow> (\<forall>x\<in>set xs. fresh l ys x) \<Longrightarrow> rep l (add_all l xs h) (ys @ xs)"
proof (induction xs arbitrary: ys h)
  case Nil
  then show ?case by simp
next
  case (Cons x xs)
  then have "rep l (add_tail l x h) (ys @ [x])" by (simp add: rep_add_tail)
  moreover have "\<forall>z\<in>set xs. fresh l (ys @ [x]) z" using Cons.prems by (auto simp: fresh_snoc)
  ultimately have "rep l (add_all l xs (add_tail l x h)) ((ys @ [x]) @ xs)"
    using Cons.prems(2) by (intro Cons.IH) auto
  then show ?case by simp
qed

lemma rep_remove_n:
  "rep l h (xs @ ys) \<Longrightarrow> snd (remove_n (length xs) l h) = xs \<and> rep l (fst (remove_n (length xs) l h)) ys"
proof (induction xs arbitrary: h)
  case Nil
  then show ?case by simp
next
  case (Cons x xs)
  then have r: "snd (remove_head l h) = x" "rep l (fst (remove_head l h)) (xs @ ys)"
    using rep_remove_head [of l h x "xs @ ys"] by auto
  from Cons.IH [OF r(2)] r(1) show ?case by (simp add: case_prod_beta Let_def)
qed

text \<open>First in, first out: what is added at the tail leaves from the head in the same order.\<close>

lemma fifo:
  assumes "rep l h []" and "distinct xs" and "\<forall>x\<in>set xs. fresh l [] x"
  shows "snd (remove_n (length xs) l (add_all l xs h)) = xs"
proof -
  have "rep l (add_all l xs h) (xs @ [])" using rep_add_all [OF assms] by simp
  then show ?thesis using rep_remove_n by blast
qed

end

interpretation klist: kernel_list is_list
  "\<lambda>l xs x. x \<notin> set (l # xs) \<and> x \<noteq> NULL" list_add_head list_add_tail list_remove_head
proof (unfold_locales, goal_cases)
  case (1 l h xs x)
  then show ?case by (auto intro: is_list_add_head)
next
  case (2 l h xs x)
  then show ?case by (auto intro: is_list_add_tail)
next
  case (3 l h x xs)
  then show ?case using is_list_remove_head [of l h "x # xs"] by simp
next
  case (4 l xs y x)
  then show ?case by auto
qed

section \<open>Runs of list operations\<close>

datatype list_op = Add_head addr | Add_tail addr | Add_after addr addr | Add_before addr addr | Delete addr
  | Remove_head | Remove_tail | Peek_head | Peek_tail

fun list_exec :: "addr \<Rightarrow> list_op \<Rightarrow> heap \<Rightarrow> heap \<times> addr" where
  "list_exec l (Add_head x) h = (list_add_head l x h, NULL)"
| "list_exec l (Add_tail x) h = (list_add_tail l x h, NULL)"
| "list_exec l (Add_after e x) h = (list_add_after e x h, NULL)"
| "list_exec l (Add_before e x) h = (list_add_before e x h, NULL)"
| "list_exec l (Delete x) h = (list_delete x h, NULL)"
| "list_exec l Remove_head h = list_remove_head l h"
| "list_exec l Remove_tail h = list_remove_tail l h"
| "list_exec l Peek_head h = (h, list_peek_head l h)"
| "list_exec l Peek_tail h = (h, list_peek_tail l h)"

fun seq_exec :: "list_op \<Rightarrow> addr list \<Rightarrow> addr list \<times> addr" where
  "seq_exec (Add_head x) xs = (x # xs, NULL)"
| "seq_exec (Add_tail x) xs = (xs @ [x], NULL)"
| "seq_exec (Add_after e x) xs = (takeWhile (\<lambda>y. y \<noteq> e) xs @ e # x # tl (dropWhile (\<lambda>y. y \<noteq> e) xs), NULL)"
| "seq_exec (Add_before e x) xs = (takeWhile (\<lambda>y. y \<noteq> e) xs @ x # dropWhile (\<lambda>y. y \<noteq> e) xs, NULL)"
| "seq_exec (Delete x) xs = (remove1 x xs, NULL)"
| "seq_exec Remove_head xs = (tl xs, if xs = [] then NULL else hd xs)"
| "seq_exec Remove_tail xs = (butlast xs, if xs = [] then NULL else last xs)"
| "seq_exec Peek_head xs = (xs, if xs = [] then NULL else hd xs)"
| "seq_exec Peek_tail xs = (xs, if xs = [] then NULL else last xs)"

fun list_pre :: "addr \<Rightarrow> list_op \<Rightarrow> addr list \<Rightarrow> bool" where
  "list_pre l (Add_head x) xs \<longleftrightarrow> x \<noteq> NULL \<and> x \<noteq> l \<and> x \<notin> set xs"
| "list_pre l (Add_tail x) xs \<longleftrightarrow> x \<noteq> NULL \<and> x \<noteq> l \<and> x \<notin> set xs"
| "list_pre l (Add_after e x) xs \<longleftrightarrow> x \<noteq> NULL \<and> x \<noteq> l \<and> x \<notin> set xs \<and> e \<in> set xs"
| "list_pre l (Add_before e x) xs \<longleftrightarrow> x \<noteq> NULL \<and> x \<noteq> l \<and> x \<notin> set xs \<and> e \<in> set xs"
| "list_pre l (Delete x) xs \<longleftrightarrow> x \<in> set xs"
| "list_pre l _ xs \<longleftrightarrow> True"

lemma is_list_ends:
  assumes "is_list l h xs"
  shows "list_peek_head l h = (if xs = [] then NULL else hd xs)" "list_peek_tail l h = (if xs = [] then NULL else last xs)"
  using is_list_neighbours(1) [of l h "[]" xs] is_list_neighbours(2) [of l h xs "[]"] assms
    is_list_empty_iff [OF assms] is_list_empty_iff_prev [OF assms]
  by (auto simp: list_peek_head_def list_peek_tail_def)

lemma is_list_list_length: "is_list l h xs \<Longrightarrow> list_length l h = Some (length xs)"
  using list_length_loop_dseg [of h l xs l 0] by (simp add: is_list_def list_length_def)

lemma split_at:
  "e \<in> set xs \<Longrightarrow> distinct xs \<Longrightarrow> \<exists>ys zs. xs = ys @ e # zs \<and> takeWhile (\<lambda>y. y \<noteq> e) xs = ys \<and> dropWhile (\<lambda>y. y \<noteq> e) xs = e # zs"
  by (auto dest!: split_list simp: takeWhile_append dropWhile_append)

lemma list_exec_refines:
  assumes r: "is_list l h xs" and p: "list_pre l op xs"
  shows "is_list l (fst (list_exec l op h)) (fst (seq_exec op xs)) \<and> snd (list_exec l op h) = snd (seq_exec op xs)"
proof (cases op)
  case (Add_after e x)
  with p r obtain ys zs where s: "xs = ys @ e # zs" "takeWhile (\<lambda>y. y \<noteq> e) xs = ys" "dropWhile (\<lambda>y. y \<noteq> e) xs = e # zs"
    using split_at [of e xs] by (auto simp: is_list_def)
  show ?thesis
    using is_list_add_head_at [of l h "ys @ [e]" zs x] r p s Add_after by (simp add: list_add_after_def)
next
  case (Add_before e x)
  with p r obtain ys zs where s: "xs = ys @ e # zs" "takeWhile (\<lambda>y. y \<noteq> e) xs = ys" "dropWhile (\<lambda>y. y \<noteq> e) xs = e # zs"
    using split_at [of e xs] by (auto simp: is_list_def)
  show ?thesis
    using is_list_add_tail_at [of l h ys "e # zs" x] r p s Add_before by (simp add: list_add_before_def)
next
  case (Delete x)
  then obtain ys zs where s: "xs = ys @ x # zs" using p by (auto dest: split_list)
  then have "x \<notin> set ys" using r by (auto simp: is_list_def)
  then show ?thesis using is_list_delete(1) [of l h ys x zs] r s Delete by (simp add: remove1_append)
next
  case Remove_head
  then show ?thesis using is_list_remove_head [OF r] r by (cases xs) simp_all
next
  case Remove_tail
  then show ?thesis using is_list_remove_tail [OF r] r by (cases "xs = []") simp_all
qed (use r p in \<open>simp_all add: is_list_add_head is_list_add_tail is_list_ends\<close>)

interpretation klist_ops: simulation "is_list l" "list_exec l" seq_exec "list_pre l" for l
  by unfold_locales (rule list_exec_refines)

text \<open>
  C13: A heap of linked nodes implements a sequence: after any run of list operations in which
  only nodes outside the list are added and only members are deleted, the pointers represent the
  sequence the same run computes on a plain list, every removal and peek returned the same
  node, and counting the nodes ends with that sequence's length.
\<close>

theorem list_ops_refine_sequence:
  assumes "is_list l h xs" and "ops_ok (list_pre l) seq_exec ops xs"
  shows "is_list l (fst (run_ops (list_exec l) ops h)) (fst (run_ops seq_exec ops xs)) \<and>
    snd (run_ops (list_exec l) ops h) = snd (run_ops seq_exec ops xs) \<and>
    list_length l (fst (run_ops (list_exec l) ops h)) = Some (length (fst (run_ops seq_exec ops xs)))"
  using klist_ops.run_sim [OF assms] is_list_list_length by blast

theorem list_ops_refine_sequence_witness:
  "snd (run_ops (list_exec 16) [Add_tail 32, Add_head 48, Add_after 48 64, Delete 48, Remove_head, Remove_tail]
      (list_initialize 16 (\<lambda>_. \<lparr>n_prev = 0, n_next = 0\<rparr>))) = [0, 0, 0, 0, 64, 32]"
proof -
  let ?h = "list_initialize 16 (\<lambda>_. \<lparr>n_prev = 0, n_next = 0\<rparr>)"
  have "is_list 16 ?h []" by (rule is_list_initialize) simp
  from list_ops_refine_sequence [OF this, of "[Add_tail 32, Add_head 48, Add_after 48 64, Delete 48, Remove_head, Remove_tail]"]
  show ?thesis by simp
qed

end
