(* ===== verification/Pow2.thy ===== *)
theory Pow2
  imports Prelude
begin

text \<open>
  The power-of-two helpers of \<^verbatim>\<open>top/include/nusa/pow2.h\<close> on 32-bit words, with their
  meaning in ordinary arithmetic. The circular buffers and the run queue bitmap are built
  on them.
\<close>

section \<open>Operations\<close>

text \<open>
  The compiler builtin \<^verbatim>\<open>__builtin_clz\<close>: the number of leading zero bits. It is
  undefined on 0, and no caller passes 0.
\<close>

definition builtin_clz :: "u32 \<Rightarrow> nat" where
  "builtin_clz w = length (takeWhile (\<lambda>i. \<not> bit w i) (rev [0..<32]))"

definition ispow2 :: "u32 \<Rightarrow> bool" where
  "ispow2 val \<longleftrightarrow> (val - 1) AND val = 0"

definition log2_uint :: "u32 \<Rightarrow> nat" where
  "log2_uint val = (if val = 0 then 0 else 4 * 8 - 1 - builtin_clz val)"

definition valpow2 :: "nat \<Rightarrow> u32" where
  "valpow2 valp2 = shl1 valp2"

definition divpow2 :: "u32 \<Rightarrow> nat \<Rightarrow> u32" where
  "divpow2 val divp2 = drop_bit divp2 val"

text \<open>\<^verbatim>\<open>1UL\<close> makes the mask a 64-bit value; the result is converted back to 32 bits.\<close>

definition modpow2 :: "u32 \<Rightarrow> nat \<Rightarrow> u32" where
  "modpow2 val modp2 = ucast ((ucast val :: u64) AND (shl1 modp2 - 1))"


section \<open>Leading zeros and the highest set bit\<close>

lemma takeWhile_rev_upt:
  assumes "j < n" and "P j" and "\<And>i. j < i \<Longrightarrow> i < n \<Longrightarrow> \<not> P i"
  shows "length (takeWhile (\<lambda>i. \<not> P i) (rev [0..<n])) = n - 1 - j"
  using assms
proof (induction n)
  case 0
  then show ?case by simp
next
  case (Suc n)
  show ?case
  proof (cases "j = n")
    case True
    with Suc.prems show ?thesis by simp
  next
    case False
    with Suc have "length (takeWhile (\<lambda>i. \<not> P i) (rev [0..<n])) = n - 1 - j" by simp
    with False Suc.prems show ?thesis by simp
  qed
qed

lemma u32_bit_ex: "(w :: u32) \<noteq> 0 \<Longrightarrow> \<exists>i<32. bit w i"
  by (rule ccontr) (auto intro!: bit_eqI dest: bit_imp_le_length)

lemma u32_top_bit:
  assumes "(w :: u32) \<noteq> 0"
  obtains j where "j < 32" "bit w j" "\<And>i. j < i \<Longrightarrow> \<not> bit w i"
proof -
  have fin: "finite {i. bit w i}" by (rule finite_subset [of _ "{..<32}"]) (auto dest: bit_imp_le_length)
  have ne: "{i. bit w i} \<noteq> {}" using u32_bit_ex [OF assms] by auto
  let ?j = "Max {i. bit w i}"
  have j: "bit w ?j" using Max_in [OF fin ne] by blast
  have above: "\<not> bit w i" if "?j < i" for i
  proof
    assume "bit w i"
    then have "i \<le> ?j" by (intro Max_ge [OF fin]) blast
    with that show False by linarith
  qed
  have "?j < 32" using bit_imp_le_length [OF j] by simp
  from that [OF this j above] show ?thesis .
qed

lemma log2_uint_top:
  assumes "bit w j" and "\<And>i. j < i \<Longrightarrow> \<not> bit w i"
  shows "log2_uint w = j"
proof -
  have "j < 32" using bit_imp_le_length [OF assms(1)] by simp
  moreover have "w \<noteq> 0" using assms(1) by auto
  ultimately show ?thesis
    using takeWhile_rev_upt [of j 32 "bit w"] assms by (simp add: log2_uint_def builtin_clz_def)
qed

lemma log2_uint_bit: "w \<noteq> 0 \<Longrightarrow> bit w (log2_uint w)"
  by (metis log2_uint_top u32_top_bit)

lemma log2_uint_less: "log2_uint w < 32"
  by (rule le_less_trans [of _ 31]) (simp_all add: log2_uint_def)

lemma log2_uint_above: "log2_uint w < i \<Longrightarrow> \<not> bit w i"
  by (cases "w = 0") (simp, metis log2_uint_top u32_top_bit)

section \<open>Arithmetic meaning\<close>

lemma unat_valpow2: "p < 32 \<Longrightarrow> unat (valpow2 p) = 2 ^ p"
  by (simp add: valpow2_def unat_shl1)

lemma unat_divpow2: "unat (divpow2 v p) = unat v div 2 ^ p"
  by (simp only: divpow2_def unat_drop_bit)

lemma unat_modpow2: "unat (modpow2 v p) = unat v mod 2 ^ p"
proof -
  have "unat (ucast v :: u64) = unat v"
    using unsigned_less [of v, where 'a = nat] by (simp add: unsigned_ucast_eq take_bit_eq_mod)
  moreover have "unat v mod 2 ^ p < 2 ^ 32"
    using unsigned_less [of v, where 'a = nat] mod_less_eq_dividend [of "unat v" "2 ^ p"]
    by (simp del: mod_less_eq_dividend)
  ultimately show ?thesis
    by (simp add: modpow2_def shl1_minus_one unsigned_ucast_eq take_bit_eq_mod unat_and_mask)
qed

lemma modpow2_lt: "p < 32 \<Longrightarrow> modpow2 v p < valpow2 p"
  by (simp add: word_less_nat_alt unat_modpow2 unat_valpow2)

lemma bit_div_odd: "bit w j \<longleftrightarrow> odd (unat w div 2 ^ j)" for w :: "'a::len word"
  by (simp add: bit_unsigned_iff flip: bit_iff_odd)

lemma top_bit_range:
  assumes "bit (w :: u32) j" and "\<And>i. j < i \<Longrightarrow> \<not> bit w i"
  shows "2 ^ j \<le> unat w" "unat w < 2 ^ Suc j"
proof -
  have "odd (unat w div 2 ^ j)" using assms(1) by (simp add: bit_div_odd)
  then have "0 < unat w div 2 ^ j" by (rule odd_pos)
  then show "2 ^ j \<le> unat w" by (simp add: div_greater_zero_iff)
  have "take_bit (Suc j) (unat w) = unat w"
    using assms(2) by (intro bit_eqI) (auto simp: bit_take_bit_iff bit_unsigned_iff intro: ccontr)
  then show "unat w < 2 ^ Suc j" by (metis take_bit_nat_less_exp)
qed

lemma ispow2_shl1: "ispow2 (shl1 p)"
proof -
  have "mask p AND shl1 p = (0 :: u32)"
    by (rule bit_eqI) (simp add: bit_and_iff bit_mask_iff bit_shl1)
  then show ?thesis by (simp add: ispow2_def shl1_minus_one)
qed

lemma ispow2_imp_shl1:
  assumes "ispow2 v" and "v \<noteq> 0"
  shows "v = shl1 (log2_uint v)"
proof (rule ccontr)
  assume ne: "v \<noteq> shl1 (log2_uint v)"
  let ?j = "log2_uint v"
  have b: "bit v ?j" using assms(2) by (rule log2_uint_bit)
  have r: "2 ^ ?j \<le> unat v" "unat v < 2 ^ Suc ?j"
    using top_bit_range [OF b log2_uint_above] by auto
  have "unat v \<noteq> 2 ^ ?j"
    using ne log2_uint_less [of v] unat_shl1 [of ?j, where 'a = 32] by (simp add: word_unat_eq_iff)
  then have "unat v - 1 \<ge> 2 ^ ?j" "unat v - 1 < 2 ^ Suc ?j" using r by auto
  moreover have "unat (v - 1) = unat v - 1" using assms(2) by (simp add: unat_minus_one)
  ultimately have "unat (v - 1) div 2 ^ ?j = 1"
    by (simp add: div_nat_eqI)
  then have "bit (v - 1) ?j" by (simp add: bit_div_odd)
  with b have "bit ((v - 1) AND v) ?j" by (simp add: bit_and_iff)
  with assms(1) show False by (simp add: ispow2_def)
qed






section \<open>Properties\<close>



end
