(* ===== verification/Timer.thy ===== *)
theory Timer
  imports Prelude "HOL-Library.Multiset"
begin

text \<open>
  The timer subsystem of \<^verbatim>\<open>kernel/timer.c\<close> for a platform with a dynamic one-shot timer
  (\<^verbatim>\<open>PLATFORM_HAS_DYNAMIC_TIMER\<close>): per-CPU queues of timers ordered by deadline, set,
  cancel, and the interrupt handler \<^verbatim>\<open>timer_tick\<close>. Times are 32-bit millisecond counts
  that wrap around, compared by the signed difference as in
  \<^verbatim>\<open>lib/libc/include/sys/types.h\<close>. Each operation is the body of one
  \<^verbatim>\<open>timer_lock\<close> critical section; trace output and the \<^verbatim>\<open>THREAD_STATS\<close> counters,
  which nothing reads back, are left out.
\<close>

section \<open>Time\<close>

type_synonym nusa_time_t = u32

definition TIME_GTE :: "nusa_time_t \<Rightarrow> nusa_time_t \<Rightarrow> bool" where
  "TIME_GTE a b \<longleftrightarrow> 0 \<le> sint (a - b)"

definition TIME_LTE :: "nusa_time_t \<Rightarrow> nusa_time_t \<Rightarrow> bool" where
  "TIME_LTE a b \<longleftrightarrow> sint (a - b) \<le> 0"

definition TIME_GT :: "nusa_time_t \<Rightarrow> nusa_time_t \<Rightarrow> bool" where
  "TIME_GT a b \<longleftrightarrow> 0 < sint (a - b)"

definition TIME_LT :: "nusa_time_t \<Rightarrow> nusa_time_t \<Rightarrow> bool" where
  "TIME_LT a b \<longleftrightarrow> sint (a - b) < 0"

definition INFINITE_TIME :: nusa_time_t where
  "INFINITE_TIME = 0xFFFFFFFF"

section \<open>State\<close>

datatype handler_return = INT_NO_RESCHEDULE | INT_RESCHEDULE

text \<open>
  The function pointers that reach \<^verbatim>\<open>timer->callback\<close>: the three handlers of
  \<^verbatim>\<open>kernel/thread.c\<close>, and any other module's; the \<^verbatim>\<open>arg\<close> of the kernel's own timers
  is \<^verbatim>\<open>NULL\<close> or a thread. A timer object is the preemption timer of
  a CPU, the timer on the stack of a thread that sleeps or blocks, or another object.
\<close>

datatype timer_callback =
    thread_timer_tick_cb
  | thread_sleep_handler_cb
  | wait_queue_timeout_handler_cb
  | other_cb nat

datatype timer_id = preempt_timer nat | stack_timer thread_id | timer_obj nat

definition TIMER_MAGIC :: u32 where
  "TIMER_MAGIC = 0x74696D72"

record timer_t =
  tm_magic :: u32
  tm_linked :: bool
  scheduled_time :: nusa_time_t
  periodic_time :: nusa_time_t
  tm_callback :: "timer_callback option"
  tm_arg :: "thread_id option"

text \<open>
  \<open>tm_linked\<close> is \<^verbatim>\<open>list_in_list(&timer->node)\<close>. \<open>hw_timer\<close> is what the platform's
  one-shot timer was last programmed with on each CPU, \<open>None\<close> after
  \<^verbatim>\<open>platform_stop_timer()\<close>.
\<close>

record timer_state =
  tmr :: "timer_id \<Rightarrow> timer_t"
  timer_queue :: "nat \<Rightarrow> timer_id list"
  hw_timer :: "nat \<Rightarrow> nusa_time_t option"
  current_time :: nusa_time_t

definition timer_upd :: "timer_id \<Rightarrow> (timer_t \<Rightarrow> timer_t) \<Rightarrow> 'z timer_state_scheme \<Rightarrow> 'z timer_state_scheme" where
  "timer_upd t f s = s\<lparr>tmr := (tmr s)(t := f (tmr s t))\<rparr>"

definition platform_set_oneshot_timer :: "nat \<Rightarrow> nusa_time_t \<Rightarrow> 'z timer_state_scheme \<Rightarrow> 'z timer_state_scheme" where
  "platform_set_oneshot_timer cpu delay s = s\<lparr>hw_timer := (hw_timer s)(cpu := Some delay)\<rparr>"

definition platform_stop_timer :: "nat \<Rightarrow> 'z timer_state_scheme \<Rightarrow> 'z timer_state_scheme" where
  "platform_stop_timer cpu s = s\<lparr>hw_timer := (hw_timer s)(cpu := None)\<rparr>"

text \<open>\<^verbatim>\<open>list_delete(&timer->node)\<close>: the node leaves whichever queue it is on.\<close>

definition timer_list_delete :: "timer_id \<Rightarrow> 'z timer_state_scheme \<Rightarrow> 'z timer_state_scheme" where
  "timer_list_delete t s =
     timer_upd t (\<lambda>x. x\<lparr>tm_linked := False\<rparr>)
       (s\<lparr>timer_queue := (\<lambda>c. remove1 t (timer_queue s c))\<rparr>)"

section \<open>Operations\<close>

definition timer_initialize :: "timer_id \<Rightarrow> 'z timer_state_scheme \<Rightarrow> 'z timer_state_scheme" where
  "timer_initialize t s = timer_upd t (\<lambda>_.
     \<lparr>tm_magic = TIMER_MAGIC, tm_linked = False, scheduled_time = 0, periodic_time = 0,
      tm_callback = None, tm_arg = None\<rparr>) s"

fun insert_before_later :: "(timer_id \<Rightarrow> timer_t) \<Rightarrow> timer_id \<Rightarrow> timer_id list \<Rightarrow> timer_id list" where
  "insert_before_later tm t [] = [t]"
| "insert_before_later tm t (e # es) =
     (if TIME_GT (scheduled_time (tm e)) (scheduled_time (tm t)) then t # e # es
      else e # insert_before_later tm t es)"

definition insert_timer_in_queue :: "nat \<Rightarrow> timer_id \<Rightarrow> 'z timer_state_scheme \<Rightarrow> 'z timer_state_scheme" where
  "insert_timer_in_queue cpu t s =
     timer_upd t (\<lambda>x. x\<lparr>tm_linked := True\<rparr>)
       (s\<lparr>timer_queue := (timer_queue s)(cpu := insert_before_later (tmr s) t (timer_queue s cpu))\<rparr>)"

definition timer_set ::
  "nat \<Rightarrow> timer_id \<Rightarrow> nusa_time_t \<Rightarrow> nusa_time_t \<Rightarrow> timer_callback \<Rightarrow> thread_id option
    \<Rightarrow> 'z timer_state_scheme \<Rightarrow> 'z timer_state_scheme option" where
  "timer_set cpu t delay period callback arg s = do {
     DEBUG_ASSERT (tm_magic (tmr s t) = TIMER_MAGIC);
     DEBUG_ASSERT (\<not> tm_linked (tmr s t));
     let now = current_time s;
     let s = timer_upd t (\<lambda>x. x\<lparr>scheduled_time := now + delay, periodic_time := period,
                               tm_callback := Some callback, tm_arg := arg\<rparr>) s;
     let s = insert_timer_in_queue cpu t s;
     Some (if timer_queue s cpu \<noteq> [] \<and> hd (timer_queue s cpu) = t
           then platform_set_oneshot_timer cpu delay s else s)
   }"

definition timer_set_oneshot ::
  "nat \<Rightarrow> timer_id \<Rightarrow> nusa_time_t \<Rightarrow> timer_callback \<Rightarrow> thread_id option
    \<Rightarrow> 'z timer_state_scheme \<Rightarrow> 'z timer_state_scheme option" where
  "timer_set_oneshot cpu t delay callback arg s =
     timer_set cpu t (if delay = 0 then 1 else delay) 0 callback arg s"

definition timer_set_periodic ::
  "nat \<Rightarrow> timer_id \<Rightarrow> nusa_time_t \<Rightarrow> timer_callback \<Rightarrow> thread_id option
    \<Rightarrow> 'z timer_state_scheme \<Rightarrow> 'z timer_state_scheme option" where
  "timer_set_periodic cpu t period callback arg s =
     (let period = (if period = 0 then 1 else period)
      in timer_set cpu t period period callback arg s)"

definition peek_head :: "'a list \<Rightarrow> 'a option" where
  "peek_head xs = (case xs of [] \<Rightarrow> None | x # _ \<Rightarrow> Some x)"

definition timer_cancel :: "nat \<Rightarrow> timer_id \<Rightarrow> 'z timer_state_scheme \<Rightarrow> 'z timer_state_scheme option" where
  "timer_cancel cpu t s = do {
     DEBUG_ASSERT (tm_magic (tmr s t) = TIMER_MAGIC);
     let oldhead = peek_head (timer_queue s cpu);
     let s = (if tm_linked (tmr s t) then timer_list_delete t s else s);
     let s = timer_upd t (\<lambda>x. x\<lparr>periodic_time := 0, tm_callback := None, tm_arg := None\<rparr>) s;
     Some (case peek_head (timer_queue s cpu) of
             None \<Rightarrow> platform_stop_timer cpu s
           | Some newhead \<Rightarrow>
               if Some newhead \<noteq> oldhead then
                 (let now = current_time s;
                      delay = (if TIME_LT (scheduled_time (tmr s newhead)) now then 0
                               else scheduled_time (tmr s newhead) - now)
                  in platform_set_oneshot_timer cpu delay s)
               else s)
   }"

text \<open>
  One pass of the loop of \<^verbatim>\<open>timer_tick\<close> takes the head off the queue when it is due, runs
  its callback and puts a periodic timer back. The callback runs outside the lock and may
  change any state, so the number of passes is bounded only by what the callbacks do: the
  loop has fuel, and \<open>timer_tick_returns\<close> below says how much is enough.
\<close>

type_synonym 's callback_fn = "timer_callback \<Rightarrow> timer_id \<Rightarrow> nusa_time_t \<Rightarrow> thread_id option \<Rightarrow> 's \<Rightarrow> ('s \<times> handler_return) option"

definition requeue_periodic :: "nat \<Rightarrow> timer_id \<Rightarrow> nusa_time_t \<Rightarrow> 'z timer_state_scheme \<Rightarrow> 'z timer_state_scheme" where
  "requeue_periodic cpu t now s =
     (let p = periodic_time (tmr s t);
          st = scheduled_time (tmr s t) + p;
          st = (if TIME_LT st now then now + p else st)
      in insert_timer_in_queue cpu t (timer_upd t (\<lambda>x. x\<lparr>scheduled_time := st\<rparr>) s))"

fun timer_tick_loop ::
  "nat \<Rightarrow> ('z timer_state_scheme) callback_fn \<Rightarrow> nat \<Rightarrow> nusa_time_t \<Rightarrow> handler_return
    \<Rightarrow> 'z timer_state_scheme \<Rightarrow> ('z timer_state_scheme \<times> handler_return) option" where
  "timer_tick_loop 0 cb cpu now ret s = None"
| "timer_tick_loop (Suc fuel) cb cpu now ret s =
     (case peek_head (timer_queue s cpu) of
        None \<Rightarrow> Some (s, ret)
      | Some t \<Rightarrow>
          if TIME_LT now (scheduled_time (tmr s t)) then Some (s, ret)
          else do {
            DEBUG_ASSERT (tm_magic (tmr s t) = TIMER_MAGIC);
            let s = timer_list_delete t s;
            let periodic = periodic_time (tmr s t) > 0;
            (s, r) \<leftarrow> (case tm_callback (tmr s t) of
                         None \<Rightarrow> None
                       | Some f \<Rightarrow> cb f t now (tm_arg (tmr s t)) s);
            let ret = (if r = INT_RESCHEDULE then INT_RESCHEDULE else ret);
            let s = (if periodic \<and> \<not> tm_linked (tmr s t) \<and> periodic_time (tmr s t) > 0
                     then requeue_periodic cpu t now s else s);
            timer_tick_loop fuel cb cpu now ret s
          })"

definition timer_tick ::
  "nat \<Rightarrow> ('z timer_state_scheme) callback_fn \<Rightarrow> nat \<Rightarrow> nusa_time_t
    \<Rightarrow> 'z timer_state_scheme \<Rightarrow> ('z timer_state_scheme \<times> handler_return) option" where
  "timer_tick fuel cb cpu now s = do {
     (s, ret) \<leftarrow> timer_tick_loop fuel cb cpu now INT_NO_RESCHEDULE s;
     case peek_head (timer_queue s cpu) of
       None \<Rightarrow> Some (s, ret)
     | Some t \<Rightarrow> do {
         DEBUG_ASSERT (TIME_GT (scheduled_time (tmr s t)) now);
         let delay = scheduled_time (tmr s t) - now;
         Some (platform_set_oneshot_timer cpu delay s, ret)
       }
   }"

definition timer_init :: "'z timer_state_scheme \<Rightarrow> 'z timer_state_scheme" where
  "timer_init s = s\<lparr>timer_queue := (\<lambda>_. [])\<rparr>"

section \<open>Deadlines within a window\<close>

text \<open>
  \<open>off now tm\<close> is the signed distance from \<open>now\<close> to the timer's deadline. Wrap-around
  comparison is an order only among deadlines less than half the clock's range apart, so
  the properties assume that every queued deadline is within \<open>2 ^ 30\<close> milliseconds (about
  twelve days) of the current time.
\<close>

definition off :: "nusa_time_t \<Rightarrow> timer_t \<Rightarrow> int" where
  "off now tm = sint (scheduled_time tm - now)"

definition in_window :: "nusa_time_t \<Rightarrow> timer_t \<Rightarrow> bool" where
  "in_window now tm \<longleftrightarrow> - (2 ^ 30) < off now tm \<and> off now tm < 2 ^ 30 \<and> uint (periodic_time tm) < 2 ^ 30"

lemma sint_of_int_32:
  assumes "- (2 ^ 31) \<le> k" and "k < 2 ^ 31"
  shows "sint (word_of_int k :: u32) = k"
  using assms by (simp add: sint_sbintrunc' signed_take_bit_int_eq_self_iff)

lemma sint_diff_32:
  assumes "- (2 ^ 30) < sint a" "sint a < 2 ^ 30" "- (2 ^ 30) < sint b" "sint b < 2 ^ 30"
  shows "sint (a - b :: u32) = sint a - sint b"
proof -
  have "sint (word_of_int (sint a - sint b) :: u32) = sint a - sint b"
    using assms by (intro sint_of_int_32) simp_all
  then show ?thesis by simp
qed

lemma sint_add_32:
  assumes "- (2 ^ 30) < sint a" "sint a < 2 ^ 30" "uint b < 2 ^ 30"
  shows "sint (a + b :: u32) = sint a + uint b"
proof -
  define k where "k = uint b"
  have "0 \<le> k" by (simp add: k_def)
  with assms have "- (2 ^ 31) \<le> sint a + k" "sint a + k < 2 ^ 31"
    unfolding k_def [symmetric] by simp_all
  then have "sint (word_of_int (sint a + uint b) :: u32) = sint a + uint b"
    unfolding k_def by (rule sint_of_int_32)
  then show ?thesis by simp
qed

lemma sint_small_32: "uint b < 2 ^ 30 \<Longrightarrow> sint (b :: u32) = uint b"
  using sint_add_32 [of 0 b] by simp

lemma sint_neg_32: "- (2 ^ 30) < sint a \<Longrightarrow> sint a < 2 ^ 30 \<Longrightarrow> sint (- a :: u32) = - sint a"
  using sint_diff_32 [of 0 a] by simp

lemma TIME_GT_off:
  assumes "in_window now x" "in_window now y"
  shows "TIME_GT (scheduled_time x) (scheduled_time y) \<longleftrightarrow> off now y < off now x"
proof -
  have "scheduled_time x - scheduled_time y = (scheduled_time x - now) - (scheduled_time y - now)"
    by simp
  then show ?thesis
    using assms sint_diff_32 [of "scheduled_time x - now" "scheduled_time y - now"]
    by (simp only: TIME_GT_def off_def in_window_def) linarith
qed

lemma TIME_LT_now_off: "in_window now x \<Longrightarrow> TIME_LT now (scheduled_time x) \<longleftrightarrow> 0 < off now x"
  using sint_neg_32 [of "scheduled_time x - now"] by (simp add: TIME_LT_def off_def in_window_def)

lemma TIME_GT_now_off: "TIME_GT (scheduled_time x) now \<longleftrightarrow> 0 < off now x"
  by (simp add: TIME_GT_def off_def)

lemma TIME_LT_off: "TIME_LT (scheduled_time x) now \<longleftrightarrow> off now x < 0"
  by (simp add: TIME_LT_def off_def)

lemma off_linked [simp]:
  "off now (x\<lparr>tm_linked := b\<rparr>) = off now x" "in_window now (x\<lparr>tm_linked := b\<rparr>) = in_window now x"
  by (simp_all add: off_def in_window_def)

section \<open>The queue invariant\<close>

definition timer_inv :: "'z timer_state_scheme \<Rightarrow> bool" where
  "timer_inv s \<longleftrightarrow>
     (\<forall>c. distinct (timer_queue s c)) \<and>
     (\<forall>c d. c \<noteq> d \<longrightarrow> set (timer_queue s c) \<inter> set (timer_queue s d) = {}) \<and>
     (\<forall>t. tm_linked (tmr s t) \<longleftrightarrow> (\<exists>c. t \<in> set (timer_queue s c))) \<and>
     (\<forall>c. \<forall>t\<in>set (timer_queue s c). tm_magic (tmr s t) = TIMER_MAGIC \<and> tm_callback (tmr s t) \<noteq> None)"

definition sorted_queue :: "nusa_time_t \<Rightarrow> nat \<Rightarrow> 'z timer_state_scheme \<Rightarrow> bool" where
  "sorted_queue now c s \<longleftrightarrow>
     (\<forall>t\<in>set (timer_queue s c). in_window now (tmr s t)) \<and>
     sorted (map (\<lambda>t. off now (tmr s t)) (timer_queue s c))"

lemma set_insert_before_later [simp]: "set (insert_before_later tm t q) = insert t (set q)"
  by (induction q) auto

lemma mset_insert_before_later: "mset (insert_before_later tm t q) = add_mset t (mset q)"
  by (induction q) auto

lemma distinct_insert_before_later [simp]:
  "distinct (insert_before_later tm t q) \<longleftrightarrow> t \<notin> set q \<and> distinct q"
  by (induction q) auto

lemma sorted_insert_before_later:
  assumes "\<forall>e\<in>set (t # q). in_window now (tm e)" and "sorted (map (\<lambda>e. off now (tm e)) q)"
  shows "sorted (map (\<lambda>e. off now (tm e)) (insert_before_later tm t q))"
  using assms by (induction q) (auto simp: TIME_GT_off)

lemma insert_before_later_stable:
  assumes "\<forall>e\<in>set (t # q). in_window now (tm e)" and "sorted (map (\<lambda>e. off now (tm e)) q)"
  shows "insert_before_later tm t q =
    filter (\<lambda>e. off now (tm e) \<le> off now (tm t)) q @ t # filter (\<lambda>e. off now (tm t) < off now (tm e)) q"
  using assms
proof (induction q)
  case Nil
  then show ?case by simp
next
  case (Cons e q)
  show ?case
  proof (cases "off now (tm t) < off now (tm e)")
    case True
    with Cons.prems have "\<forall>x\<in>set q. off now (tm t) < off now (tm x)" by fastforce
    with True Cons.prems show ?thesis by (auto simp: TIME_GT_off filter_id_conv filter_empty_conv)
  next
    case False
    with Cons.prems have "\<not> TIME_GT (scheduled_time (tm e)) (scheduled_time (tm t))"
      by (simp add: TIME_GT_off [of now])
    with False Cons show ?thesis by simp
  qed
qed

lemmas timer_simps = timer_upd_def timer_list_delete_def insert_timer_in_queue_def
  platform_set_oneshot_timer_def platform_stop_timer_def peek_head_def Let_def

lemma timer_inv_distinct: "timer_inv s \<Longrightarrow> distinct (timer_queue s c)"
  by (simp add: timer_inv_def)

lemma timer_inv_linked: "timer_inv s \<Longrightarrow> tm_linked (tmr s t) \<longleftrightarrow> (\<exists>c. t \<in> set (timer_queue s c))"
  by (simp add: timer_inv_def)

lemma timer_inv_queued:
  "timer_inv s \<Longrightarrow> t \<in> set (timer_queue s c) \<Longrightarrow>
     tm_magic (tmr s t) = TIMER_MAGIC \<and> (\<exists>f. tm_callback (tmr s t) = Some f)"
  by (force simp: timer_inv_def)

lemma timer_inv_delete: "timer_inv s \<Longrightarrow> timer_inv (timer_list_delete t s)"
  by (auto simp: timer_inv_def timer_simps)

lemma timer_inv_insert:
  assumes "timer_inv s" and "\<not> tm_linked (tmr s t)"
    and "tm_magic (tmr s t) = TIMER_MAGIC" and "tm_callback (tmr s t) \<noteq> None"
  shows "timer_inv (insert_timer_in_queue c t s)"
proof -
  have "t \<notin> set (timer_queue s d)" for d using assms(1,2) by (auto simp: timer_inv_linked)
  with assms show ?thesis by (fastforce simp: timer_inv_def timer_simps)
qed

text \<open>Updates that touch neither the link nor the magic nor the callback.\<close>

lemma timer_inv_upd:
  assumes "timer_inv s" and "tm_linked (f (tmr s t)) = tm_linked (tmr s t)"
    and "tm_linked (tmr s t) \<Longrightarrow> tm_magic (f (tmr s t)) = TIMER_MAGIC \<and> tm_callback (f (tmr s t)) \<noteq> None"
  shows "timer_inv (timer_upd t f s)"
  using assms by (auto simp: timer_inv_def timer_simps)

lemma timer_inv_hw [simp]: "timer_inv (s\<lparr>hw_timer := h\<rparr>) = timer_inv s"
  by (simp add: timer_inv_def)

lemma timer_set_inv:
  assumes "timer_inv s" and "timer_set cpu t delay period callback arg s = Some s'"
  shows "timer_inv s'"
proof -
  let ?f = "\<lambda>x. x\<lparr>scheduled_time := current_time s + delay, periodic_time := period,
                    tm_callback := Some callback, tm_arg := arg\<rparr>"
  from assms(2) have t: "tm_magic (tmr s t) = TIMER_MAGIC" "\<not> tm_linked (tmr s t)"
    by (simp_all add: timer_set_def)
  have "timer_inv (timer_upd t ?f s)" using assms(1) t by (intro timer_inv_upd) auto
  then have "timer_inv (insert_timer_in_queue cpu t (timer_upd t ?f s))"
    using t by (intro timer_inv_insert) (auto simp: timer_upd_def)
  then show ?thesis
    using assms(2) by (auto simp: timer_set_def platform_set_oneshot_timer_def Let_def split: if_splits)
qed

lemma timer_cancel_inv:
  assumes "timer_inv s" and "timer_cancel cpu t s = Some s'"
  shows "timer_inv s'"
proof -
  let ?s1 = "if tm_linked (tmr s t) then timer_list_delete t s else s"
  have "timer_inv ?s1" using assms(1) by (simp add: timer_inv_delete)
  moreover have "\<not> tm_linked (tmr ?s1 t)" by (simp add: timer_simps)
  ultimately have "timer_inv (timer_upd t (\<lambda>x. x\<lparr>periodic_time := 0, tm_callback := None, tm_arg := None\<rparr>) ?s1)"
    by (intro timer_inv_upd) auto
  then show ?thesis
    using assms(2)
    by (auto simp: timer_cancel_def platform_set_oneshot_timer_def platform_stop_timer_def Let_def
        split: option.splits if_splits)
qed

text \<open>Setting and cancelling a timer keeps every queue in deadline order.\<close>

lemma sorted_queue_cong:
  assumes "timer_queue s' c = timer_queue s c" and "\<And>t. t \<in> set (timer_queue s c) \<Longrightarrow> off now (tmr s' t) = off now (tmr s t) \<and>
      in_window now (tmr s' t) = in_window now (tmr s t)"
  shows "sorted_queue now c s' = sorted_queue now c s"
proof -
  have m: "map (\<lambda>t. off now (tmr s' t)) (timer_queue s c) = map (\<lambda>t. off now (tmr s t)) (timer_queue s c)"
    using assms(2) by simp
  have w: "(\<forall>t\<in>set (timer_queue s c). in_window now (tmr s' t)) = (\<forall>t\<in>set (timer_queue s c). in_window now (tmr s t))"
    using assms(2) by simp
  show ?thesis unfolding sorted_queue_def assms(1) m w by (rule refl)
qed

lemma sorted_queue_hw [simp]: "sorted_queue now c (s\<lparr>hw_timer := h\<rparr>) = sorted_queue now c s"
  by (simp add: sorted_queue_def)

lemma sorted_queue_delete:
  assumes "sorted_queue now c s"
  shows "sorted_queue now c (timer_list_delete t s)" (is "sorted_queue now c ?s")
proof -
  have q: "timer_queue ?s c = remove1 t (timer_queue s c)" by (simp add: timer_simps)
  have e: "off now (tmr ?s u) = off now (tmr s u)" "in_window now (tmr ?s u) = in_window now (tmr s u)" for u
    by (simp_all add: timer_simps)
  have "\<forall>u\<in>set (remove1 t (timer_queue s c)). in_window now (tmr s u)"
    using assms set_remove1_subset [of t "timer_queue s c"] unfolding sorted_queue_def by blast
  moreover have "sorted (map (\<lambda>u. off now (tmr s u)) (remove1 t (timer_queue s c)))"
    using assms by (intro sorted_map_remove1) (simp add: sorted_queue_def)
  ultimately show ?thesis unfolding sorted_queue_def q e by blast
qed

lemma sorted_queue_insert:
  assumes i: "timer_inv s" and so: "\<And>d. sorted_queue now d s" and nl: "\<not> tm_linked (tmr s t)"
    and w: "in_window now (tmr s t)"
  shows "sorted_queue now d (insert_timer_in_queue cpu t s)" (is "sorted_queue now d ?s")
proof -
  have nt: "t \<notin> set (timer_queue s d)" for d using i nl by (auto simp: timer_inv_linked)
  show ?thesis
  proof (cases "d = cpu")
    case True
    have q: "timer_queue ?s cpu = insert_before_later (tmr s) t (timer_queue s cpu)" by (simp add: timer_simps)
    have e: "off now (tmr ?s u) = off now (tmr s u)" "in_window now (tmr ?s u) = in_window now (tmr s u)" for u
      by (simp_all add: timer_simps)
    have "sorted (map (\<lambda>e. off now (tmr s e)) (insert_before_later (tmr s) t (timer_queue s cpu)))"
      using so [of cpu] w by (intro sorted_insert_before_later) (auto simp: sorted_queue_def)
    then show ?thesis using True so [of cpu] w by (simp add: sorted_queue_def q e)
  next
    case False
    then show ?thesis using so [of d] nt [of d]
      by (subst sorted_queue_cong [of _ _ s]) (auto simp: timer_simps)
  qed
qed

lemma timer_set_sorted:
  assumes i: "timer_inv s" and so: "\<And>d. sorted_queue (current_time s) d s"
    and d: "uint delay < 2 ^ 30" "uint period < 2 ^ 30"
    and r: "timer_set cpu t delay period callback arg s = Some s'"
  shows "sorted_queue (current_time s) d s'"
proof -
  let ?f = "\<lambda>x. x\<lparr>scheduled_time := current_time s + delay, periodic_time := period,
                    tm_callback := Some callback, tm_arg := arg\<rparr>"
  let ?s1 = "timer_upd t ?f s"
  from r have t: "tm_magic (tmr s t) = TIMER_MAGIC" "\<not> tm_linked (tmr s t)"
    by (simp_all add: timer_set_def)
  have "timer_inv ?s1" using i t by (intro timer_inv_upd) auto
  moreover have "sorted_queue (current_time s) d ?s1" for d
    using so [of d] i t by (subst sorted_queue_cong [of _ _ s]) (auto simp: timer_simps timer_inv_linked)
  moreover have "in_window (current_time s) (tmr ?s1 t)"
  proof -
    have "- (2 ^ 30) < uint delay" by (rule less_le_trans [of _ 0]) simp_all
    then show ?thesis using d sint_small_32 [of delay] by (simp add: in_window_def off_def timer_simps)
  qed
  moreover have "\<not> tm_linked (tmr ?s1 t)" using t by (simp add: timer_simps)
  ultimately have "sorted_queue (current_time s) d (insert_timer_in_queue cpu t ?s1)" by (intro sorted_queue_insert)
  then show ?thesis
    using r by (auto simp: timer_set_def platform_set_oneshot_timer_def Let_def split: if_splits)
qed

lemma timer_cancel_sorted:
  assumes i: "timer_inv s" and so: "sorted_queue now d s" and r: "timer_cancel cpu t s = Some s'"
  shows "sorted_queue now d s'"
proof -
  let ?s1 = "if tm_linked (tmr s t) then timer_list_delete t s else s"
  have i1: "timer_inv ?s1" using i by (simp add: timer_inv_delete)
  have "sorted_queue now d ?s1" using so by (simp add: sorted_queue_delete)
  moreover have "t \<notin> set (timer_queue ?s1 d)"
    using timer_inv_linked [OF i1, of t] by (auto simp: timer_simps split: if_splits)
  ultimately have "sorted_queue now d (timer_upd t (\<lambda>x. x\<lparr>periodic_time := 0, tm_callback := None, tm_arg := None\<rparr>) ?s1)"
    by (subst sorted_queue_cong [of _ _ ?s1]) (auto simp: timer_upd_def)
  then show ?thesis
    using r by (auto simp: timer_cancel_def platform_set_oneshot_timer_def platform_stop_timer_def Let_def
        split: option.splits if_splits)
qed

text \<open>Time passes: the order stays as long as no deadline leaves the window.\<close>

lemma sorted_queue_advance:
  assumes "sorted_queue now c s" and "\<forall>t\<in>set (timer_queue s c). in_window now' (tmr s t)"
    and "- (2 ^ 30) < sint (now' - now)" "sint (now' - now) < 2 ^ 30"
  shows "sorted_queue now' c s"
proof -
  have "off now' (tmr s t) = off now (tmr s t) - sint (now' - now)" if "t \<in> set (timer_queue s c)" for t
  proof -
    have "in_window now (tmr s t)" using assms(1) that by (simp add: sorted_queue_def)
    moreover have "scheduled_time (tmr s t) - now' = (scheduled_time (tmr s t) - now) - (now' - now)" by simp
    ultimately show ?thesis
      using assms(3,4) sint_diff_32 [of "scheduled_time (tmr s t) - now" "now' - now"]
      by (simp only: off_def in_window_def)
  qed
  then have m: "map (\<lambda>t. off now' (tmr s t)) (timer_queue s c) =
      map (\<lambda>x. x - sint (now' - now)) (map (\<lambda>t. off now (tmr s t)) (timer_queue s c))" by simp
  have "sorted xs \<Longrightarrow> sorted (map (\<lambda>x :: int. x - k) xs)" for xs k
    by (induction xs) auto
  then show ?thesis using assms(1,2) unfolding sorted_queue_def m by blast
qed

section \<open>The interrupt handler\<close>

text \<open>
  What \<open>timer_tick\<close> needs of the callbacks to come to an end: they return, and they leave
  the timers themselves alone. \<open>P\<close> is whatever else they need of the state, kept by the
  callback and by putting a periodic timer back. \<open>weight\<close> bounds how often a timer can
  still fire in this interrupt: a periodic timer fires a second time when its next deadline
  is exactly now.
\<close>

definition weight :: "nusa_time_t \<Rightarrow> timer_t \<Rightarrow> nat" where
  "weight now x =
     (if 0 < off now x then 0
      else if periodic_time x = 0 then 1
      else if sint (scheduled_time x + periodic_time x - now) = 0 then 2 else 1)"

definition queue_weight :: "nusa_time_t \<Rightarrow> nat \<Rightarrow> 'z timer_state_scheme \<Rightarrow> nat" where
  "queue_weight now c s = (\<Sum>t\<in>#mset (timer_queue s c). weight now (tmr s t))"

lemma weight_linked [simp]: "weight now (x\<lparr>tm_linked := b\<rparr>) = weight now x"
  by (simp add: weight_def off_def)

lemma weight_le: "weight now x \<le> 2"
  by (simp add: weight_def)

lemma queue_weight_le: "queue_weight now c s \<le> 2 * length (timer_queue s c)"
proof -
  have "(\<Sum>t\<in>#mset q. weight now (tmr s t)) \<le> 2 * length q" for q
  proof (induction q)
    case (Cons t q)
    then show ?case using weight_le [of now "tmr s t"] by simp
  qed simp
  then show ?thesis by (simp add: queue_weight_def)
qed

text \<open>The state after one pass that fired the head \<open>t\<close>, and what the pass does to the queue.\<close>

definition after_fire :: "nat \<Rightarrow> nusa_time_t \<Rightarrow> timer_id \<Rightarrow> 'z timer_state_scheme \<Rightarrow> 'z timer_state_scheme" where
  "after_fire c now t s = (if 0 < periodic_time (tmr s t) then requeue_periodic c t now s else s)"

lemma requeue_off:
  assumes "in_window now x" and "off now x \<le> 0" and "0 < uint (periodic_time x)"
    and "st = (if TIME_LT (scheduled_time x + periodic_time x) now
               then now + periodic_time x else scheduled_time x + periodic_time x)"
  shows "in_window now (x\<lparr>scheduled_time := st, tm_linked := b\<rparr>)"
    and "weight now (x\<lparr>scheduled_time := st, tm_linked := b\<rparr>) < weight now x"
proof -
  let ?p = "periodic_time x" and ?o = "off now x"
  have w: "- (2 ^ 30) < ?o" "?o < 2 ^ 30" "uint ?p < 2 ^ 30"
    using assms(1) by (simp_all add: in_window_def)
  have "scheduled_time x + ?p - now = (scheduled_time x - now) + ?p" by simp
  then have o1: "sint (scheduled_time x + ?p - now) = ?o + uint ?p"
    using w sint_add_32 [of "scheduled_time x - now" ?p] by (simp only: off_def)
  have o2: "sint (now + ?p - now) = uint ?p" using w by (simp add: sint_small_32)
  have lt: "TIME_LT (scheduled_time x + ?p) now \<longleftrightarrow> ?o + uint ?p < 0"
    by (simp add: TIME_LT_def o1)
  have st: "sint (st - now) = (if ?o + uint ?p < 0 then uint ?p else ?o + uint ?p)"
    using assms(4) o1 o2 lt by simp
  show "in_window now (x\<lparr>scheduled_time := st, tm_linked := b\<rparr>)"
    using w st assms(2,3) by (auto simp: in_window_def off_def)
  have pn: "?p \<noteq> 0" using assms(3) by auto
  have "sint (st + ?p - now) \<noteq> 0" if "sint (st - now) = 0"
  proof -
    have e: "st + ?p - now = (st - now) + ?p" by simp
    show ?thesis
      using that w(3) assms(3) sint_add_32 [of "st - now" ?p] unfolding e by simp
  qed
  moreover have "sint (st - now) = 0 \<longleftrightarrow> ?o + uint ?p = 0" "0 \<le> sint (st - now)"
    using st assms(3) by auto
  ultimately show "weight now (x\<lparr>scheduled_time := st, tm_linked := b\<rparr>) < weight now x"
    using assms(2) pn o1 by (auto simp: weight_def off_def)
qed

lemma queue_weight_cong:
  "timer_queue s' c = q \<Longrightarrow> (\<And>t. t \<in> set q \<Longrightarrow> weight now (tmr s' t) = weight now (tmr s t)) \<Longrightarrow>
   queue_weight now c s' = (\<Sum>t\<in>#mset q. weight now (tmr s t))"
  by (auto simp: queue_weight_def intro!: arg_cong [where f = sum_mset] image_mset_cong)

text \<open>\<open>s1\<close> agrees on the timers with \<open>s\<close> after its due head \<open>t\<close> was taken off.\<close>

lemma after_fire_queue:
  assumes inv: "timer_inv s" and so: "sorted_queue now c s" and q: "timer_queue s c = t # q"
    and due: "off now (tmr s t) \<le> 0"
    and s1: "tmr s1 = tmr (timer_list_delete t s)" "timer_queue s1 = timer_queue (timer_list_delete t s)"
  defines "s2 \<equiv> after_fire c now t s1"
  shows "timer_inv s2" and "sorted_queue now c s2" and "queue_weight now c s2 < queue_weight now c s"
    and "set (timer_queue s2 c) \<subseteq> set (timer_queue s c)" and "set q \<subseteq> set (timer_queue s2 c)"
    and "\<And>d. d \<noteq> c \<Longrightarrow> timer_queue s2 d = timer_queue s d"
    and "\<And>x. x \<noteq> t \<Longrightarrow> tmr s2 x = tmr s x"
    and "periodic_time (tmr s t) = 0 \<Longrightarrow> t \<notin> set (timer_queue s2 c)"
    and "periodic_time (tmr s2 t) = periodic_time (tmr s t)"
proof -
  have tq: "t \<notin> set q" "distinct q" using timer_inv_distinct [OF inv, of c] q by auto
  have other: "t \<notin> set (timer_queue s d)" if "d \<noteq> c" for d
  proof -
    have "set (timer_queue s c) \<inter> set (timer_queue s d) = {}"
      using inv that unfolding timer_inv_def by metis
    then show ?thesis using q by auto
  qed
  have inv1: "timer_inv s1"
    using timer_inv_delete [OF inv, of t] s1 by (simp add: timer_inv_def)
  have q1: "timer_queue s1 c = q" "\<And>d. d \<noteq> c \<Longrightarrow> timer_queue s1 d = timer_queue s d"
    using s1 q other by (simp_all add: timer_simps)
  have t1: "tmr s1 t = (tmr s t)\<lparr>tm_linked := False\<rparr>" "\<And>x. x \<noteq> t \<Longrightarrow> tmr s1 x = tmr s x"
    using s1 by (simp_all add: timer_simps)
  have w: "in_window now (tmr s t)" "\<forall>x\<in>set q. in_window now (tmr s x)"
      "sorted (map (\<lambda>x. off now (tmr s x)) q)"
    using so q by (simp_all add: sorted_queue_def)
  have qw: "queue_weight now c s = weight now (tmr s t) + (\<Sum>x\<in>#mset q. weight now (tmr s x))"
    by (simp add: queue_weight_def q)
  have mag: "tm_magic (tmr s t) = TIMER_MAGIC" "tm_callback (tmr s t) \<noteq> None"
    using timer_inv_queued [OF inv, of t c] q by auto
  have ne: "\<And>x. x \<in> set q \<Longrightarrow> tmr s1 x = tmr s x" using t1(2) tq(1) by metis
  have same: "map (\<lambda>x. off now (tmr s1 x)) q = map (\<lambda>x. off now (tmr s x)) q"
    by (intro map_cong refl) (simp add: ne)
  define p where "p = periodic_time (tmr s t)"
  define st where "st = (if TIME_LT (scheduled_time (tmr s t) + p) now then now + p
                         else scheduled_time (tmr s t) + p)"
  have s2: "s2 = (if 0 < p then insert_timer_in_queue c t (timer_upd t (\<lambda>x. x\<lparr>scheduled_time := st\<rparr>) s1) else s1)"
    by (simp add: s2_def after_fire_def requeue_periodic_def st_def p_def t1 Let_def)
  let ?u = "timer_upd t (\<lambda>x. x\<lparr>scheduled_time := st\<rparr>) s1"
  have iu: "timer_inv ?u" using inv1 mag t1 by (intro timer_inv_upd) auto
  have pos: "0 < uint p" if "0 < p" using that by (simp add: word_less_def)
  note ro = requeue_off [OF w(1) due, of st True, folded p_def, OF pos st_def]
  have eq: "(tmr s1 t)\<lparr>scheduled_time := st, tm_linked := True\<rparr> = (tmr s t)\<lparr>scheduled_time := st, tm_linked := True\<rparr>"
    by (simp add: t1)
  show "timer_inv s2" using inv1 iu mag t1 by (auto simp: s2 timer_upd_def intro!: timer_inv_insert)
  show "set (timer_queue s2 c) \<subseteq> set (timer_queue s c)" "set q \<subseteq> set (timer_queue s2 c)"
    using q q1 by (auto simp: s2 timer_simps)
  show "\<And>d. d \<noteq> c \<Longrightarrow> timer_queue s2 d = timer_queue s d"
    using q1 by (auto simp: s2 timer_simps)
  show x: "\<And>x. x \<noteq> t \<Longrightarrow> tmr s2 x = tmr s x" using t1 by (auto simp: s2 timer_simps)
  show "t \<notin> set (timer_queue s2 c)" if "periodic_time (tmr s t) = 0"
    using that q1 tq by (simp add: s2 p_def)
  show "periodic_time (tmr s2 t) = periodic_time (tmr s t)"
    using t1 by (simp add: s2 timer_simps)
  have t2: "0 < p \<Longrightarrow> tmr s2 t = (tmr s t)\<lparr>scheduled_time := st, tm_linked := True\<rparr>"
    by (simp add: s2 timer_simps t1)
  show "sorted_queue now c s2"
  proof (cases "0 < p")
    case True
    have tu: "tmr ?u t = (tmr s1 t)\<lparr>scheduled_time := st\<rparr>" "\<And>x. x \<noteq> t \<Longrightarrow> tmr ?u x = tmr s x"
      by (simp_all add: timer_upd_def t1)
    have wu: "in_window now (tmr ?u t)"
      using ro(1) [OF True] by (simp add: tu t1 in_window_def off_def)
    have uq: "\<And>x. x \<in> set q \<Longrightarrow> tmr ?u x = tmr s x" using tu(2) tq(1) by metis
    then have "map (\<lambda>x. off now (tmr ?u x)) q = map (\<lambda>x. off now (tmr s x)) q"
      by (intro map_cong refl) simp
    then have so: "sorted (map (\<lambda>e. off now (tmr ?u e)) q)" using w(3) by (simp only:)
    have win: "\<forall>e\<in>set (t # q). in_window now (tmr ?u e)" using wu uq w(2) by simp
    have "sorted (map (\<lambda>e. off now (tmr ?u e)) (insert_before_later (tmr ?u) t q))"
      by (rule sorted_insert_before_later [OF win so])
    moreover have "off now (tmr s2 x) = off now (tmr ?u x)" "in_window now (tmr s2 x) = in_window now (tmr ?u x)" for x
      using True by (auto simp: s2 timer_simps off_def in_window_def)
    moreover have "timer_queue s2 c = insert_before_later (tmr ?u) t q"
      using True q1 by (simp add: s2 timer_simps)
    ultimately show ?thesis using win by (simp add: sorted_queue_def)
  next
    case False
    have "sorted (map (\<lambda>x. off now (tmr s1 x)) q)" using w(3) same by (simp only:)
    with False show ?thesis using q1(1) ne w(2) by (simp add: s2 sorted_queue_def)
  qed
  show "queue_weight now c s2 < queue_weight now c s"
  proof (cases "0 < p")
    case True
    have "mset (timer_queue s2 c) = add_mset t (mset q)"
      using True q1 by (simp add: s2 timer_simps mset_insert_before_later)
    then have "queue_weight now c s2 = weight now (tmr s2 t) + (\<Sum>y\<in>#mset q. weight now (tmr s2 y))"
      by (simp add: queue_weight_def)
    also have "(\<Sum>y\<in>#mset q. weight now (tmr s2 y)) = (\<Sum>y\<in>#mset q. weight now (tmr s y))"
      using x tq(1) by (intro arg_cong [where f = sum_mset] image_mset_cong) (metis set_mset_mset)
    finally show ?thesis using ro(2) [OF True] t2 [OF True] qw by simp
  next
    case False
    then have "p = 0" by (simp add: word_gt_0)
    then have "queue_weight now c s2 = (\<Sum>y\<in>#mset q. weight now (tmr s y))"
      using ne q1 by (intro queue_weight_cong) (simp_all add: s2)
    then show ?thesis using qw due by (simp add: weight_def)
  qed
qed

text \<open>
  What the loop achieves: the queue is in order, nothing due is left on it, timers that were
  not due are untouched, one-shot timers that were due are gone, and no timer was added.
\<close>

definition tick_post :: "nat \<Rightarrow> nusa_time_t \<Rightarrow> 'z timer_state_scheme \<Rightarrow> 'z timer_state_scheme \<Rightarrow> bool" where
  "tick_post c now s s' \<longleftrightarrow>
     timer_inv s' \<and> sorted_queue now c s' \<and>
     (\<forall>t\<in>set (timer_queue s' c). 0 < off now (tmr s' t)) \<and>
     set (timer_queue s' c) \<subseteq> set (timer_queue s c) \<and>
     (\<forall>t\<in>set (timer_queue s c). 0 < off now (tmr s t) \<longrightarrow>
        t \<in> set (timer_queue s' c) \<and> tmr s' t = tmr s t) \<and>
     (\<forall>t\<in>set (timer_queue s c). off now (tmr s t) \<le> 0 \<and> periodic_time (tmr s t) = 0 \<longrightarrow>
        t \<notin> set (timer_queue s' c)) \<and>
     (\<forall>d. d \<noteq> c \<longrightarrow> timer_queue s' d = timer_queue s d)"

lemma tick_post_done:
  assumes "timer_inv s" and "sorted_queue now c s"
    and "\<And>t q. timer_queue s c = t # q \<Longrightarrow> 0 < off now (tmr s t)"
  shows "tick_post c now s s"
proof -
  have "0 < off now (tmr s x)" if "x \<in> set (timer_queue s c)" for x
    using that assms(2,3) by (cases "timer_queue s c") (fastforce simp: sorted_queue_def)+
  then show ?thesis using assms(1,2) by (fastforce simp: tick_post_def)
qed

lemma tick_post_fire:
  assumes "timer_inv s" and "sorted_queue now c s" and q: "timer_queue s c = t # q"
    and due: "off now (tmr s t) \<le> 0"
    and "tmr s1 = tmr (timer_list_delete t s)" "timer_queue s1 = timer_queue (timer_list_delete t s)"
    and post: "tick_post c now (after_fire c now t s1) s'"
  shows "tick_post c now s s'"
proof -
  let ?s2 = "after_fire c now t s1"
  note a = after_fire_queue [OF assms(1-6)]
  have keep: "x \<in> set (timer_queue s' c) \<and> tmr s' x = tmr s x"
    if "x \<in> set (timer_queue s c)" "0 < off now (tmr s x)" for x
  proof -
    have "x \<noteq> t" using that(2) due by auto
    then have "x \<in> set (timer_queue ?s2 c)" "tmr ?s2 x = tmr s x" using that(1) q a(5,7) by auto
    with post that(2) show ?thesis by (simp add: tick_post_def)
  qed
  have gone: "x \<notin> set (timer_queue s' c)"
    if "x \<in> set (timer_queue s c)" "off now (tmr s x) \<le> 0" "periodic_time (tmr s x) = 0" for x
  proof (cases "x = t")
    case True
    with that(3) a(8) post show ?thesis by (auto simp: tick_post_def)
  next
    case False
    then have "tmr ?s2 x = tmr s x" "x \<in> set (timer_queue ?s2 c)" using that(1) q a(5,7) by auto
    with post that show ?thesis by (simp add: tick_post_def)
  qed
  have "timer_queue s' d = timer_queue s d" if "d \<noteq> c" for d
    using post a(6) that by (simp add: tick_post_def)
  with keep gone post a(4) show ?thesis unfolding tick_post_def by blast
qed

locale quiet_callbacks =
  fixes cb :: "('z timer_state_scheme) callback_fn"
    and P :: "'z timer_state_scheme \<Rightarrow> bool"
    and c :: nat and now :: nusa_time_t
  assumes quiet: "P s \<Longrightarrow> timer_inv s \<Longrightarrow> sorted_queue now c s \<Longrightarrow>
      timer_queue s c = t # q \<Longrightarrow> off now (tmr s t) \<le> 0 \<Longrightarrow> tm_callback (tmr s t) = Some f \<Longrightarrow>
      \<exists>s' r. cb f t now (tm_arg (tmr s t)) (timer_list_delete t s) = Some (s', r) \<and>
        P (after_fire c now t s') \<and>
        tmr s' = tmr (timer_list_delete t s) \<and> timer_queue s' = timer_queue (timer_list_delete t s)"
begin

text \<open>One pass over a due head, and the whole loop.\<close>

lemma pass:
  assumes "P s" and "timer_inv s" and "sorted_queue now c s" and q: "timer_queue s c = t # q"
    and due: "off now (tmr s t) \<le> 0"
  obtains s1 r where "P (after_fire c now t s1)"
    and "tmr s1 = tmr (timer_list_delete t s)" "timer_queue s1 = timer_queue (timer_list_delete t s)"
    and "\<And>fuel ret. timer_tick_loop (Suc fuel) cb c now ret s =
           timer_tick_loop fuel cb c now (if r = INT_RESCHEDULE then INT_RESCHEDULE else ret) (after_fire c now t s1)"
proof -
  have m: "tm_magic (tmr s t) = TIMER_MAGIC" and "\<exists>f. tm_callback (tmr s t) = Some f"
    using timer_inv_queued [OF assms(2), of t c] q by auto
  then obtain f where f: "tm_callback (tmr s t) = Some f" by blast
  obtain s1 r where s1: "cb f t now (tm_arg (tmr s t)) (timer_list_delete t s) = Some (s1, r)" "P (after_fire c now t s1)"
      "tmr s1 = tmr (timer_list_delete t s)" "timer_queue s1 = timer_queue (timer_list_delete t s)"
    using quiet [OF assms(1-3) q due f] by auto
  have "in_window now (tmr s t)" using assms(3) q by (simp add: sorted_queue_def)
  then have nl: "\<not> TIME_LT now (scheduled_time (tmr s t))" using due by (simp add: TIME_LT_now_off)
  have d: "tm_callback (tmr (timer_list_delete t s) t) = Some f"
      "tm_arg (tmr (timer_list_delete t s) t) = tm_arg (tmr s t)"
      "periodic_time (tmr (timer_list_delete t s) t) = periodic_time (tmr s t)"
      "\<not> tm_linked (tmr (timer_list_delete t s) t)"
    using f by (simp_all add: timer_simps)
  have p: "periodic_time (tmr s1 t) = periodic_time (tmr s t)" "\<not> tm_linked (tmr s1 t)"
    using s1(3) d by simp_all
  have "timer_tick_loop (Suc fuel) cb c now ret s =
      timer_tick_loop fuel cb c now (if r = INT_RESCHEDULE then INT_RESCHEDULE else ret) (after_fire c now t s1)"
    for fuel ret
    using q m nl d p s1(1) by (simp add: peek_head_def Let_def after_fire_def)
  with s1 that show ?thesis by blast
qed

lemma loop_returns:
  assumes "P s" and "timer_inv s" and "sorted_queue now c s" and "queue_weight now c s < fuel"
  shows "\<exists>s' r. timer_tick_loop fuel cb c now ret s = Some (s', r) \<and> P s' \<and> tick_post c now s s'"
  using assms
proof (induction fuel arbitrary: s ret)
  case 0
  then show ?case by simp
next
  case (Suc fuel)
  note so = Suc.prems(3)
  show ?case
  proof (cases "\<exists>t q. timer_queue s c = t # q \<and> off now (tmr s t) \<le> 0")
    case False
    then have "tick_post c now s s" using Suc.prems by (intro tick_post_done) force+
    moreover have "timer_tick_loop (Suc fuel) cb c now ret s = Some (s, ret)"
      using False so
      by (cases "timer_queue s c") (auto simp: peek_head_def sorted_queue_def TIME_LT_now_off)
    ultimately show ?thesis using Suc.prems(1) by blast
  next
    case True
    then obtain t q where q: "timer_queue s c = t # q" and due: "off now (tmr s t) \<le> 0" by blast
    obtain s1 r where s1: "P (after_fire c now t s1)" "tmr s1 = tmr (timer_list_delete t s)"
        "timer_queue s1 = timer_queue (timer_list_delete t s)"
      and step: "\<And>fuel ret. timer_tick_loop (Suc fuel) cb c now ret s =
         timer_tick_loop fuel cb c now (if r = INT_RESCHEDULE then INT_RESCHEDULE else ret) (after_fire c now t s1)"
      using pass [OF Suc.prems(1-3) q due] by metis
    note a = after_fire_queue [OF Suc.prems(2) so q due s1(2,3)]
    have "queue_weight now c (after_fire c now t s1) < fuel" using a(3) Suc.prems(4) by linarith
    then show ?thesis
      using Suc.IH [OF s1(1) a(1,2)] tick_post_fire [OF Suc.prems(2) so q due s1(2,3)] step by metis
  qed
qed

lemma tick_returns:
  assumes "P s" and "timer_inv s" and "sorted_queue now c s" and "2 * length (timer_queue s c) < fuel"
  shows "\<exists>s' s1 r. timer_tick fuel cb c now s = Some (s', r) \<and> tick_post c now s s' \<and>
     P s1 \<and> s' = s1\<lparr>hw_timer := hw_timer s'\<rparr> \<and>
     (\<forall>t q. timer_queue s' c = t # q \<longrightarrow> hw_timer s' c = Some (scheduled_time (tmr s' t) - now))"
proof -
  have "queue_weight now c s < fuel" using assms(4) queue_weight_le [of now c s] by linarith
  then obtain s1 r where r: "timer_tick_loop fuel cb c now INT_NO_RESCHEDULE s = Some (s1, r)"
      "P s1" "tick_post c now s s1"
    using loop_returns [OF assms(1-3)] by blast
  show ?thesis
  proof (cases "timer_queue s1 c")
    case Nil
    with r show ?thesis
      by (intro exI [of _ s1] exI [of _ r]) (simp add: timer_tick_def peek_head_def)
  next
    case (Cons t q)
    let ?s' = "platform_set_oneshot_timer c (scheduled_time (tmr s1 t) - now) s1"
    from Cons have "TIME_GT (scheduled_time (tmr s1 t)) now"
      using r(3) by (simp add: TIME_GT_now_off tick_post_def)
    moreover have "tick_post c now s (platform_set_oneshot_timer c d s1)" for d
      using r(3) by (simp add: tick_post_def platform_set_oneshot_timer_def sorted_queue_def)
    moreover have "?s' = s1\<lparr>hw_timer := hw_timer ?s'\<rparr>" by (simp add: platform_set_oneshot_timer_def)
    ultimately show ?thesis
      using r(1,2) Cons
      by (intro exI [of _ ?s'] exI [of _ s1] exI [of _ r])
        (simp add: timer_tick_def peek_head_def, simp add: platform_set_oneshot_timer_def)
  qed
qed

end

section \<open>Setting and cancelling\<close>

text \<open>
  C11: Arming an initialised, unlinked timer succeeds: it is linked into the queue of this CPU
  after every timer due at the same time or earlier and before every later one, all queues stay
  sorted, the other CPUs' queues are untouched, and when the timer became the head
  the hardware timer is programmed with its delay.
\<close>

theorem timer_set_keeps_order:
  assumes i: "timer_inv s" and so: "\<And>d. sorted_queue (current_time s) d s"
    and t: "tm_magic (tmr s t) = TIMER_MAGIC" "\<not> tm_linked (tmr s t)"
    and d: "uint delay < 2 ^ 30" "uint period < 2 ^ 30"
  shows "\<exists>s'. timer_set cpu t delay period callback arg s = Some s' \<and> timer_inv s' \<and>
    (\<forall>c. sorted_queue (current_time s) c s') \<and>
    timer_queue s' = (timer_queue s)(cpu :=
      filter (\<lambda>e. off (current_time s) (tmr s e) \<le> uint delay) (timer_queue s cpu) @ t #
      filter (\<lambda>e. uint delay < off (current_time s) (tmr s e)) (timer_queue s cpu)) \<and>
    (hd (timer_queue s' cpu) = t \<longrightarrow> hw_timer s' cpu = Some delay)"
proof -
  let ?f = "\<lambda>x. x\<lparr>scheduled_time := current_time s + delay, periodic_time := period,
                    tm_callback := Some callback, tm_arg := arg\<rparr>"
  let ?tm = "tmr (timer_upd t ?f s)"
  obtain s' where r: "timer_set cpu t delay period callback arg s = Some s'" using t by (simp add: timer_set_def Let_def)
  have n: "t \<notin> set (timer_queue s cpu)" using i t(2) by (auto simp: timer_inv_linked)
  have o: "off (current_time s) (?tm t) = uint delay" using d(1) by (simp add: off_def timer_simps sint_small_32)
  have e: "?tm e = tmr s e" if "e \<in> set (timer_queue s cpu)" for e using n that by (auto simp: timer_simps)
  have w: "\<forall>e\<in>set (t # timer_queue s cpu). in_window (current_time s) (?tm e)"
    using so [of cpu] d o e by (auto simp: in_window_def sorted_queue_def timer_simps intro: less_le_trans [of _ 0])
  have "sorted (map (\<lambda>e. off (current_time s) (?tm e)) (timer_queue s cpu))"
    using so [of cpu] e by (simp add: sorted_queue_def cong: map_cong)
  from insert_before_later_stable [OF w this]
  have q: "insert_before_later ?tm t (timer_queue s cpu) =
      filter (\<lambda>e. off (current_time s) (tmr s e) \<le> uint delay) (timer_queue s cpu) @ t #
      filter (\<lambda>e. uint delay < off (current_time s) (tmr s e)) (timer_queue s cpu)"
    using e o by (simp cong: filter_cong)
  have ne: "insert_before_later ?tm t (timer_queue s cpu) \<noteq> []" unfolding q by simp
  have "timer_queue s' = (timer_queue s)(cpu := insert_before_later ?tm t (timer_queue s cpu)) \<and>
     (hd (timer_queue s' cpu) = t \<longrightarrow> hw_timer s' cpu = Some delay)"
    using r t ne by (simp add: timer_set_def Let_def platform_set_oneshot_timer_def insert_timer_in_queue_def timer_upd_def
        split: if_splits) auto
  then show ?thesis
    using r timer_set_inv [OF i r] timer_set_sorted [OF i so d r] unfolding q by simp
qed

text \<open>Two armed timers, due in 5 and 20 ms, and a third one not yet armed.\<close>

definition three_timers :: timer_state where
  "three_timers = \<lparr>
     tmr = (\<lambda>t. \<lparr>tm_magic = TIMER_MAGIC, tm_linked = t \<in> {timer_obj 1, timer_obj 2},
        scheduled_time = (if t = timer_obj 1 then 105 else 120), periodic_time = 0,
        tm_callback = Some (other_cb 0), tm_arg = None\<rparr>),
     timer_queue = (\<lambda>c. if c = 0 then [timer_obj 1, timer_obj 2] else []), hw_timer = (\<lambda>_. None), current_time = 100\<rparr>"

lemma three_timers_ok:
  "timer_inv three_timers" "sorted_queue (current_time three_timers) d three_timers"
  by (auto simp: three_timers_def timer_inv_def sorted_queue_def in_window_def off_def)

theorem timer_set_keeps_order_witness:
  "\<exists>s'. timer_set 0 (timer_obj 3) 20 7 (other_cb 0) None three_timers = Some s' \<and>
     timer_queue s' 0 = [timer_obj 1, timer_obj 2, timer_obj 3]"
  using timer_set_keeps_order [OF three_timers_ok, of "timer_obj 3" 20 7 0 "other_cb 0" None]
  by (auto simp: three_timers_def off_def)

text \<open>
  C12: Cancelling a timer always succeeds: afterwards it is on no queue and has no callback, so
  it cannot fire; every other timer keeps its place and its deadline, and if the head of this
  CPU's queue changed the hardware timer is reprogrammed for the new head, or stopped when the
  queue became empty.
\<close>

theorem timer_cancel_removes:
  assumes i: "timer_inv s" and so: "\<And>d. sorted_queue now d s" and t: "tm_magic (tmr s t) = TIMER_MAGIC"
  shows "\<exists>s'. timer_cancel cpu t s = Some s' \<and> timer_inv s' \<and> (\<forall>d. sorted_queue now d s') \<and>
    tm_callback (tmr s' t) = None \<and> \<not> tm_linked (tmr s' t) \<and>
    (\<forall>d. timer_queue s' d = removeAll t (timer_queue s d)) \<and>
    (\<forall>e. e \<noteq> t \<longrightarrow> tmr s' e = tmr s e) \<and>
    (timer_queue s' cpu = [] \<longrightarrow> hw_timer s' cpu = None) \<and>
    (\<forall>h q. timer_queue s' cpu = h # q \<and> peek_head (timer_queue s cpu) \<noteq> Some h \<longrightarrow> hw_timer s' cpu =
       Some (if TIME_LT (scheduled_time (tmr s h)) (current_time s) then 0 else scheduled_time (tmr s h) - current_time s))"
proof -
  define s1 where "s1 = timer_upd t (\<lambda>x. x\<lparr>periodic_time := 0, tm_callback := None, tm_arg := None\<rparr>)
      (if tm_linked (tmr s t) then timer_list_delete t s else s)"
  define s' where "s' = (case peek_head (timer_queue s1 cpu) of
             None \<Rightarrow> platform_stop_timer cpu s1
           | Some newhead \<Rightarrow>
               if Some newhead \<noteq> peek_head (timer_queue s cpu) then
                 (let now = current_time s1;
                      delay = (if TIME_LT (scheduled_time (tmr s1 newhead)) now then 0
                               else scheduled_time (tmr s1 newhead) - now)
                  in platform_set_oneshot_timer cpu delay s1)
               else s1)"
  have r: "timer_cancel cpu t s = Some s'" using t unfolding timer_cancel_def s'_def s1_def Let_def by simp
  have f: "timer_queue s' = timer_queue s1" "tmr s' = tmr s1"
    by (simp_all add: s'_def platform_set_oneshot_timer_def platform_stop_timer_def Let_def split: option.split)
  have q1: "timer_queue s1 d = removeAll t (timer_queue s d)" for d
    using timer_inv_linked [OF i, of t] i by (simp add: s1_def timer_simps timer_inv_def distinct_remove1_removeAll)
  have tm: "tm_callback (tmr s1 t) = None" "\<not> tm_linked (tmr s1 t)" "\<And>e. e \<noteq> t \<Longrightarrow> tmr s1 e = tmr s e"
    "current_time s1 = current_time s"
    by (simp_all add: s1_def timer_simps)
  have "hw_timer s' cpu = None" if "timer_queue s1 cpu = []"
    using that by (simp add: s'_def peek_head_def platform_stop_timer_def)
  moreover have "hw_timer s' cpu =
       Some (if TIME_LT (scheduled_time (tmr s h)) (current_time s) then 0 else scheduled_time (tmr s h) - current_time s)"
    if "timer_queue s1 cpu = h # q \<and> peek_head (timer_queue s cpu) \<noteq> Some h" for h q
  proof -
    have "t \<notin> set (timer_queue s1 cpu)" unfolding q1 by simp
    then have "t \<noteq> h" using that by auto
    moreover have "peek_head (timer_queue s1 cpu) = Some h" using that by (simp add: peek_head_def)
    moreover have "Some h \<noteq> peek_head (timer_queue s cpu)" using that by metis
    ultimately show ?thesis using tm(3) [of h] tm(4) by (simp add: s'_def platform_set_oneshot_timer_def Let_def)
  qed
  ultimately show ?thesis
    using r q1 tm f timer_cancel_inv [OF i r] timer_cancel_sorted [OF i so r] by (intro exI [of _ s']) simp
qed

theorem timer_cancel_removes_witness:
  "\<exists>s'. timer_cancel 0 (timer_obj 1) three_timers = Some s' \<and> timer_queue s' 0 = [timer_obj 2]"
  using timer_cancel_removes [OF three_timers_ok, of "timer_obj 1" 0] by (auto simp: three_timers_def)

end
