(* ===== verification/Thread.thy ===== *)
theory Thread
  imports Pow2 Timer
begin

text \<open>
  The scheduler and the wait queues of \<^verbatim>\<open>kernel/thread.c\<close>, with the reschedule requests
  of \<^verbatim>\<open>kernel/mp.c\<close>, for an SMP build with \<^verbatim>\<open>WITH_KERNEL_VM\<close> and a dynamic timer.

  Each operation takes the number of the CPU it runs on and is the body of one
  \<^verbatim>\<open>THREAD_LOCK\<close> critical section, so the assertions that the lock is held and
  interrupts are off hold by construction; the other assertions are kept. A context switch
  only changes which thread is current on the CPU: what a thread does after
  \<^verbatim>\<open>thread_resched()\<close> returns in its own context is a separate operation
  (\<open>wait_queue_block_return\<close>), run when it is current again. A kernel list is the sequence
  of its entries, and \<open>t_queued\<close> is \<^verbatim>\<open>list_in_list(&t->queue_node)\<close>. Statistics
  (\<^verbatim>\<open>THREAD_STATS\<close>), the event log and the debug LED are left out: nothing reads them
  back. Of a stack's contents the model keeps \<open>stack_padding\<close>, the words below the stack
  that are filled with a debug pattern and checked at each switch.
\<close>

section \<open>State\<close>

datatype thread_state =
    THREAD_SUSPENDED | THREAD_READY | THREAD_RUNNING | THREAD_BLOCKED | THREAD_SLEEPING | THREAD_DEATH

text \<open>A wait queue is the \<^verbatim>\<open>retcode_wait_queue\<close> of a thread or lies in another object.\<close>

datatype wq_id = retcode_wait_queue thread_id | wait_queue_at nat

definition THREAD_MAGIC :: u32 where "THREAD_MAGIC = 0x74687264"
definition WAIT_QUEUE_MAGIC :: u32 where "WAIT_QUEUE_MAGIC = 0x77616974"

abbreviation (input) NUM_PRIORITIES :: int where "NUM_PRIORITIES \<equiv> 32"
abbreviation (input) HIGHEST_PRIORITY :: int where "HIGHEST_PRIORITY \<equiv> 31"
abbreviation (input) IDLE_PRIORITY :: int where "IDLE_PRIORITY \<equiv> 0"
abbreviation (input) DEFAULT_PRIORITY :: int where "DEFAULT_PRIORITY \<equiv> 16"

text \<open>The bits of \<^verbatim>\<open>t->flags\<close>.\<close>

abbreviation (input) FLAG_DETACHED :: nat where "FLAG_DETACHED \<equiv> 0"
abbreviation (input) FLAG_FREE_STACK :: nat where "FLAG_FREE_STACK \<equiv> 1"
abbreviation (input) FLAG_FREE_STRUCT :: nat where "FLAG_FREE_STRUCT \<equiv> 2"
abbreviation (input) FLAG_REAL_TIME :: nat where "FLAG_REAL_TIME \<equiv> 3"
abbreviation (input) FLAG_IDLE :: nat where "FLAG_IDLE \<equiv> 4"
abbreviation (input) FLAG_DEBUG_STACK_BOUNDS_CHECK :: nat where "FLAG_DEBUG_STACK_BOUNDS_CHECK \<equiv> 5"

record thread_t =
  t_magic :: u32
  t_queued :: bool
  priority :: int
  t_state :: thread_state
  remaining_quantum :: int
  t_flags :: u32
  curr_cpu :: int
  pinned_cpu :: int
  t_aspace :: addr
  blocking_wait_queue :: "wq_id option"
  wait_queue_block_ret :: status_t
  t_stack :: addr
  t_stack_size :: nat
  t_entry :: addr
  t_arg :: addr
  retcode :: int
  tls :: "addr list"
  t_name :: string
  stack_padding :: "u32 list"

record wait_queue_t =
  wq_magic :: u32
  wq_count :: int
  wq_list :: "thread_id list"

datatype freed = Freed_thread thread_id | Freed_stack addr

text \<open>
  The kernel's global state: the timers, the threads, the run queues and their bitmap, the
  wait queues, the thread and the address space that each CPU is on, the CPU masks of
  \<^verbatim>\<open>struct mp_state\<close>, the interprocessor interrupts sent, and the memory handed back.
\<close>

record kstate = timer_state +
  thr :: "thread_id \<Rightarrow> thread_t"
  thread_list :: "thread_id list"
  run_queue :: "nat \<Rightarrow> thread_id list"
  run_queue_bitmap :: u32
  wq :: "wq_id \<Rightarrow> wait_queue_t"
  current :: "nat \<Rightarrow> thread_id"
  cpu_aspace :: "nat \<Rightarrow> addr"
  mp_active_cpus :: u32
  mp_idle_cpus :: u32
  mp_realtime_cpus :: u32
  ipis_sent :: "u32 list"
  freed :: "freed list"

definition thr_upd :: "thread_id \<Rightarrow> (thread_t \<Rightarrow> thread_t) \<Rightarrow> kstate \<Rightarrow> kstate" where
  "thr_upd t f k = k\<lparr>thr := (thr k)(t := f (thr k t))\<rparr>"

definition wq_upd :: "wq_id \<Rightarrow> (wait_queue_t \<Rightarrow> wait_queue_t) \<Rightarrow> kstate \<Rightarrow> kstate" where
  "wq_upd w f k = k\<lparr>wq := (wq k)(w := f (wq k w))\<rparr>"

section \<open>CPU masks and reschedule requests\<close>

abbreviation (input) MP_CPU_ALL_BUT_LOCAL :: u32 where "MP_CPU_ALL_BUT_LOCAL \<equiv> - 1"

definition mp_reschedule :: "nat \<Rightarrow> u32 \<Rightarrow> u32 \<Rightarrow> kstate \<Rightarrow> kstate" where
  "mp_reschedule cpu target flags k =
     (let target = target AND mp_active_cpus k;
          target = (if flags AND 1 = 0 then target AND NOT (mp_realtime_cpus k) else target);
          target = target AND NOT (shl1 cpu)
      in if target = 0 then k else k\<lparr>ipis_sent := ipis_sent k @ [target]\<rparr>)"

definition mp_set_curr_cpu_active :: "nat \<Rightarrow> bool \<Rightarrow> kstate \<Rightarrow> kstate" where
  "mp_set_curr_cpu_active cpu active k = k\<lparr>mp_active_cpus := mp_active_cpus k OR shl1 cpu\<rparr>"

definition mp_mbx_reschedule_irq :: "nat \<Rightarrow> kstate \<Rightarrow> handler_return" where
  "mp_mbx_reschedule_irq cpu k =
     (if mp_active_cpus k AND shl1 cpu \<noteq> 0 then INT_RESCHEDULE else INT_NO_RESCHEDULE)"

definition mp_set_cpu_idle :: "nat \<Rightarrow> kstate \<Rightarrow> kstate" where
  "mp_set_cpu_idle cpu k = k\<lparr>mp_idle_cpus := mp_idle_cpus k OR shl1 cpu\<rparr>"

definition mp_set_cpu_busy :: "nat \<Rightarrow> kstate \<Rightarrow> kstate" where
  "mp_set_cpu_busy cpu k = k\<lparr>mp_idle_cpus := mp_idle_cpus k AND NOT (shl1 cpu)\<rparr>"

definition mp_set_cpu_realtime :: "nat \<Rightarrow> kstate \<Rightarrow> kstate" where
  "mp_set_cpu_realtime cpu k = k\<lparr>mp_realtime_cpus := mp_realtime_cpus k OR shl1 cpu\<rparr>"

definition mp_set_cpu_non_realtime :: "nat \<Rightarrow> kstate \<Rightarrow> kstate" where
  "mp_set_cpu_non_realtime cpu k = k\<lparr>mp_realtime_cpus := mp_realtime_cpus k AND NOT (shl1 cpu)\<rparr>"

section \<open>The run queue\<close>

text \<open>
  \<^verbatim>\<open>run_queue[t->priority]\<close> is an access to an array of 32 entries: a priority outside
  is a failure.
\<close>

definition insert_in_run_queue_head :: "thread_id \<Rightarrow> kstate \<Rightarrow> kstate option" where
  "insert_in_run_queue_head t k = do {
     DEBUG_ASSERT (t_magic (thr k t) = THREAD_MAGIC);
     DEBUG_ASSERT (t_state (thr k t) = THREAD_READY);
     DEBUG_ASSERT (\<not> t_queued (thr k t));
     DEBUG_ASSERT (0 \<le> priority (thr k t) \<and> priority (thr k t) < NUM_PRIORITIES);
     let p = nat (priority (thr k t));
     Some (thr_upd t (\<lambda>x. x\<lparr>t_queued := True\<rparr>)
       (k\<lparr>run_queue := (run_queue k)(p := t # run_queue k p),
          run_queue_bitmap := run_queue_bitmap k OR shl1 p\<rparr>))
   }"

definition insert_in_run_queue_tail :: "thread_id \<Rightarrow> kstate \<Rightarrow> kstate option" where
  "insert_in_run_queue_tail t k = do {
     DEBUG_ASSERT (t_magic (thr k t) = THREAD_MAGIC);
     DEBUG_ASSERT (t_state (thr k t) = THREAD_READY);
     DEBUG_ASSERT (\<not> t_queued (thr k t));
     DEBUG_ASSERT (0 \<le> priority (thr k t) \<and> priority (thr k t) < NUM_PRIORITIES);
     let p = nat (priority (thr k t));
     Some (thr_upd t (\<lambda>x. x\<lparr>t_queued := True\<rparr>)
       (k\<lparr>run_queue := (run_queue k)(p := run_queue k p @ [t]),
          run_queue_bitmap := run_queue_bitmap k OR shl1 p\<rparr>))
   }"

definition wakeup_cpu_for_thread :: "nat \<Rightarrow> thread_id \<Rightarrow> kstate \<Rightarrow> kstate" where
  "wakeup_cpu_for_thread cpu t k =
     (let pinned = pinned_cpu (thr k t)
      in if pinned < 0 then mp_reschedule cpu MP_CPU_ALL_BUT_LOCAL 0 k
         else mp_reschedule cpu (shl1 (nat pinned)) 0 k)"

definition thread_is_realtime :: "thread_t \<Rightarrow> bool" where
  "thread_is_realtime t \<longleftrightarrow> bit (t_flags t) FLAG_REAL_TIME \<and> priority t > DEFAULT_PRIORITY"

definition thread_is_idle :: "thread_t \<Rightarrow> bool" where
  "thread_is_idle t \<longleftrightarrow> bit (t_flags t) FLAG_IDLE"

definition thread_is_real_time_or_idle :: "thread_t \<Rightarrow> bool" where
  "thread_is_real_time_or_idle t \<longleftrightarrow> bit (t_flags t) FLAG_REAL_TIME \<or> bit (t_flags t) FLAG_IDLE"

text \<open>
  \<^verbatim>\<open>get_top_thread\<close>: the loop over the set bits of the bitmap copy, highest first, looks
  for the first thread of that queue that may run on this CPU.
\<close>

definition may_run_on :: "nat \<Rightarrow> thread_t \<Rightarrow> bool" where
  "may_run_on cpu t \<longleftrightarrow> pinned_cpu t < 0 \<or> pinned_cpu t = int cpu"

lemma clear_top_bit_less:
  assumes "(w :: u32) \<noteq> 0"
  shows "unat (w AND NOT (shl1 (log2_uint w))) < unat w"
proof -
  have "w AND NOT (shl1 (log2_uint w)) \<noteq> w"
    using log2_uint_bit [OF assms] bit_andnot_shl1 [of w "log2_uint w" "log2_uint w"] by metis
  moreover have "w AND NOT (shl1 (log2_uint w)) \<le> w" by (rule word_and_le2)
  ultimately show ?thesis by (simp add: word_le_nat_alt word_unat_eq_iff)
qed

function top_thread_loop :: "nat \<Rightarrow> u32 \<Rightarrow> kstate \<Rightarrow> (nat \<times> thread_id) option" where
  "top_thread_loop cpu bitmap k =
     (if bitmap = 0 then None
      else (let next_queue = 4 * 8 - 1 - builtin_clz bitmap
            in case find (\<lambda>t. may_run_on cpu (thr k t)) (run_queue k next_queue) of
                 Some t \<Rightarrow> Some (next_queue, t)
               | None \<Rightarrow> top_thread_loop cpu (bitmap AND NOT (shl1 next_queue)) k))"
  by pat_completeness auto
termination
proof (relation "measure (\<lambda>(cpu, bitmap, k). unat bitmap)", goal_cases)
  case (2 cpu bitmap k x)
  then have "x = log2_uint bitmap" by (simp add: log2_uint_def)
  then show ?case using 2 clear_top_bit_less [of bitmap] by simp
qed simp

declare top_thread_loop.simps [simp del]

definition get_top_thread :: "nat \<Rightarrow> kstate \<Rightarrow> thread_id \<times> kstate" where
  "get_top_thread cpu k =
     (case top_thread_loop cpu (run_queue_bitmap k) k of
        Some (q, t) \<Rightarrow>
          (let k = thr_upd t (\<lambda>x. x\<lparr>t_queued := False\<rparr>)
                     (k\<lparr>run_queue := (run_queue k)(q := remove1 t (run_queue k q))\<rparr>)
           in (t, if run_queue k q = []
                  then k\<lparr>run_queue_bitmap := run_queue_bitmap k AND NOT (shl1 q)\<rparr> else k))
      | None \<Rightarrow> (idle_thread cpu, k))"


section \<open>Switching threads\<close>

definition STACK_DEBUG_WORD :: u32 where "STACK_DEBUG_WORD = 0x99999999"

text \<open>
  \<^verbatim>\<open>thread_resched\<close> in three parts: the new thread's quantum, the CPU marks of the two
  threads and the CPU masks; the preemption timer, which runs only under threads that are
  neither real-time nor idle; and the whole routine.
\<close>

definition switch_threads :: "nat \<Rightarrow> thread_id \<Rightarrow> thread_id \<Rightarrow> kstate \<Rightarrow> kstate" where
  "switch_threads cpu oldthread newthread k =
     (let k = (if remaining_quantum (thr k newthread) \<le> 0
               then thr_upd newthread (\<lambda>x. x\<lparr>remaining_quantum := 5\<rparr>) k else k);
          k = thr_upd oldthread (\<lambda>x. x\<lparr>curr_cpu := -1\<rparr>) k;
          k = thr_upd newthread (\<lambda>x. x\<lparr>curr_cpu := int cpu\<rparr>) k;
          k = (if thread_is_idle (thr k newthread) then mp_set_cpu_idle cpu k else mp_set_cpu_busy cpu k)
      in if thread_is_realtime (thr k newthread) then mp_set_cpu_realtime cpu k else mp_set_cpu_non_realtime cpu k)"

definition switch_preempt_timer :: "nat \<Rightarrow> thread_t \<Rightarrow> thread_t \<Rightarrow> kstate \<Rightarrow> kstate option" where
  "switch_preempt_timer cpu oldthread newthread k =
     (if thread_is_real_time_or_idle newthread then
        (if \<not> thread_is_real_time_or_idle oldthread then timer_cancel cpu (preempt_timer cpu) k else Some k)
      else if thread_is_real_time_or_idle oldthread
      then timer_set_periodic cpu (preempt_timer cpu) 10 thread_timer_tick_cb None k
      else Some k)"

definition thread_resched :: "nat \<Rightarrow> kstate \<Rightarrow> kstate option" where
  "thread_resched cpu k = do {
     let oldthread = current k cpu;
     DEBUG_ASSERT (t_state (thr k oldthread) \<noteq> THREAD_RUNNING);
     let (newthread, k) = get_top_thread cpu k;
     let k = thr_upd newthread (\<lambda>x. x\<lparr>t_state := THREAD_RUNNING\<rparr>) k;
     if newthread = oldthread then Some k
     else do {
       let k = switch_threads cpu oldthread newthread k;
       k \<leftarrow> switch_preempt_timer cpu (thr k oldthread) (thr k newthread) k;
       let k = k\<lparr>current := (current k)(cpu := newthread)\<rparr>;
       DEBUG_ASSERT (bit (t_flags (thr k oldthread)) FLAG_DEBUG_STACK_BOUNDS_CHECK \<longrightarrow>
                     list_all (\<lambda>w. w = STACK_DEBUG_WORD) (stack_padding (thr k oldthread)));
       Some (if t_aspace (thr k newthread) \<noteq> t_aspace (thr k oldthread)
             then k\<lparr>cpu_aspace := (cpu_aspace k)(cpu := t_aspace (thr k newthread))\<rparr> else k)
     }
   }"

definition thread_yield :: "nat \<Rightarrow> kstate \<Rightarrow> kstate option" where
  "thread_yield cpu k = do {
     let t = current k cpu;
     DEBUG_ASSERT (t_magic (thr k t) = THREAD_MAGIC);
     DEBUG_ASSERT (t_state (thr k t) = THREAD_RUNNING);
     let k = thr_upd t (\<lambda>x. x\<lparr>t_state := THREAD_READY, remaining_quantum := 0\<rparr>) k;
     k \<leftarrow> (if \<not> thread_is_idle (thr k t) then insert_in_run_queue_tail t k else Some k);
     thread_resched cpu k
   }"

definition thread_preempt :: "nat \<Rightarrow> kstate \<Rightarrow> kstate option" where
  "thread_preempt cpu k = do {
     let t = current k cpu;
     DEBUG_ASSERT (t_magic (thr k t) = THREAD_MAGIC);
     DEBUG_ASSERT (t_state (thr k t) = THREAD_RUNNING);
     let k = thr_upd t (\<lambda>x. x\<lparr>t_state := THREAD_READY\<rparr>) k;
     k \<leftarrow> (if \<not> thread_is_idle (thr k t) then
             (if remaining_quantum (thr k t) > 0
              then insert_in_run_queue_head t k else insert_in_run_queue_tail t k)
           else Some k);
     thread_resched cpu k
   }"

definition thread_block :: "nat \<Rightarrow> kstate \<Rightarrow> kstate option" where
  "thread_block cpu k = do {
     let t = current k cpu;
     DEBUG_ASSERT (t_magic (thr k t) = THREAD_MAGIC);
     DEBUG_ASSERT (t_state (thr k t) = THREAD_BLOCKED);
     DEBUG_ASSERT (\<not> thread_is_idle (thr k t));
     thread_resched cpu k
   }"

definition thread_unblock :: "nat \<Rightarrow> thread_id \<Rightarrow> bool \<Rightarrow> kstate \<Rightarrow> kstate option" where
  "thread_unblock cpu t resched k = do {
     DEBUG_ASSERT (t_magic (thr k t) = THREAD_MAGIC);
     DEBUG_ASSERT (t_state (thr k t) = THREAD_BLOCKED);
     DEBUG_ASSERT (\<not> thread_is_idle (thr k t));
     let k = thr_upd t (\<lambda>x. x\<lparr>t_state := THREAD_READY\<rparr>) k;
     k \<leftarrow> insert_in_run_queue_head t k;
     let k = wakeup_cpu_for_thread cpu t k;
     if resched then thread_resched cpu k else Some k
   }"

definition thread_set_priority :: "nat \<Rightarrow> int \<Rightarrow> kstate \<Rightarrow> kstate option" where
  "thread_set_priority cpu prio k = do {
     let t = current k cpu;
     let prio = (if prio \<le> IDLE_PRIORITY then IDLE_PRIORITY + 1 else prio);
     let prio = (if prio > HIGHEST_PRIORITY then HIGHEST_PRIORITY else prio);
     let k = thr_upd t (\<lambda>x. x\<lparr>priority := prio, t_state := THREAD_READY\<rparr>) k;
     k \<leftarrow> insert_in_run_queue_head t k;
     thread_resched cpu k
   }"

text \<open>
  \<^verbatim>\<open>thread_sleep\<close> returns when the thread is switched back to, with nothing left to do.
\<close>

definition thread_sleep :: "nat \<Rightarrow> nusa_time_t \<Rightarrow> kstate \<Rightarrow> kstate option" where
  "thread_sleep cpu delay k = do {
     let t = current k cpu;
     DEBUG_ASSERT (t_magic (thr k t) = THREAD_MAGIC);
     DEBUG_ASSERT (t_state (thr k t) = THREAD_RUNNING);
     DEBUG_ASSERT (\<not> thread_is_idle (thr k t));
     let k = timer_initialize (stack_timer t) k;
     k \<leftarrow> timer_set_oneshot cpu (stack_timer t) delay thread_sleep_handler_cb (Some t) k;
     let k = thr_upd t (\<lambda>x. x\<lparr>t_state := THREAD_SLEEPING\<rparr>) k;
     thread_resched cpu k
   }"

section \<open>Wait queues\<close>

definition wait_queue_init :: "wq_id \<Rightarrow> kstate \<Rightarrow> kstate" where
  "wait_queue_init w k =
     wq_upd w (\<lambda>_. \<lparr>wq_magic = WAIT_QUEUE_MAGIC, wq_count = 0, wq_list = []\<rparr>) k"

text \<open>
  An operation that may block returns \<open>Returned\<close> with its result, or \<open>Switched\<close> when the
  CPU has gone to another thread; the second half of the operation runs later.
\<close>

datatype 'a outcome = Returned 'a | Switched

definition wait_queue_block ::
  "nat \<Rightarrow> wq_id \<Rightarrow> nusa_time_t \<Rightarrow> kstate \<Rightarrow> (kstate \<times> status_t outcome) option" where
  "wait_queue_block cpu w timeout k = do {
     let t = current k cpu;
     DEBUG_ASSERT (wq_magic (wq k w) = WAIT_QUEUE_MAGIC);
     DEBUG_ASSERT (t_state (thr k t) = THREAD_RUNNING);
     if timeout = 0 then Some (k, Returned ERR_TIMED_OUT)
     else do {
       let k = wq_upd w (\<lambda>x. x\<lparr>wq_list := wq_list x @ [t], wq_count := wq_count x + 1\<rparr>) k;
       let k = thr_upd t (\<lambda>x. x\<lparr>t_queued := True, t_state := THREAD_BLOCKED,
                  blocking_wait_queue := Some w, wait_queue_block_ret := NO_ERROR\<rparr>) k;
       k \<leftarrow> (if timeout \<noteq> INFINITE_TIME
             then timer_set_oneshot cpu (stack_timer t) timeout wait_queue_timeout_handler_cb (Some t)
                    (timer_initialize (stack_timer t) k)
             else Some k);
       k \<leftarrow> thread_resched cpu k;
       Some (k, Switched)
     }
   }"

definition wait_queue_block_return :: "nat \<Rightarrow> nusa_time_t \<Rightarrow> kstate \<Rightarrow> (kstate \<times> status_t) option" where
  "wait_queue_block_return cpu timeout k = do {
     let t = current k cpu;
     k \<leftarrow> (if timeout \<noteq> INFINITE_TIME then timer_cancel cpu (stack_timer t) k else Some k);
     Some (k, wait_queue_block_ret (thr k t))
   }"

definition wait_queue_wake_one ::
  "nat \<Rightarrow> wq_id \<Rightarrow> bool \<Rightarrow> status_t \<Rightarrow> kstate \<Rightarrow> (kstate \<times> int) option" where
  "wait_queue_wake_one cpu w reschedule wait_queue_error k = do {
     DEBUG_ASSERT (wq_magic (wq k w) = WAIT_QUEUE_MAGIC);
     case wq_list (wq k w) of
       [] \<Rightarrow> Some (k, 0)
     | t # ts \<Rightarrow> do {
         let k = wq_upd w (\<lambda>x. x\<lparr>wq_list := ts, wq_count := wq_count x - 1\<rparr>) k;
         let k = thr_upd t (\<lambda>x. x\<lparr>t_queued := False\<rparr>) k;
         DEBUG_ASSERT (t_state (thr k t) = THREAD_BLOCKED);
         let k = thr_upd t (\<lambda>x. x\<lparr>t_state := THREAD_READY, wait_queue_block_ret := wait_queue_error,
                                 blocking_wait_queue := None\<rparr>) k;
         k \<leftarrow> (if reschedule
               then insert_in_run_queue_head (current k cpu)
                      (thr_upd (current k cpu) (\<lambda>x. x\<lparr>t_state := THREAD_READY\<rparr>) k)
               else Some k);
         k \<leftarrow> insert_in_run_queue_head t k;
         let k = wakeup_cpu_for_thread cpu t k;
         k \<leftarrow> (if reschedule then thread_resched cpu k else Some k);
         Some (k, 1)
       }
   }"

text \<open>
  The loop of \<^verbatim>\<open>wait_queue_wake_all\<close> takes threads off the tail of the list until it is
  empty; \<open>ts\<close> is the list in that order. The result is the CPU mask of the woken threads.
\<close>

fun wake_all_loop :: "wq_id \<Rightarrow> status_t \<Rightarrow> thread_id list \<Rightarrow> u32 \<Rightarrow> kstate \<Rightarrow> (kstate \<times> u32) option" where
  "wake_all_loop w err [] cpu_mask k = Some (k, cpu_mask)"
| "wake_all_loop w err (t # ts) cpu_mask k = do {
     let k = wq_upd w (\<lambda>x. x\<lparr>wq_list := butlast (wq_list x), wq_count := wq_count x - 1\<rparr>) k;
     let k = thr_upd t (\<lambda>x. x\<lparr>t_queued := False\<rparr>) k;
     DEBUG_ASSERT (t_state (thr k t) = THREAD_BLOCKED);
     let k = thr_upd t (\<lambda>x. x\<lparr>t_state := THREAD_READY, wait_queue_block_ret := err,
                             blocking_wait_queue := None\<rparr>) k;
     let pinned = pinned_cpu (thr k t);
     let cpu_mask = (if pinned < 0 then MP_CPU_ALL_BUT_LOCAL else cpu_mask OR shl1 (nat pinned));
     k \<leftarrow> insert_in_run_queue_head t k;
     wake_all_loop w err ts cpu_mask k
   }"

definition wait_queue_wake_all ::
  "nat \<Rightarrow> wq_id \<Rightarrow> bool \<Rightarrow> status_t \<Rightarrow> kstate \<Rightarrow> (kstate \<times> int) option" where
  "wait_queue_wake_all cpu w reschedule wait_queue_error k = do {
     DEBUG_ASSERT (wq_magic (wq k w) = WAIT_QUEUE_MAGIC);
     k \<leftarrow> (if reschedule \<and> wq_count (wq k w) > 0
           then insert_in_run_queue_head (current k cpu)
                  (thr_upd (current k cpu) (\<lambda>x. x\<lparr>t_state := THREAD_READY\<rparr>) k)
           else Some k);
     let ts = rev (wq_list (wq k w));
     (k, cpu_mask) \<leftarrow> wake_all_loop w wait_queue_error ts 0 k;
     DEBUG_ASSERT (wq_count (wq k w) = 0);
     let ret = int (length ts);
     k \<leftarrow> (if ret > 0 then
             (let k = mp_reschedule cpu cpu_mask 0 k
              in if reschedule then thread_resched cpu k else Some k)
           else Some k);
     Some (k, ret)
   }"

definition wait_queue_destroy :: "nat \<Rightarrow> wq_id \<Rightarrow> bool \<Rightarrow> kstate \<Rightarrow> kstate option" where
  "wait_queue_destroy cpu w reschedule k = do {
     DEBUG_ASSERT (wq_magic (wq k w) = WAIT_QUEUE_MAGIC);
     (k, _) \<leftarrow> wait_queue_wake_all cpu w reschedule ERR_OBJECT_DESTROYED k;
     Some (wq_upd w (\<lambda>x. x\<lparr>wq_magic := 0\<rparr>) k)
   }"

text \<open>\<^verbatim>\<open>list_delete(&t->queue_node)\<close> takes the thread off the queue it is blocked on.\<close>

definition thread_unblock_from_wait_queue ::
  "nat \<Rightarrow> thread_id \<Rightarrow> status_t \<Rightarrow> kstate \<Rightarrow> (kstate \<times> status_t) option" where
  "thread_unblock_from_wait_queue cpu t wait_queue_error k = do {
     DEBUG_ASSERT (t_magic (thr k t) = THREAD_MAGIC);
     if t_state (thr k t) \<noteq> THREAD_BLOCKED then Some (k, ERR_NOT_BLOCKED)
     else case blocking_wait_queue (thr k t) of
       None \<Rightarrow> None
     | Some w \<Rightarrow> do {
         DEBUG_ASSERT (wq_magic (wq k w) = WAIT_QUEUE_MAGIC);
         DEBUG_ASSERT (t_queued (thr k t));
         let k = wq_upd w (\<lambda>x. x\<lparr>wq_list := remove1 t (wq_list x), wq_count := wq_count x - 1\<rparr>) k;
         let k = thr_upd t (\<lambda>x. x\<lparr>t_queued := False, blocking_wait_queue := None,
                   t_state := THREAD_READY, wait_queue_block_ret := wait_queue_error\<rparr>) k;
         k \<leftarrow> insert_in_run_queue_head t k;
         Some (wakeup_cpu_for_thread cpu t k, NO_ERROR)
       }
   }"

section \<open>Timer callbacks\<close>

definition thread_timer_tick :: "nat \<Rightarrow> kstate \<Rightarrow> kstate \<times> handler_return" where
  "thread_timer_tick cpu k =
     (let t = current k cpu
      in if thread_is_real_time_or_idle (thr k t) then (k, INT_NO_RESCHEDULE)
         else (let k = thr_upd t (\<lambda>x. x\<lparr>remaining_quantum := remaining_quantum x - 1\<rparr>) k
               in (k, if remaining_quantum (thr k t) \<le> 0 then INT_RESCHEDULE else INT_NO_RESCHEDULE)))"

definition thread_sleep_handler :: "thread_id \<Rightarrow> kstate \<Rightarrow> (kstate \<times> handler_return) option" where
  "thread_sleep_handler t k = do {
     DEBUG_ASSERT (t_magic (thr k t) = THREAD_MAGIC);
     DEBUG_ASSERT (t_state (thr k t) = THREAD_SLEEPING);
     let k = thr_upd t (\<lambda>x. x\<lparr>t_state := THREAD_READY\<rparr>) k;
     k \<leftarrow> insert_in_run_queue_head t k;
     Some (k, INT_RESCHEDULE)
   }"

definition wait_queue_timeout_handler :: "nat \<Rightarrow> thread_id \<Rightarrow> kstate \<Rightarrow> (kstate \<times> handler_return) option" where
  "wait_queue_timeout_handler cpu t k = do {
     DEBUG_ASSERT (t_magic (thr k t) = THREAD_MAGIC);
     (k, r) \<leftarrow> thread_unblock_from_wait_queue cpu t ERR_TIMED_OUT k;
     Some (k, if r \<ge> NO_ERROR then INT_RESCHEDULE else INT_NO_RESCHEDULE)
   }"

text \<open>The call through \<^verbatim>\<open>timer->callback\<close>; \<open>other\<close> stands for the callbacks of other modules.\<close>

definition kernel_callback :: "(nat \<Rightarrow> kstate callback_fn) \<Rightarrow> nat \<Rightarrow> kstate callback_fn" where
  "kernel_callback other cpu f tm now arg k =
     (case (f, arg) of
        (thread_timer_tick_cb, _) \<Rightarrow> Some (thread_timer_tick cpu k)
      | (thread_sleep_handler_cb, Some t) \<Rightarrow> thread_sleep_handler t k
      | (wait_queue_timeout_handler_cb, Some t) \<Rightarrow> wait_queue_timeout_handler cpu t k
      | (other_cb n, _) \<Rightarrow> other n f tm now arg k
      | (_, None) \<Rightarrow> None)"

section \<open>Creation and termination\<close>

text \<open>\<^verbatim>\<open>strlcpy(t->name, name, sizeof(t->name))\<close>.\<close>

definition name_copy :: "string \<Rightarrow> string" where
  "name_copy name = take 31 name"

text \<open>The thread-local slots: the console and \<^verbatim>\<open>errno\<close>.\<close>

abbreviation (input) TLS_ENTRY_CONSOLE :: nat where "TLS_ENTRY_CONSOLE \<equiv> 0"
abbreviation (input) TLS_ENTRY_ERRNO :: nat where "TLS_ENTRY_ERRNO \<equiv> 1"
abbreviation (input) MAX_TLS_ENTRY :: nat where "MAX_TLS_ENTRY \<equiv> 2"

definition zeroed_thread :: thread_t where
  "zeroed_thread = \<lparr>t_magic = 0, t_queued = False, priority = 0, t_state = THREAD_SUSPENDED,
     remaining_quantum = 0, t_flags = 0, curr_cpu = 0, pinned_cpu = 0, t_aspace = 0,
     blocking_wait_queue = None, wait_queue_block_ret = 0, t_stack = 0, t_stack_size = 0,
     t_entry = 0, t_arg = 0, retcode = 0, tls = replicate MAX_TLS_ENTRY 0, t_name = [],
     stack_padding = []\<rparr>"

definition init_thread_struct :: "thread_id \<Rightarrow> string \<Rightarrow> kstate \<Rightarrow> kstate" where
  "init_thread_struct t name k =
     wq_upd (retcode_wait_queue t) (\<lambda>_. \<lparr>wq_magic = 0, wq_count = 0, wq_list = []\<rparr>)
       (thr_upd t (\<lambda>_. zeroed_thread\<lparr>t_magic := THREAD_MAGIC, pinned_cpu := -1, t_name := name_copy name\<rparr>) k)"

text \<open>
  \<open>malloc_t\<close> and \<open>malloc_stack\<close> are what the two calls of \<^verbatim>\<open>malloc\<close> return.
  \<^verbatim>\<open>arch_thread_initialize\<close> writes only the architecture's saved registers.
\<close>

abbreviation (input) THREAD_STACK_PADDING_SIZE :: nat where "THREAD_STACK_PADDING_SIZE \<equiv> 256"

definition thread_create_etc ::
  "nat \<Rightarrow> thread_id option \<Rightarrow> thread_id option \<Rightarrow> string \<Rightarrow> addr \<Rightarrow> addr \<Rightarrow> int
    \<Rightarrow> addr option \<Rightarrow> addr option \<Rightarrow> nat \<Rightarrow> kstate \<Rightarrow> kstate \<times> thread_id option" where
  "thread_create_etc cpu malloc_t t0 name entry arg prio stack malloc_stack stack_size k =
     (case (case t0 of Some t \<Rightarrow> Some (t, 0) | None \<Rightarrow> map_option (\<lambda>t. (t, shl1 FLAG_FREE_STRUCT)) malloc_t) of
        None \<Rightarrow> (k, None)
      | Some (t, flags) \<Rightarrow>
          (let k = init_thread_struct t name k;
               k = thr_upd t (\<lambda>x. x\<lparr>t_entry := entry, t_arg := arg, priority := prio,
                     t_state := THREAD_SUSPENDED, blocking_wait_queue := None,
                     wait_queue_block_ret := NO_ERROR, curr_cpu := -1, retcode := 0\<rparr>) k;
               k = wait_queue_init (retcode_wait_queue t) k;
               k = thr_upd t (\<lambda>x. x\<lparr>t_aspace := 0\<rparr>) k
           in case (case stack of
                      Some sp \<Rightarrow> Some (sp, stack_size, flags, replicate (THREAD_STACK_PADDING_SIZE div 4) STACK_DEBUG_WORD)
                    | None \<Rightarrow> map_option (\<lambda>sp. (sp, stack_size + THREAD_STACK_PADDING_SIZE,
                         flags OR shl1 FLAG_DEBUG_STACK_BOUNDS_CHECK OR shl1 FLAG_FREE_STACK,
                         replicate (THREAD_STACK_PADDING_SIZE div 4) STACK_DEBUG_WORD)) malloc_stack) of
                None \<Rightarrow> (if bit flags FLAG_FREE_STRUCT
                         then (k\<lparr>freed := freed k @ [Freed_thread t]\<rparr>, None) else (k, None))
              | Some (sp, sz, flags, padding) \<Rightarrow>
                  (let k = thr_upd t (\<lambda>x. x\<lparr>t_stack := sp, t_stack_size := sz, t_flags := flags,
                             stack_padding := padding,
                             tls := (tls (thr k (current k cpu)))[TLS_ENTRY_ERRNO := 0]\<rparr>) k
                   in (k\<lparr>thread_list := t # thread_list k\<rparr>, Some t))))"

definition thread_create ::
  "nat \<Rightarrow> thread_id option \<Rightarrow> string \<Rightarrow> addr \<Rightarrow> addr \<Rightarrow> int \<Rightarrow> addr option \<Rightarrow> nat
    \<Rightarrow> kstate \<Rightarrow> kstate \<times> thread_id option" where
  "thread_create cpu malloc_t name entry arg prio malloc_stack stack_size k =
     thread_create_etc cpu malloc_t None name entry arg prio None malloc_stack stack_size k"

definition thread_set_real_time :: "nat \<Rightarrow> thread_id option \<Rightarrow> kstate \<Rightarrow> (kstate \<times> status_t) option" where
  "thread_set_real_time cpu t k =
     (case t of
        None \<Rightarrow> Some (k, ERR_INVALID_ARGS)
      | Some t \<Rightarrow> do {
          DEBUG_ASSERT (t_magic (thr k t) = THREAD_MAGIC);
          k \<leftarrow> (if t = current k cpu then timer_cancel cpu (preempt_timer cpu) k else Some k);
          Some (thr_upd t (\<lambda>x. x\<lparr>t_flags := t_flags x OR shl1 FLAG_REAL_TIME\<rparr>) k, NO_ERROR)
        })"

text \<open>
  \<^verbatim>\<open>thread_resume\<close> is one critical section, followed by \<^verbatim>\<open>thread_yield()\<close> when the
  thread was suspended and interrupts were on.
\<close>

definition thread_resume_locked :: "nat \<Rightarrow> bool \<Rightarrow> thread_id \<Rightarrow> kstate \<Rightarrow> (kstate \<times> bool) option" where
  "thread_resume_locked cpu ints_disabled t k = do {
     DEBUG_ASSERT (t_magic (thr k t) = THREAD_MAGIC);
     DEBUG_ASSERT (t_state (thr k t) \<noteq> THREAD_DEATH);
     (k, resched) \<leftarrow>
       (if t_state (thr k t) = THREAD_SUSPENDED then do {
          k \<leftarrow> insert_in_run_queue_head t (thr_upd t (\<lambda>x. x\<lparr>t_state := THREAD_READY\<rparr>) k);
          Some (k, \<not> ints_disabled)
        } else Some (k, False));
     Some (wakeup_cpu_for_thread cpu t k, resched)
   }"

definition thread_resume :: "nat \<Rightarrow> bool \<Rightarrow> thread_id \<Rightarrow> kstate \<Rightarrow> (kstate \<times> status_t) option" where
  "thread_resume cpu ints_disabled t k = do {
     (k, resched) \<leftarrow> thread_resume_locked cpu ints_disabled t k;
     k \<leftarrow> (if resched then thread_yield cpu k else Some k);
     Some (k, NO_ERROR)
   }"

text \<open>
  \<^verbatim>\<open>thread_join\<close>: \<open>thread_join_dead\<close> is what follows once the thread is dead, run at once
  or, with the result \<open>err\<close> of the wait, when the joining thread is switched back to. The
  result is the status and the return code that is stored through the caller's pointer.
\<close>

definition thread_join_dead :: "thread_id \<Rightarrow> kstate \<Rightarrow> (kstate \<times> status_t \<times> int option) option" where
  "thread_join_dead t k = do {
     DEBUG_ASSERT (t_magic (thr k t) = THREAD_MAGIC);
     DEBUG_ASSERT (t_state (thr k t) = THREAD_DEATH);
     DEBUG_ASSERT (blocking_wait_queue (thr k t) = None);
     DEBUG_ASSERT (\<not> t_queued (thr k t));
     let rc = retcode (thr k t);
     let k = k\<lparr>thread_list := remove1 t (thread_list k)\<rparr>;
     let k = thr_upd t (\<lambda>x. x\<lparr>t_magic := 0\<rparr>) k;
     let k = (if bit (t_flags (thr k t)) FLAG_FREE_STACK \<and> t_stack (thr k t) \<noteq> 0
              then k\<lparr>freed := freed k @ [Freed_stack (t_stack (thr k t))]\<rparr> else k);
     let k = (if bit (t_flags (thr k t)) FLAG_FREE_STRUCT
              then k\<lparr>freed := freed k @ [Freed_thread t]\<rparr> else k);
     Some (k, NO_ERROR, Some rc)
   }"

definition thread_join ::
  "nat \<Rightarrow> thread_id \<Rightarrow> nusa_time_t \<Rightarrow> kstate \<Rightarrow> (kstate \<times> (status_t \<times> int option) outcome) option" where
  "thread_join cpu t timeout k = do {
     DEBUG_ASSERT (t_magic (thr k t) = THREAD_MAGIC);
     if bit (t_flags (thr k t)) FLAG_DETACHED then Some (k, Returned (ERR_THREAD_DETACHED, None))
     else if t_state (thr k t) \<noteq> THREAD_DEATH then do {
       (k, r) \<leftarrow> wait_queue_block cpu (retcode_wait_queue t) timeout k;
       Some (k, case r of Returned err \<Rightarrow> Returned (err, None) | Switched \<Rightarrow> Switched)
     } else do {
       (k, r) \<leftarrow> thread_join_dead t k;
       Some (k, Returned r)
     }
   }"

definition thread_join_return ::
  "nat \<Rightarrow> thread_id \<Rightarrow> nusa_time_t \<Rightarrow> kstate \<Rightarrow> (kstate \<times> status_t \<times> int option) option" where
  "thread_join_return cpu t timeout k = do {
     (k, err) \<leftarrow> wait_queue_block_return cpu timeout k;
     if err < 0 then Some (k, err, None) else thread_join_dead t k
   }"

definition thread_detach :: "nat \<Rightarrow> thread_id \<Rightarrow> kstate \<Rightarrow> (kstate \<times> status_t) option" where
  "thread_detach cpu t k = do {
     DEBUG_ASSERT (t_magic (thr k t) = THREAD_MAGIC);
     (k, _) \<leftarrow> wait_queue_wake_all cpu (retcode_wait_queue t) False ERR_THREAD_DETACHED k;
     if t_state (thr k t) = THREAD_DEATH then do {
       let k = thr_upd t (\<lambda>x. x\<lparr>t_flags := t_flags x AND NOT (shl1 FLAG_DETACHED)\<rparr>) k;
       (k, r) \<leftarrow> thread_join cpu t 0 k;
       case r of Returned (err, _) \<Rightarrow> Some (k, err) | Switched \<Rightarrow> None
     } else Some (thr_upd t (\<lambda>x. x\<lparr>t_flags := t_flags x OR shl1 FLAG_DETACHED\<rparr>) k, NO_ERROR)
   }"

definition thread_detach_and_resume :: "nat \<Rightarrow> bool \<Rightarrow> thread_id \<Rightarrow> kstate \<Rightarrow> (kstate \<times> status_t) option" where
  "thread_detach_and_resume cpu ints_disabled t k = do {
     (k, err) \<leftarrow> thread_detach cpu t k;
     if err < 0 then Some (k, err) else thread_resume cpu ints_disabled t k
   }"

text \<open>What a dying thread does about itself: a detached thread takes itself apart, another wakes who waits for it.\<close>

definition thread_exit_teardown :: "nat \<Rightarrow> thread_id \<Rightarrow> kstate \<Rightarrow> kstate option" where
  "thread_exit_teardown cpu t k =
     (if bit (t_flags (thr k t)) FLAG_DETACHED then
        (let k = k\<lparr>thread_list := remove1 t (thread_list k)\<rparr>;
             k = thr_upd t (\<lambda>x. x\<lparr>t_magic := 0\<rparr>) k;
             k = (if bit (t_flags (thr k t)) FLAG_FREE_STACK \<and> t_stack (thr k t) \<noteq> 0
                  then thr_upd t (\<lambda>x. x\<lparr>t_flags := t_flags x AND NOT (shl1 FLAG_DEBUG_STACK_BOUNDS_CHECK)\<rparr>)
                         (k\<lparr>freed := freed k @ [Freed_stack (t_stack (thr k t))]\<rparr>)
                  else k)
         in Some (if bit (t_flags (thr k t)) FLAG_FREE_STRUCT
                  then k\<lparr>freed := freed k @ [Freed_thread t]\<rparr> else k))
      else map_option fst (wait_queue_wake_all cpu (retcode_wait_queue t) False 0 k))"

definition thread_exit :: "nat \<Rightarrow> int \<Rightarrow> kstate \<Rightarrow> kstate option" where
  "thread_exit cpu rc k = do {
     let t = current k cpu;
     DEBUG_ASSERT (t_magic (thr k t) = THREAD_MAGIC);
     DEBUG_ASSERT (t_state (thr k t) = THREAD_RUNNING);
     DEBUG_ASSERT (\<not> thread_is_idle (thr k t));
     let k = thr_upd t (\<lambda>x. x\<lparr>t_state := THREAD_DEATH, retcode := rc\<rparr>) k;
     k \<leftarrow> thread_exit_teardown cpu t k;
     k \<leftarrow> thread_resched cpu k;
     DEBUG_ASSERT (current k cpu \<noteq> t);
     Some k
   }"

section \<open>Bringing up the CPUs\<close>

definition thread_init_early :: "kstate \<Rightarrow> kstate" where
  "thread_init_early k =
     (let k = k\<lparr>run_queue := (\<lambda>p. if p < 32 then [] else run_queue k p), thread_list := []\<rparr>;
          t = idle_thread 0;
          k = init_thread_struct t ''bootstrap'' k;
          k = thr_upd t (\<lambda>x. x\<lparr>priority := HIGHEST_PRIORITY, t_state := THREAD_RUNNING,
                 t_flags := shl1 FLAG_DETACHED, curr_cpu := 0, pinned_cpu := 0\<rparr>) k;
          k = wait_queue_init (retcode_wait_queue t) k
      in k\<lparr>thread_list := t # thread_list k, current := (current k)(0 := t)\<rparr>)"

definition thread_init :: "nat \<Rightarrow> kstate \<Rightarrow> kstate" where
  "thread_init SMP_MAX_CPUS k = fold (\<lambda>i. timer_initialize (preempt_timer i)) [0..<SMP_MAX_CPUS] k"

definition thread_set_name :: "nat \<Rightarrow> string \<Rightarrow> kstate \<Rightarrow> kstate" where
  "thread_set_name cpu name k = thr_upd (current k cpu) (\<lambda>x. x\<lparr>t_name := name_copy name\<rparr>) k"

text \<open>\<^verbatim>\<open>snprintf(name, sizeof(name), "idle %u", cpu)\<close>.\<close>

fun digits :: "nat \<Rightarrow> string" where
  "digits n = (if n < 10 then [char_of (48 + n)] else digits (n div 10) @ [char_of (48 + n mod 10)])"

declare digits.simps [simp del]

definition idle_name :: "nat \<Rightarrow> string" where
  "idle_name cpu = take 15 (''idle '' @ digits cpu)"

definition thread_become_idle :: "nat \<Rightarrow> kstate \<Rightarrow> kstate option" where
  "thread_become_idle cpu k = do {
     let t = current k cpu;
     let k = thread_set_name cpu (idle_name cpu) k;
     let k = thr_upd t (\<lambda>x. x\<lparr>priority := IDLE_PRIORITY, t_flags := t_flags x OR shl1 FLAG_IDLE,
                             pinned_cpu := int cpu\<rparr>) k;
     let k = mp_set_curr_cpu_active cpu True k;
     let k = mp_set_cpu_idle cpu k;
     thread_yield cpu k
   }"

definition thread_secondary_cpu_init_early :: "nat \<Rightarrow> kstate \<Rightarrow> kstate option" where
  "thread_secondary_cpu_init_early cpu k = do {
     let t = idle_thread cpu;
     DEBUG_ASSERT (t_state (thr k t) = THREAD_RUNNING \<and> bit (t_flags (thr k t)) FLAG_IDLE);
     Some (k\<lparr>current := (current k)(cpu := t)\<rparr>)
   }"

definition thread_create_secondary_cpu_idle_thread :: "nat \<Rightarrow> kstate \<Rightarrow> kstate" where
  "thread_create_secondary_cpu_idle_thread cpu k =
     (let t = idle_thread cpu;
          k = init_thread_struct t (idle_name cpu) k;
          k = thr_upd t (\<lambda>x. x\<lparr>priority := HIGHEST_PRIORITY, t_state := THREAD_RUNNING,
                 t_flags := shl1 FLAG_DETACHED OR shl1 FLAG_IDLE, curr_cpu := int cpu, pinned_cpu := int cpu\<rparr>) k;
          k = wait_queue_init (retcode_wait_queue t) k
      in k\<lparr>thread_list := t # thread_list k\<rparr>)"

definition thread_secondary_cpu_entry :: "nat \<Rightarrow> kstate \<Rightarrow> kstate option" where
  "thread_secondary_cpu_entry cpu k = do {
     let t = current k cpu;
     DEBUG_ASSERT (t_state (thr k t) = THREAD_RUNNING \<and> bit (t_flags (thr k t)) FLAG_IDLE);
     let k = thr_upd t (\<lambda>x. x\<lparr>priority := IDLE_PRIORITY\<rparr>) k;
     let k = mp_set_curr_cpu_active cpu True k;
     let k = mp_set_cpu_idle cpu k;
     thread_yield cpu k
   }"

section \<open>Thread-local storage and reports\<close>

definition tls_get :: "nat \<Rightarrow> nat \<Rightarrow> kstate \<Rightarrow> addr option" where
  "tls_get cpu entry k =
     (let l = tls (thr k (current k cpu)) in if entry < length l then Some (l ! entry) else None)"

definition tls_set :: "nat \<Rightarrow> nat \<Rightarrow> addr \<Rightarrow> kstate \<Rightarrow> (kstate \<times> addr) option" where
  "tls_set cpu entry val k = do {
     oldval \<leftarrow> tls_get cpu entry k;
     Some (thr_upd (current k cpu) (\<lambda>x. x\<lparr>tls := (tls x)[entry := val]\<rparr>) k, oldval)
   }"

definition thread_state_to_str :: "thread_state \<Rightarrow> string" where
  "thread_state_to_str st =
     (case st of
        THREAD_SUSPENDED \<Rightarrow> ''susp''
      | THREAD_READY \<Rightarrow> ''rdy''
      | THREAD_RUNNING \<Rightarrow> ''run''
      | THREAD_BLOCKED \<Rightarrow> ''blok''
      | THREAD_SLEEPING \<Rightarrow> ''slep''
      | THREAD_DEATH \<Rightarrow> ''deth'')"

text \<open>The stack's bytes, lowest first: the leading run of untouched pattern bytes is unused.\<close>

definition STACK_DEBUG_BYTE :: u8 where "STACK_DEBUG_BYTE = 0x99"

definition thread_stack_used :: "u8 list \<Rightarrow> nat" where
  "thread_stack_used stack_bytes =
     length stack_bytes - length (takeWhile (\<lambda>b. b = STACK_DEBUG_BYTE) stack_bytes)"

end
