(* ===== verification/Sched.thy ===== *)
theory Sched
  imports Thread
begin

text \<open>
  The scheduler's invariant and the proofs that the operations of \<^verbatim>\<open>kernel/thread.c\<close>
  keep it: the run queues, their bitmap and the wait queues agree with the threads' own
  state; each CPU runs one thread and no thread runs on two; timers and threads agree.
  \<open>sched C D H\<close> is the form that holds inside a critical section, where the threads in
  \<open>H\<close> are in hand (on no queue yet) and the CPUs in \<open>D\<close> have given up their thread.
\<close>

section \<open>The invariant\<close>

definition live :: "thread_t \<Rightarrow> bool" where
  "live x \<longleftrightarrow> t_magic x = THREAD_MAGIC"

definition padding_ok :: "thread_t \<Rightarrow> bool" where
  "padding_ok x \<longleftrightarrow> (bit (t_flags x) FLAG_DEBUG_STACK_BOUNDS_CHECK \<longrightarrow>
     list_all (\<lambda>w. w = STACK_DEBUG_WORD) (stack_padding x))"

definition thread_wf :: "thread_t \<Rightarrow> bool" where
  "thread_wf x \<longleftrightarrow>
     (t_queued x \<longrightarrow> live x \<and> \<not> thread_is_idle x \<and>
        (t_state x = THREAD_READY \<or> t_state x = THREAD_BLOCKED \<and> blocking_wait_queue x \<noteq> None)) \<and>
     (live x \<longrightarrow> 0 \<le> priority x \<and> priority x < NUM_PRIORITIES \<and> padding_ok x) \<and>
     (live x \<and> thread_is_idle x \<longrightarrow> t_state x = THREAD_READY \<or> t_state x = THREAD_RUNNING)"

definition settled :: "thread_t \<Rightarrow> bool" where
  "settled x \<longleftrightarrow> (live x \<longrightarrow>
     (t_state x = THREAD_READY \<and> \<not> thread_is_idle x \<longrightarrow> t_queued x) \<and>
     (t_state x = THREAD_BLOCKED \<longrightarrow> t_queued x) \<and>
     (t_state x \<noteq> THREAD_BLOCKED \<longrightarrow> blocking_wait_queue x = None))"

definition queues_ok :: "kstate \<Rightarrow> bool" where
  "queues_ok k \<longleftrightarrow>
     (\<forall>p. distinct (run_queue k p)) \<and>
     (\<forall>p t. t \<in> set (run_queue k p) \<longleftrightarrow>
        t_queued (thr k t) \<and> t_state (thr k t) = THREAD_READY \<and> priority (thr k t) = int p) \<and>
     (\<forall>p. bit (run_queue_bitmap k) p \<longleftrightarrow> run_queue k p \<noteq> []) \<and>
     (\<forall>w. distinct (wq_list (wq k w)) \<and> wq_count (wq k w) = int (length (wq_list (wq k w)))) \<and>
     (\<forall>w. wq_list (wq k w) \<noteq> [] \<longrightarrow> wq_magic (wq k w) = WAIT_QUEUE_MAGIC) \<and>
     (\<forall>w t. t \<in> set (wq_list (wq k w)) \<longleftrightarrow>
        t_queued (thr k t) \<and> t_state (thr k t) = THREAD_BLOCKED \<and> blocking_wait_queue (thr k t) = Some w)"

definition cpus_ok :: "nat set \<Rightarrow> nat set \<Rightarrow> kstate \<Rightarrow> bool" where
  "cpus_ok C D k \<longleftrightarrow>
     inj_on (current k) C \<and>
     (\<forall>c\<in>C. c \<notin> D \<longrightarrow> t_state (thr k (current k c)) = THREAD_RUNNING \<and> live (thr k (current k c))) \<and>
     (\<forall>c\<in>C. padding_ok (thr k (current k c))) \<and>
     (\<forall>t. live (thr k t) \<and> t_state (thr k t) = THREAD_RUNNING \<longrightarrow>
        (\<exists>c\<in>C. current k c = t) \<or> (\<exists>c. c \<notin> C \<and> t = idle_thread c)) \<and>
     (\<forall>c\<in>C. live (thr k (idle_thread c)) \<and> thread_is_idle (thr k (idle_thread c)) \<and>
        (t_state (thr k (idle_thread c)) = THREAD_READY \<or> t_state (thr k (idle_thread c)) = THREAD_RUNNING)) \<and>
     (\<forall>t. live (thr k t) \<longrightarrow> thread_is_idle (thr k t) = (\<exists>c. t = idle_thread c)) \<and>
     (\<forall>c\<in>C. \<forall>d. current k c = idle_thread d \<longrightarrow> d = c)"

definition joinable :: "kstate \<Rightarrow> bool" where
  "joinable k \<longleftrightarrow> (\<forall>t. live (thr k t) \<longrightarrow> wq_magic (wq k (retcode_wait_queue t)) = WAIT_QUEUE_MAGIC)"

definition sched :: "nat set \<Rightarrow> nat set \<Rightarrow> thread_id set \<Rightarrow> kstate \<Rightarrow> bool" where
  "sched C D H k \<longleftrightarrow> queues_ok k \<and> (\<forall>t. thread_wf (thr k t)) \<and>
     (\<forall>t. t \<notin> H \<longrightarrow> settled (thr k t)) \<and> cpus_ok C D k \<and> joinable k"

section \<open>Steps inside a critical section\<close>

lemma thr_upd_simps [simp]:
  "thr (thr_upd t f k) u = (if u = t then f (thr k t) else thr k u)"
  "run_queue (thr_upd t f k) = run_queue k" "run_queue_bitmap (thr_upd t f k) = run_queue_bitmap k"
  "wq (thr_upd t f k) = wq k" "current (thr_upd t f k) = current k"
  "timer_queue (thr_upd t f k) = timer_queue k" "tmr (thr_upd t f k) = tmr k"
  "current_time (thr_upd t f k) = current_time k" "thread_list (thr_upd t f k) = thread_list k"
  by (simp_all add: thr_upd_def)

lemma wq_upd_simps [simp]:
  "wq (wq_upd w f k) v = (if v = w then f (wq k w) else wq k v)"
  "run_queue (wq_upd w f k) = run_queue k" "run_queue_bitmap (wq_upd w f k) = run_queue_bitmap k"
  "thr (wq_upd w f k) = thr k" "current (wq_upd w f k) = current k"
  "timer_queue (wq_upd w f k) = timer_queue k" "tmr (wq_upd w f k) = tmr k"
  "current_time (wq_upd w f k) = current_time k"
  by (simp_all add: wq_upd_def)

lemma flags_simps [simp]:
  "thread_is_idle (x\<lparr>t_state := a\<rparr>) = thread_is_idle x" "thread_is_idle (x\<lparr>t_queued := b\<rparr>) = thread_is_idle x"
  "thread_is_idle (x\<lparr>remaining_quantum := c\<rparr>) = thread_is_idle x" "thread_is_idle (x\<lparr>priority := c\<rparr>) = thread_is_idle x"
  "thread_is_idle (x\<lparr>curr_cpu := c\<rparr>) = thread_is_idle x" "thread_is_idle (x\<lparr>retcode := c\<rparr>) = thread_is_idle x"
  "thread_is_idle (x\<lparr>blocking_wait_queue := d\<rparr>) = thread_is_idle x"
  "thread_is_idle (x\<lparr>wait_queue_block_ret := c\<rparr>) = thread_is_idle x"
  by (simp_all add: thread_is_idle_def)

lemma live_simps [simp]:
  "live (x\<lparr>t_state := a\<rparr>) = live x" "live (x\<lparr>t_queued := b\<rparr>) = live x"
  "live (x\<lparr>remaining_quantum := c\<rparr>) = live x" "live (x\<lparr>priority := c\<rparr>) = live x"
  "live (x\<lparr>curr_cpu := c\<rparr>) = live x" "live (x\<lparr>retcode := c\<rparr>) = live x" "live (x\<lparr>t_flags := fl\<rparr>) = live x"
  "live (x\<lparr>blocking_wait_queue := d\<rparr>) = live x" "live (x\<lparr>wait_queue_block_ret := c\<rparr>) = live x"
  by (simp_all add: live_def)

text \<open>
  \<open>sched\<close> reads only the queues, the current threads, and of each thread the fields that
  \<open>same_sched\<close> compares.
\<close>

definition same_sched :: "thread_t \<Rightarrow> thread_t \<Rightarrow> bool" where
  "same_sched x y \<longleftrightarrow> t_magic x = t_magic y \<and> t_queued x = t_queued y \<and> priority x = priority y \<and>
     t_state x = t_state y \<and> t_flags x = t_flags y \<and>
     blocking_wait_queue x = blocking_wait_queue y \<and> stack_padding x = stack_padding y"

lemma same_sched_preds:
  assumes "same_sched x y"
  shows "live x = live y" "thread_wf x = thread_wf y" "settled x = settled y" "padding_ok x = padding_ok y"
    "thread_is_idle x = thread_is_idle y" "t_state x = t_state y" "t_queued x = t_queued y"
    "priority x = priority y" "blocking_wait_queue x = blocking_wait_queue y"
  using assms
  by (simp_all add: same_sched_def live_def thread_wf_def settled_def padding_ok_def thread_is_idle_def)

lemma same_sched_refl [simp]: "same_sched x x"
  by (simp add: same_sched_def)

lemma sched_cong:
  assumes "\<And>t. same_sched (thr k' t) (thr k t)" "run_queue k' = run_queue k"
    "run_queue_bitmap k' = run_queue_bitmap k" "wq k' = wq k" "current k' = current k"
  shows "sched C D H k' = sched C D H k"
  unfolding sched_def queues_ok_def cpus_ok_def joinable_def assms(2-) same_sched_preds [OF assms(1)] by (rule refl)

text \<open>A thread that is on no queue changes, and is on no queue afterwards.\<close>

lemma queues_ok_upd:
  assumes "queues_ok k" "\<not> t_queued (thr k t)" "\<not> t_queued (f (thr k t))"
  shows "queues_ok (thr_upd t f k)"
  using assms unfolding queues_ok_def by simp

lemma sched_upd:
  assumes "sched C D H k" and q: "\<not> t_queued (thr k t)" "\<not> t_queued (f (thr k t))"
    and wf: "thread_wf (f (thr k t))"
    and set: "t \<in> H' \<or> settled (f (thr k t))" and H: "H - {t} \<subseteq> H'" and D: "D \<subseteq> D'"
    and idle: "thread_is_idle (f (thr k t)) = thread_is_idle (thr k t)"
    and magic: "live (f (thr k t)) \<longrightarrow> live (thr k t)"
    and pad: "padding_ok (f (thr k t))"
    and cur: "\<And>c. c \<in> C \<Longrightarrow> c \<notin> D' \<Longrightarrow> current k c = t \<Longrightarrow>
        t_state (f (thr k t)) = THREAD_RUNNING \<and> live (f (thr k t))"
    and run: "live (f (thr k t)) \<Longrightarrow> t_state (f (thr k t)) = THREAD_RUNNING \<Longrightarrow>
        (\<exists>c\<in>C. current k c = t) \<or> (\<exists>c. c \<notin> C \<and> t = idle_thread c)"
    and it: "\<And>c. c \<in> C \<Longrightarrow> t = idle_thread c \<Longrightarrow> live (f (thr k t)) \<and>
        (t_state (f (thr k t)) = THREAD_READY \<or> t_state (f (thr k t)) = THREAD_RUNNING)"
  shows "sched C D' H' (thr_upd t f k)"
proof -
  have "queues_ok (thr_upd t f k)" using assms(1) q by (simp add: sched_def queues_ok_upd)
  moreover have "\<forall>u. thread_wf (thr (thr_upd t f k) u)" using assms(1) wf by (simp add: sched_def)
  moreover have "\<forall>u. u \<notin> H' \<longrightarrow> settled (thr (thr_upd t f k) u)"
    using assms(1) set H by (auto simp: sched_def)
  moreover have "cpus_ok C D' (thr_upd t f k)"
    using assms(1) D idle magic pad cur run it unfolding sched_def cpus_ok_def by auto
  moreover have "joinable (thr_upd t f k)" using assms(1) magic by (auto simp: sched_def joinable_def)
  ultimately show ?thesis by (simp add: sched_def)
qed

text \<open>A thread in hand goes onto the run queue of its priority, at either end.\<close>

lemma bit_priority: "0 \<le> (p::int) \<Longrightarrow> p < 32 \<Longrightarrow> nat p < LENGTH(32)"
  by simp

lemma queues_ok_run_queue:
  assumes q: "queues_ok k" and t: "\<not> t_queued (thr k t)" "t_state (thr k t) = THREAD_READY"
    and p: "0 \<le> priority (thr k t)" "priority (thr k t) < 32" "p = nat (priority (thr k t))"
    and xs: "distinct xs" "set xs = insert t (set (run_queue k p))"
  shows "queues_ok (thr_upd t (\<lambda>x. x\<lparr>t_queued := True\<rparr>)
     (k\<lparr>run_queue := (run_queue k)(p := xs), run_queue_bitmap := run_queue_bitmap k OR shl1 p\<rparr>))"
proof -
  have p32: "p < 32" using p by simp
  have ip: "int p = priority (thr k t)" using p by simp
  have ne: "xs \<noteq> []" using xs by auto
  show ?thesis
    using q t xs ne p32 unfolding queues_ok_def
    by (auto simp: bit_or_shl1 ip [symmetric] fun_upd_def)
qed

definition rq_head :: "thread_id \<Rightarrow> kstate \<Rightarrow> kstate" where
  "rq_head t k = (let p = nat (priority (thr k t)) in
     thr_upd t (\<lambda>x. x\<lparr>t_queued := True\<rparr>)
       (k\<lparr>run_queue := (run_queue k)(p := t # run_queue k p),
          run_queue_bitmap := run_queue_bitmap k OR shl1 p\<rparr>))"

definition rq_tail :: "thread_id \<Rightarrow> kstate \<Rightarrow> kstate" where
  "rq_tail t k = (let p = nat (priority (thr k t)) in
     thr_upd t (\<lambda>x. x\<lparr>t_queued := True\<rparr>)
       (k\<lparr>run_queue := (run_queue k)(p := run_queue k p @ [t]),
          run_queue_bitmap := run_queue_bitmap k OR shl1 p\<rparr>))"

text \<open>What a thread must be to go onto a run queue.\<close>

definition in_hand :: "thread_t \<Rightarrow> bool" where
  "in_hand x \<longleftrightarrow> live x \<and> t_state x = THREAD_READY \<and> \<not> t_queued x \<and> \<not> thread_is_idle x \<and>
     blocking_wait_queue x = None"

lemma sched_queues: "sched C D H k \<Longrightarrow> queues_ok k"
  by (simp add: sched_def)

lemma sched_wf: "sched C D H k \<Longrightarrow> thread_wf (thr k t)"
  by (simp add: sched_def)

lemma sched_settled: "sched C D H k \<Longrightarrow> t \<notin> H \<Longrightarrow> settled (thr k t)"
  by (simp add: sched_def)

lemma sched_priority: "sched C D H k \<Longrightarrow> live (thr k t) \<Longrightarrow> 0 \<le> priority (thr k t) \<and> priority (thr k t) < 32"
  by (drule sched_wf [of _ _ _ _ t]) (simp add: thread_wf_def)

lemma sched_rq:
  assumes s: "sched C D H k" and t: "in_hand (thr k t)" and p: "p = nat (priority (thr k t))"
    and xs: "distinct xs" "set xs = insert t (set (run_queue k p))" and H: "H' = H - {t}"
  shows "sched C D H' (thr_upd t (\<lambda>x. x\<lparr>t_queued := True\<rparr>)
     (k\<lparr>run_queue := (run_queue k)(p := xs), run_queue_bitmap := run_queue_bitmap k OR shl1 p\<rparr>))"
    (is "sched C D H' ?k'")
proof -
  have pr: "0 \<le> priority (thr k t)" "priority (thr k t) < 32"
    using sched_priority [OF s, of t] t by (simp_all add: in_hand_def)
  have "queues_ok ?k'"
    using s t pr p xs by (intro queues_ok_run_queue) (simp_all add: sched_def in_hand_def)
  moreover have "\<forall>u. thread_wf (thr ?k' u)"
    using s t pr by (auto simp: sched_def thread_wf_def in_hand_def live_def padding_ok_def thread_is_idle_def)
  moreover have "\<forall>u. u \<notin> H' \<longrightarrow> settled (thr ?k' u)"
    using s t H by (auto simp: sched_def settled_def in_hand_def)
  moreover have "cpus_ok C D ?k'"
  proof -
    have "cpus_ok C D k" using s by (simp add: sched_def)
    then show ?thesis unfolding cpus_ok_def
      by (auto simp: live_def padding_ok_def thread_is_idle_def)
  qed
  moreover have "joinable ?k'" using s by (auto simp: sched_def joinable_def)
  ultimately show ?thesis by (simp add: sched_def)
qed

lemma not_in_run_queue: "queues_ok k \<Longrightarrow> \<not> t_queued (thr k t) \<Longrightarrow> t \<notin> set (run_queue k p)"
  by (simp add: queues_ok_def)

lemma sched_rq_head:
  assumes "sched C D H k" "in_hand (thr k t)"
  shows "sched C D (H - {t}) (rq_head t k)" and "insert_in_run_queue_head t k = Some (rq_head t k)"
proof -
  have q: "queues_ok k" using assms(1) by (rule sched_queues)
  then have "distinct (run_queue k p)" for p by (simp add: queues_ok_def)
  moreover have "t \<notin> set (run_queue k p)" for p using q assms(2) by (simp add: not_in_run_queue in_hand_def)
  ultimately show "sched C D (H - {t}) (rq_head t k)"
    unfolding rq_head_def Let_def by (intro sched_rq [OF assms]) auto
  show "insert_in_run_queue_head t k = Some (rq_head t k)"
    using assms(2) sched_priority [OF assms(1), of t]
    by (simp add: insert_in_run_queue_head_def rq_head_def in_hand_def live_def Let_def)
qed

lemma sched_rq_tail:
  assumes "sched C D H k" "in_hand (thr k t)"
  shows "sched C D (H - {t}) (rq_tail t k)" and "insert_in_run_queue_tail t k = Some (rq_tail t k)"
proof -
  have q: "queues_ok k" using assms(1) by (rule sched_queues)
  then have "distinct (run_queue k p)" for p by (simp add: queues_ok_def)
  moreover have "t \<notin> set (run_queue k p)" for p using q assms(2) by (simp add: not_in_run_queue in_hand_def)
  ultimately show "sched C D (H - {t}) (rq_tail t k)"
    unfolding rq_tail_def Let_def by (intro sched_rq [OF assms]) auto
  show "insert_in_run_queue_tail t k = Some (rq_tail t k)"
    using assms(2) sched_priority [OF assms(1), of t]
    by (simp add: insert_in_run_queue_tail_def rq_tail_def in_hand_def live_def Let_def)
qed

text \<open>Leaving and entering a wait queue.\<close>

lemma in_wait_queue:
  "queues_ok k \<Longrightarrow> t \<in> set (wq_list (wq k w)) \<longleftrightarrow>
     t_queued (thr k t) \<and> t_state (thr k t) = THREAD_BLOCKED \<and> blocking_wait_queue (thr k t) = Some w"
  by (simp add: queues_ok_def)

lemma wq_distinct: "queues_ok k \<Longrightarrow> distinct (wq_list (wq k w))"
  by (simp add: queues_ok_def)

lemma sched_wq_remove:
  assumes s: "sched C D H k" and t: "t \<in> set (wq_list (wq k w))"
    and xs: "distinct xs" "set xs = set (wq_list (wq k w)) - {t}"
    and k': "k' = thr_upd t (\<lambda>x. x\<lparr>t_queued := False, t_state := THREAD_READY,
         wait_queue_block_ret := e, blocking_wait_queue := None\<rparr>)
       (wq_upd w (\<lambda>x. x\<lparr>wq_list := xs, wq_count := wq_count x - 1\<rparr>) k)"
  shows "sched C D (insert t H) k'" and "in_hand (thr k' t)"
proof -
  have q: "queues_ok k" using s by (rule sched_queues)
  note b = in_wait_queue [OF q, of t w, THEN iffD1, OF t]
  have l: "live (thr k t)" "\<not> thread_is_idle (thr k t)"
    using sched_wf [OF s, of t] b by (simp_all add: thread_wf_def)
  show ih: "in_hand (thr k' t)"
    using l by (simp add: k' in_hand_def live_def thread_is_idle_def)
  have "distinct (wq_list (wq k w))" using q by (simp add: queues_ok_def)
  then have "length (wq_list (wq k w)) = card (set (wq_list (wq k w)))" by (simp add: distinct_card)
  moreover have "length xs = card (set xs)" using xs(1) by (simp add: distinct_card)
  moreover have "0 < card (set (wq_list (wq k w)))" using t by (auto simp: card_gt_0_iff)
  ultimately have "length (wq_list (wq k w)) = Suc (length xs)"
    using t xs(2) by (simp add: card_Diff_singleton)
  moreover have "wq_count (wq k w) = int (length (wq_list (wq k w)))" using q by (simp add: queues_ok_def)
  ultimately have cnt: "wq_count (wq k w) - 1 = int (length xs)" by simp
  have nr: "t \<notin> set (run_queue k p)" for p using q b by (simp add: queues_ok_def)
  have m: "wq_magic (wq k w) = WAIT_QUEUE_MAGIC"
    using q t unfolding queues_ok_def by (metis empty_iff empty_set)
  have "queues_ok k'"
    using q b xs cnt nr m unfolding k' queues_ok_def by auto
  moreover have "\<forall>u. thread_wf (thr k' u)"
    using s l by (auto simp: k' sched_def thread_wf_def live_def padding_ok_def)
  moreover have "\<forall>u. u \<notin> insert t H \<longrightarrow> settled (thr k' u)"
    using s by (auto simp: k' sched_def)
  moreover have "cpus_ok C D k'"
  proof -
    have c: "cpus_ok C D k" using s by (simp add: sched_def)
    have "t \<noteq> idle_thread c" if "c \<in> C" for c using c l(2) that by (auto simp: cpus_ok_def)
    moreover have "t \<noteq> current k c" if "c \<in> C" "c \<notin> D" for c using c b that by (auto simp: cpus_ok_def)
    ultimately show ?thesis using c unfolding k' cpus_ok_def
      by (auto simp: live_def padding_ok_def thread_is_idle_def)
  qed
  moreover have "joinable k'" using s by (auto simp: k' sched_def joinable_def)
  ultimately show "sched C D (insert t H) k'" by (simp add: sched_def)
qed

lemma sched_running:
  "sched C D H k \<Longrightarrow> cpu \<in> C \<Longrightarrow> cpu \<notin> D \<Longrightarrow>
     t_state (thr k (current k cpu)) = THREAD_RUNNING \<and> live (thr k (current k cpu)) \<and>
     \<not> t_queued (thr k (current k cpu))"
  using sched_wf [of C D H k "current k cpu"] by (auto simp: sched_def cpus_ok_def thread_wf_def)

lemma sched_wq_add:
  assumes s: "sched C {} {} k" and cpu: "cpu \<in> C" and t: "t = current k cpu"
    and ni: "\<not> thread_is_idle (thr k t)" and m: "wq_magic (wq k w) = WAIT_QUEUE_MAGIC"
    and k': "k' = thr_upd t (\<lambda>x. x\<lparr>t_queued := True, t_state := THREAD_BLOCKED,
         blocking_wait_queue := Some w, wait_queue_block_ret := NO_ERROR\<rparr>)
       (wq_upd w (\<lambda>x. x\<lparr>wq_list := wq_list x @ [t], wq_count := wq_count x + 1\<rparr>) k)"
  shows "sched C {cpu} {} k'"
proof -
  have q: "queues_ok k" using s by (rule sched_queues)
  have r: "t_state (thr k t) = THREAD_RUNNING" "live (thr k t)" "\<not> t_queued (thr k t)"
    using sched_running [OF s cpu] t by simp_all
  have nr: "t \<notin> set (run_queue k p)" "t \<notin> set (wq_list (wq k v))" for p v
    using q r by (simp_all add: queues_ok_def)
  have "queues_ok k'" using q r nr m unfolding k' queues_ok_def by (auto split: if_splits)
  moreover have "\<forall>u. thread_wf (thr k' u)"
    using s r ni by (auto simp: k' sched_def thread_wf_def live_def padding_ok_def thread_is_idle_def)
  moreover have "\<forall>u. settled (thr k' u)" using s by (auto simp: k' sched_def settled_def)
  moreover have "cpus_ok C {cpu} k'"
  proof -
    have c: "cpus_ok C {} k" using s by (simp add: sched_def)
    have "t \<noteq> idle_thread c" if "c \<in> C" for c using c ni that by (auto simp: cpus_ok_def)
    moreover have "t \<noteq> current k c" if "c \<in> C" "c \<noteq> cpu" for c
      using c cpu t that by (auto simp: cpus_ok_def inj_on_def)
    ultimately show ?thesis using c unfolding k' cpus_ok_def
      by (auto simp: live_def padding_ok_def thread_is_idle_def)
  qed
  moreover have "joinable k'" using s by (auto simp: k' sched_def joinable_def)
  ultimately show ?thesis by (simp add: sched_def)
qed

section \<open>Choosing the next thread\<close>

text \<open>
  The thread to run next on a CPU: the first thread that may run there on the highest
  run queue that has one, or no such thread.
\<close>

definition candidates :: "nat \<Rightarrow> kstate \<Rightarrow> nat \<Rightarrow> thread_id list" where
  "candidates cpu k p = filter (\<lambda>t. may_run_on cpu (thr k t)) (run_queue k p)"

definition is_top :: "nat \<Rightarrow> kstate \<Rightarrow> nat \<Rightarrow> thread_id \<Rightarrow> bool" where
  "is_top cpu k p t \<longleftrightarrow> (\<exists>ts. candidates cpu k p = t # ts) \<and> (\<forall>p'>p. candidates cpu k p' = [])"

lemma find_peek_filter: "find P xs = peek_head (filter P xs)"
  by (induction xs) (simp_all add: peek_head_def)

lemma find_candidates: "find (\<lambda>t. may_run_on cpu (thr k t)) (run_queue k p) = peek_head (candidates cpu k p)"
  by (simp add: candidates_def find_peek_filter)

lemma top_thread_loop_spec:
  "case top_thread_loop cpu bitmap k of
     None \<Rightarrow> \<forall>p. bit bitmap p \<longrightarrow> candidates cpu k p = []
   | Some (q, t) \<Rightarrow> bit bitmap q \<and> (\<exists>ts. candidates cpu k q = t # ts) \<and>
       (\<forall>p>q. bit bitmap p \<longrightarrow> candidates cpu k p = [])"
proof (induction cpu bitmap k rule: top_thread_loop.induct)
  case (1 cpu bitmap k)
  show ?case
  proof (cases "bitmap = 0")
    case True
    then show ?thesis by (simp add: top_thread_loop.simps)
  next
    case False
    let ?q = "log2_uint bitmap"
    have q: "4 * 8 - 1 - builtin_clz bitmap = ?q" using False by (simp add: log2_uint_def)
    have step: "top_thread_loop cpu bitmap k =
        (case peek_head (candidates cpu k ?q) of Some t \<Rightarrow> Some (?q, t)
         | None \<Rightarrow> top_thread_loop cpu (bitmap AND NOT (shl1 ?q)) k)"
      using False q by (subst top_thread_loop.simps) (simp add: find_candidates Let_def)
    show ?thesis
    proof (cases "candidates cpu k ?q")
      case Nil
      then have ih: "case top_thread_loop cpu (bitmap AND NOT (shl1 ?q)) k of
          None \<Rightarrow> \<forall>p. bit (bitmap AND NOT (shl1 ?q)) p \<longrightarrow> candidates cpu k p = []
        | Some (q, t) \<Rightarrow> bit (bitmap AND NOT (shl1 ?q)) q \<and> (\<exists>ts. candidates cpu k q = t # ts) \<and>
            (\<forall>p>q. bit (bitmap AND NOT (shl1 ?q)) p \<longrightarrow> candidates cpu k p = [])"
        using 1 [OF False q [symmetric]] by (simp add: find_candidates peek_head_def)
      have "top_thread_loop cpu bitmap k = top_thread_loop cpu (bitmap AND NOT (shl1 ?q)) k"
        using step Nil by (simp add: peek_head_def)
      with ih Nil show ?thesis
        by (auto simp: bit_andnot_shl1 split: option.splits prod.splits)
    next
      case (Cons t ts)
      then have "top_thread_loop cpu bitmap k = Some (?q, t)" using step by (simp add: peek_head_def)
      with Cons False show ?thesis using log2_uint_bit [OF False] log2_uint_above [of bitmap] by auto
    qed
  qed
qed

lemma top_thread_loop_top:
  assumes "queues_ok k"
  shows "top_thread_loop cpu (run_queue_bitmap k) k = Some (p, t) \<Longrightarrow> is_top cpu k p t"
    and "top_thread_loop cpu (run_queue_bitmap k) k = None \<Longrightarrow> candidates cpu k p = []"
proof -
  have e: "candidates cpu k p = []" if "\<not> bit (run_queue_bitmap k) p" for p
    using assms that by (simp add: queues_ok_def candidates_def)
  show "is_top cpu k p t" if "top_thread_loop cpu (run_queue_bitmap k) k = Some (p, t)"
    using top_thread_loop_spec [where cpu = cpu and bitmap = "run_queue_bitmap k" and k = k] that e by (auto simp: is_top_def)
  show "candidates cpu k p = []" if "top_thread_loop cpu (run_queue_bitmap k) k = None"
    using top_thread_loop_spec [where cpu = cpu and bitmap = "run_queue_bitmap k" and k = k] that e by (cases "bit (run_queue_bitmap k) p") auto
qed

lemma is_top_unique:
  assumes "is_top cpu k p t" and "is_top cpu k q u"
  shows "p = q \<and> t = u"
proof -
  have "\<not> p < q" and "\<not> q < p" using assms by (auto simp: is_top_def)
  then have "p = q" by simp
  with assms show ?thesis by (auto simp: is_top_def)
qed

text \<open>The state that \<^verbatim>\<open>get_top_thread\<close> leaves: the chosen thread is off its queue.\<close>

lemma get_top_thread_frame:
  assumes "get_top_thread cpu k = (t, k')"
  shows "\<exists>b. thr k' = (thr k)(t := (thr k t)\<lparr>t_queued := b\<rparr>)"
    and "wq k' = wq k" and "current k' = current k" and "tmr k' = tmr k" and "timer_queue k' = timer_queue k"
    and "current_time k' = current_time k" and "hw_timer k' = hw_timer k"
proof -
  have "\<exists>q bm b. k' = k\<lparr>thr := (thr k)(t := (thr k t)\<lparr>t_queued := b\<rparr>), run_queue := q, run_queue_bitmap := bm\<rparr>"
  proof (cases "top_thread_loop cpu (run_queue_bitmap k) k")
    case None
    with assms have "k' = k" by (simp add: get_top_thread_def)
    then have "k' = k\<lparr>thr := (thr k)(t := (thr k t)\<lparr>t_queued := t_queued (thr k t)\<rparr>),
        run_queue := run_queue k, run_queue_bitmap := run_queue_bitmap k\<rparr>" by simp
    then show ?thesis by blast
  next
    case (Some r)
    obtain p u where r: "r = (p, u)" by (cases r)
    let ?rq = "(run_queue k)(p := remove1 u (run_queue k p))"
    let ?bm = "if remove1 u (run_queue k p) = [] then run_queue_bitmap k AND NOT (shl1 p) else run_queue_bitmap k"
    have "t = u" using assms Some r by (simp add: get_top_thread_def Let_def split: if_splits)
    moreover have "k' = k\<lparr>thr := (thr k)(u := (thr k u)\<lparr>t_queued := False\<rparr>), run_queue := ?rq, run_queue_bitmap := ?bm\<rparr>"
      using assms Some r by (auto simp: get_top_thread_def Let_def thr_upd_def split: if_splits)
    ultimately show ?thesis by blast
  qed
  then obtain q bm b where
    k': "k' = k\<lparr>thr := (thr k)(t := (thr k t)\<lparr>t_queued := b\<rparr>), run_queue := q, run_queue_bitmap := bm\<rparr>"
    by blast
  show "\<exists>b. thr k' = (thr k)(t := (thr k t)\<lparr>t_queued := b\<rparr>)" unfolding k' by (rule exI [of _ b]) simp
  show "wq k' = wq k" "current k' = current k" "tmr k' = tmr k" "timer_queue k' = timer_queue k"
    "current_time k' = current_time k" "hw_timer k' = hw_timer k" unfolding k' by simp_all
qed

lemma get_top_thread_cases:
  assumes s: "sched C D {} k" and g: "get_top_thread cpu k = (t, k')"
  obtains (queued) p where "is_top cpu k p t" "sched C D {t} k'" "in_hand (thr k' t)"
      "may_run_on cpu (thr k t)" "run_queue k' = (run_queue k)(p := remove1 t (run_queue k p))"
  | (idle) "\<forall>p. candidates cpu k p = []" "t = idle_thread cpu" "k' = k"
proof (cases "top_thread_loop cpu (run_queue_bitmap k) k")
  case None
  then have "t = idle_thread cpu" "k' = k" using g by (simp_all add: get_top_thread_def)
  moreover have "\<forall>p. candidates cpu k p = []" using top_thread_loop_top(2) [OF sched_queues [OF s] None] by blast
  ultimately show ?thesis by (intro idle)
next
  case (Some r)
  have q: "queues_ok k" using s by (rule sched_queues)
  obtain p u where r: "r = (p, u)" by (cases r)
  have u: "u = t" using g Some r by (simp add: get_top_thread_def Let_def split: if_splits)
  have top: "is_top cpu k p t" using top_thread_loop_top(1) [OF q] Some r u by simp
  then have "t \<in> set (candidates cpu k p)" by (auto simp: is_top_def)
  then have tp: "t \<in> set (run_queue k p)" and m: "may_run_on cpu (thr k t)"
    by (simp_all add: candidates_def)
  have tq: "t_queued (thr k t)" "t_state (thr k t) = THREAD_READY" "priority (thr k t) = int p"
    using q tp unfolding queues_ok_def by blast+
  have l: "live (thr k t)" "\<not> thread_is_idle (thr k t)" "blocking_wait_queue (thr k t) = None"
    using sched_settled [OF s, of t] tq sched_wf [OF s, of t] by (auto simp: thread_wf_def settled_def)
  let ?rq = "(run_queue k)(p := remove1 t (run_queue k p))"
  let ?bm = "if remove1 t (run_queue k p) = [] then run_queue_bitmap k AND NOT (shl1 p) else run_queue_bitmap k"
  have k': "k' = thr_upd t (\<lambda>x. x\<lparr>t_queued := False\<rparr>) (k\<lparr>run_queue := ?rq, run_queue_bitmap := ?bm\<rparr>)"
    using g Some r u by (auto simp: get_top_thread_def Let_def thr_upd_def split: if_splits)
  have nt: "t \<notin> set (run_queue k p')" if "p' \<noteq> p" for p' using q tq that by (simp add: queues_ok_def)
  have d: "distinct (run_queue k p)" using q by (simp add: queues_ok_def)
  have "queues_ok k'"
  proof -
    have rq: "u \<in> set (?rq p') \<longleftrightarrow> u \<in> set (run_queue k p') \<and> u \<noteq> t" for u p' using d nt by auto
    have dr: "distinct (?rq p')" for p' using q by (simp add: queues_ok_def)
    have bm: "bit ?bm p' \<longleftrightarrow> ?rq p' \<noteq> []" for p' using q tp by (auto simp: queues_ok_def bit_andnot_shl1)
    show ?thesis using q tq unfolding k' queues_ok_def thr_upd_simps kstate.simps
      by (simp del: fun_upd_apply add: rq dr bm)
  qed
  moreover have "\<forall>u. thread_wf (thr k' u)"
    using s l by (auto simp: k' sched_def thread_wf_def live_def padding_ok_def)
  moreover have "\<forall>u. u \<notin> {t} \<longrightarrow> settled (thr k' u)" using s by (auto simp: k' sched_def)
  moreover have "cpus_ok C D k'"
    using s unfolding sched_def k' cpus_ok_def by (auto simp: live_def padding_ok_def thread_is_idle_def)
  moreover have "joinable k'" using s by (auto simp: k' sched_def joinable_def)
  ultimately have "sched C D {t} k'" by (simp add: sched_def)
  moreover have "in_hand (thr k' t)" using tq l by (simp add: k' in_hand_def live_def thread_is_idle_def)
  moreover have "run_queue k' = ?rq" by (simp add: k')
  ultimately show ?thesis using queued [OF top] m by blast
qed

lemma sched_switch:
  assumes s: "sched C {cpu} {t} k" and cpu: "cpu \<in> C" and old: "t_state (thr k (current k cpu)) \<noteq> THREAD_RUNNING"
    and t: "live (thr k t)" "\<not> t_queued (thr k t)" "t_state (thr k t) = THREAD_READY"
      "blocking_wait_queue (thr k t) = None"
    and it: "\<And>c. t = idle_thread c \<Longrightarrow> c = cpu"
    and k': "k' = (thr_upd t (\<lambda>x. x\<lparr>t_state := THREAD_RUNNING\<rparr>) k)\<lparr>current := (current k)(cpu := t)\<rparr>"
  shows "sched C {} {} k'"
proof -
  have "queues_ok (thr_upd t (\<lambda>x. x\<lparr>t_state := THREAD_RUNNING\<rparr>) k)"
    using s t by (intro queues_ok_upd) (simp_all add: sched_def)
  then have "queues_ok k'" unfolding k' queues_ok_def by simp
  moreover have "\<forall>u. thread_wf (thr k' u)"
    using s t by (auto simp: k' sched_def thread_wf_def live_def padding_ok_def)
  moreover have "\<forall>u. settled (thr k' u)" using s t by (auto simp: k' sched_def settled_def)
  moreover have "cpus_ok C {} k'"
  proof -
    have c: "cpus_ok C {cpu} k" using s by (simp add: sched_def)
    have pad: "padding_ok (thr k t)" using sched_wf [OF s, of t] t by (simp add: thread_wf_def)
    have ne: "current k c \<noteq> t" if "c \<in> C" "c \<noteq> cpu" for c
      using c t that by (auto simp: cpus_ok_def)
    have c': "inj_on (current k) C"
      "\<And>d. d \<in> C \<Longrightarrow> d \<noteq> cpu \<Longrightarrow> t_state (thr k (current k d)) = THREAD_RUNNING \<and> live (thr k (current k d))"
      "\<And>d. d \<in> C \<Longrightarrow> padding_ok (thr k (current k d))"
      "\<And>u. live (thr k u) \<Longrightarrow> t_state (thr k u) = THREAD_RUNNING \<Longrightarrow>
         (\<exists>d\<in>C. current k d = u) \<or> (\<exists>d. d \<notin> C \<and> u = idle_thread d)"
      "\<And>d. d \<in> C \<Longrightarrow> live (thr k (idle_thread d)) \<and> thread_is_idle (thr k (idle_thread d)) \<and>
         (t_state (thr k (idle_thread d)) = THREAD_READY \<or> t_state (thr k (idle_thread d)) = THREAD_RUNNING)"
      "\<And>u. live (thr k u) \<Longrightarrow> thread_is_idle (thr k u) = (\<exists>d. u = idle_thread d)"
      "\<And>d e. d \<in> C \<Longrightarrow> current k d = idle_thread e \<Longrightarrow> e = d"
      using c by (simp_all add: cpus_ok_def)
    have f: "live (thr k' u) = live (thr k u)" "padding_ok (thr k' u) = padding_ok (thr k u)"
      "thread_is_idle (thr k' u) = thread_is_idle (thr k u)"
      "t_state (thr k' u) = (if u = t then THREAD_RUNNING else t_state (thr k u))" for u
      by (simp_all add: k' live_def padding_ok_def thread_is_idle_def)
    have cur: "current k' d = (if d = cpu then t else current k d)" for d by (simp add: k')
    have inj: "inj_on (current k') C" using c'(1) ne by (auto simp: cur inj_on_def split: if_splits)
    have run: "(\<exists>d\<in>C. current k' d = u) \<or> (\<exists>d. d \<notin> C \<and> u = idle_thread d)"
      if "live (thr k' u)" "t_state (thr k' u) = THREAD_RUNNING" for u
    proof (cases "u = t")
      case True
      then show ?thesis using cpu by (auto simp: cur)
    next
      case False
      then have r: "live (thr k u)" "t_state (thr k u) = THREAD_RUNNING" using that by (simp_all add: f)
      from c'(4) [OF this] show ?thesis
      proof
        assume "\<exists>d\<in>C. current k d = u"
        then obtain d where d: "d \<in> C" "current k d = u" by blast
        then have "d \<noteq> cpu" using old r by auto
        with d have "current k' d = u" by (simp add: cur)
        with d(1) show ?thesis by blast
      qed simp
    qed
    have st: "t_state (thr k' (current k' d)) = THREAD_RUNNING \<and> live (thr k' (current k' d))" if "d \<in> C" for d
      using c'(2) [OF that] t(1) by (simp add: f cur)
    have pd: "padding_ok (thr k' (current k' d))" if "d \<in> C" for d using c'(3) [OF that] pad by (simp add: f cur)
    have id: "live (thr k' (idle_thread d)) \<and> thread_is_idle (thr k' (idle_thread d)) \<and>
         (t_state (thr k' (idle_thread d)) = THREAD_READY \<or> t_state (thr k' (idle_thread d)) = THREAD_RUNNING)"
      if "d \<in> C" for d using c'(5) [OF that] by (simp add: f)
    have own: "e = d" if "d \<in> C" "current k' d = idle_thread e" for d e
      using that c'(7) [OF that(1)] it by (simp add: cur split: if_splits)
    show ?thesis unfolding cpus_ok_def using inj st pd run id own c'(6) by (simp add: f)
  
  qed
  moreover have "joinable k'" using s by (auto simp: k' sched_def joinable_def)
  ultimately show ?thesis by (simp add: sched_def)
qed

section \<open>Timers and threads\<close>

text \<open>
  How the timers relate to the threads. \<open>W\<close> records the threads that are inside
  \<^verbatim>\<open>wait_queue_block\<close>, past the switch, with the timeout they gave: their stack timer may
  still be queued. A CPU's preemption timer runs only under a thread that can be preempted.
\<close>

definition timers_sorted :: "kstate \<Rightarrow> bool" where
  "timers_sorted k \<longleftrightarrow> timer_inv k \<and> (\<forall>c. sorted_queue (current_time k) c k)"

lemma timers_sorted_cong:
  assumes "tmr k' = tmr k" "timer_queue k' = timer_queue k" "current_time k' = current_time k"
  shows "timers_sorted k' = timers_sorted k"
  using assms by (simp add: timers_sorted_def timer_inv_def sorted_queue_def)

type_synonym waiting = "thread_id \<Rightarrow> nusa_time_t option"

definition timers_ok :: "nat set \<Rightarrow> waiting \<Rightarrow> kstate \<Rightarrow> bool" where
  "timers_ok C W k \<longleftrightarrow>
     timers_sorted k \<and>
     (\<forall>c\<in>C. tm_magic (tmr k (preempt_timer c)) = TIMER_MAGIC) \<and>
     (\<forall>c. tm_linked (tmr k (preempt_timer c)) \<longrightarrow>
        c \<in> C \<and> tm_callback (tmr k (preempt_timer c)) = Some thread_timer_tick_cb \<and>
        \<not> thread_is_real_time_or_idle (thr k (current k c))) \<and>
     (\<forall>u. tm_linked (tmr k (stack_timer u)) \<longrightarrow>
        live (thr k u) \<and> tm_arg (tmr k (stack_timer u)) = Some u \<and> periodic_time (tmr k (stack_timer u)) = 0 \<and>
        (tm_callback (tmr k (stack_timer u)) = Some thread_sleep_handler_cb \<and> t_state (thr k u) = THREAD_SLEEPING \<or>
         tm_callback (tmr k (stack_timer u)) = Some wait_queue_timeout_handler_cb \<and>
         W u \<noteq> None \<and> W u \<noteq> Some INFINITE_TIME)) \<and>
     (\<forall>n. \<not> tm_linked (tmr k (timer_obj n))) \<and>
     (\<forall>u timeout. W u = Some timeout \<longrightarrow> live (thr k u) \<and> \<not> thread_is_idle (thr k u) \<and>
        t_state (thr k u) \<in> {THREAD_BLOCKED, THREAD_READY, THREAD_RUNNING} \<and>
        (timeout \<noteq> INFINITE_TIME \<longrightarrow> tm_magic (tmr k (stack_timer u)) = TIMER_MAGIC))"

text \<open>\<open>timers_ok\<close> survives every change of the threads that keeps what it reads of them.\<close>

lemma timers_ok_threads:
  assumes "timers_ok C W k" and "tmr k' = tmr k" and "timer_queue k' = timer_queue k"
    and "current_time k' = current_time k"
    and "\<And>c. tm_linked (tmr k (preempt_timer c)) \<Longrightarrow> \<not> thread_is_real_time_or_idle (thr k' (current k' c))"
    and "\<And>u. tm_linked (tmr k (stack_timer u)) \<Longrightarrow> live (thr k' u)"
    and "\<And>u. tm_linked (tmr k (stack_timer u)) \<Longrightarrow> t_state (thr k u) = THREAD_SLEEPING \<Longrightarrow>
           t_state (thr k' u) = THREAD_SLEEPING"
    and "\<And>u. W u \<noteq> None \<Longrightarrow> live (thr k' u) \<and> \<not> thread_is_idle (thr k' u) \<and>
           t_state (thr k' u) \<in> {THREAD_BLOCKED, THREAD_READY, THREAD_RUNNING}"
  shows "timers_ok C W k'"
proof -
  have "timers_sorted k'" using assms(1) timers_sorted_cong [OF assms(2-4)] by (simp add: timers_ok_def)
  then show ?thesis using assms unfolding timers_ok_def by auto
qed

definition same_kernel :: "kstate \<Rightarrow> kstate \<Rightarrow> bool" where
  "same_kernel k k' \<longleftrightarrow> thr k' = thr k \<and> run_queue k' = run_queue k \<and> run_queue_bitmap k' = run_queue_bitmap k \<and>
     wq k' = wq k \<and> current k' = current k \<and> current_time k' = current_time k"

lemma timer_set_kernel:
  assumes "timers_sorted k" "tm_magic (tmr k t) = TIMER_MAGIC" "\<not> tm_linked (tmr k t)"
    and d: "uint delay < 2 ^ 30" "uint period < 2 ^ 30"
  obtains k' where "timer_set cpu t delay period cb arg k = Some k'" "same_kernel k k'" "timers_sorted k'"
    "\<And>u. u \<noteq> t \<Longrightarrow> tmr k' u = tmr k u" "tm_magic (tmr k' t) = TIMER_MAGIC" "tm_linked (tmr k' t)"
    "tm_callback (tmr k' t) = Some cb" "tm_arg (tmr k' t) = arg" "periodic_time (tmr k' t) = period"
proof -
  obtain k' where k': "timer_set cpu t delay period cb arg k = Some k'"
    using assms by (simp add: timer_set_def Let_def)
  have *: "same_kernel k k'" "\<And>u. u \<noteq> t \<Longrightarrow> tmr k' u = tmr k u" "tm_magic (tmr k' t) = TIMER_MAGIC"
    "tm_linked (tmr k' t)" "tm_callback (tmr k' t) = Some cb" "tm_arg (tmr k' t) = arg"
    "periodic_time (tmr k' t) = period"
    using k' by (auto simp: timer_set_def timer_simps same_kernel_def)
  have "timer_inv k" "\<And>d. sorted_queue (current_time k) d k" using assms(1) by (simp_all add: timers_sorted_def)
  then have "timers_sorted k'"
    using timer_set_inv [OF _ k'] timer_set_sorted [OF _ _ d k'] *(1) by (simp add: timers_sorted_def same_kernel_def)
  then show ?thesis by (rule that [OF k' *(1) _ *(2-)])
qed

lemma timer_cancel_kernel:
  assumes "timers_sorted k" "tm_magic (tmr k t) = TIMER_MAGIC"
  obtains k' where "timer_cancel cpu t k = Some k'" "same_kernel k k'" "timers_sorted k'"
    "\<And>u. u \<noteq> t \<Longrightarrow> tmr k' u = tmr k u" "tm_magic (tmr k' t) = TIMER_MAGIC" "\<not> tm_linked (tmr k' t)"
proof -
  obtain k' where k': "timer_cancel cpu t k = Some k'"
    using assms by (simp add: timer_cancel_def Let_def)
  have *: "same_kernel k k'" "\<And>u. u \<noteq> t \<Longrightarrow> tmr k' u = tmr k u" "tm_magic (tmr k' t) = TIMER_MAGIC"
    "\<not> tm_linked (tmr k' t)"
    using k' by (auto simp: timer_cancel_def timer_simps same_kernel_def split: list.splits if_splits)
  have "timers_sorted k'"
    using assms(1) timer_cancel_inv [OF _ k'] timer_cancel_sorted [OF _ _ k'] *(1)
    by (simp add: timers_sorted_def same_kernel_def)
  then show ?thesis by (rule that [OF k' *(1) _ *(2-)])
qed

section \<open>The context switch\<close>

lemma switch_threads_frame:
  "same_sched (thr (switch_threads cpu a b k) u) (thr k u)"
  "run_queue (switch_threads cpu a b k) = run_queue k"
  "run_queue_bitmap (switch_threads cpu a b k) = run_queue_bitmap k"
  "wq (switch_threads cpu a b k) = wq k" "current (switch_threads cpu a b k) = current k"
  "tmr (switch_threads cpu a b k) = tmr k" "timer_queue (switch_threads cpu a b k) = timer_queue k"
  "current_time (switch_threads cpu a b k) = current_time k"
  by (simp_all add: switch_threads_def Let_def same_sched_def mp_set_cpu_idle_def mp_set_cpu_busy_def
      mp_set_cpu_realtime_def mp_set_cpu_non_realtime_def)

lemma switch_preempt_timer_ok:
  assumes "timers_ok C W k" "cpu \<in> C"
    and "old_rt \<longleftrightarrow> thread_is_real_time_or_idle (thr k (current k cpu))"
    and "old_rt = thread_is_real_time_or_idle old" and "new_rt = thread_is_real_time_or_idle new"
  obtains k' where "switch_preempt_timer cpu old new k = Some k'" "same_kernel k k'" "timers_sorted k'"
    "\<And>u. u \<noteq> preempt_timer cpu \<Longrightarrow> tmr k' u = tmr k u" "tm_magic (tmr k' (preempt_timer cpu)) = TIMER_MAGIC"
    "tm_linked (tmr k' (preempt_timer cpu)) \<Longrightarrow>
       tm_callback (tmr k' (preempt_timer cpu)) = Some thread_timer_tick_cb \<and> \<not> new_rt"
proof -
  have i: "timers_sorted k" and m: "tm_magic (tmr k (preempt_timer cpu)) = TIMER_MAGIC"
    and l: "tm_linked (tmr k (preempt_timer cpu)) \<Longrightarrow>
       tm_callback (tmr k (preempt_timer cpu)) = Some thread_timer_tick_cb \<and> \<not> old_rt"
    using assms(1-3) by (auto simp: timers_ok_def)
  note rt = assms(4,5) [symmetric]
  consider (cancel) "new_rt" "\<not> old_rt" | (start) "\<not> new_rt" "old_rt" | (same) "new_rt = old_rt" by blast
  then show ?thesis
  proof cases
    case cancel
    obtain k' where "timer_cancel cpu (preempt_timer cpu) k = Some k'" "same_kernel k k'" "timers_sorted k'"
      "\<And>u. u \<noteq> preempt_timer cpu \<Longrightarrow> tmr k' u = tmr k u" "tm_magic (tmr k' (preempt_timer cpu)) = TIMER_MAGIC"
      "\<not> tm_linked (tmr k' (preempt_timer cpu))"
      using timer_cancel_kernel [OF i m] by metis
    with cancel show ?thesis by (intro that [of k']) (simp_all add: switch_preempt_timer_def rt)
  next
    case start
    then have nl: "\<not> tm_linked (tmr k (preempt_timer cpu))" using l by blast
    have ten: "uint (10 :: u32) < 2 ^ 30" by simp
    obtain k' where "timer_set cpu (preempt_timer cpu) 10 10 thread_timer_tick_cb None k = Some k'"
      "same_kernel k k'" "timers_sorted k'" "\<And>u. u \<noteq> preempt_timer cpu \<Longrightarrow> tmr k' u = tmr k u"
      "tm_magic (tmr k' (preempt_timer cpu)) = TIMER_MAGIC"
      "tm_callback (tmr k' (preempt_timer cpu)) = Some thread_timer_tick_cb"
      using timer_set_kernel [OF i m nl ten ten, of cpu thread_timer_tick_cb None] by metis
    with start show ?thesis by (intro that [of k']) (simp_all add: switch_preempt_timer_def timer_set_periodic_def rt)
  next
    case same
    then show ?thesis using i m l by (intro that [of k]) (auto simp: switch_preempt_timer_def same_kernel_def rt)
  qed
qed

text \<open>What the switch needs of the chosen thread.\<close>

lemma get_top_thread_ok:
  assumes s: "sched C D {} k" and cpu: "cpu \<in> C" and D: "cpu \<in> D"
    and old: "t_state (thr k (current k cpu)) \<noteq> THREAD_RUNNING" and g: "get_top_thread cpu k = (t, k1)"
  shows "sched C D {t} k1" "live (thr k1 t)" "\<not> t_queued (thr k1 t)" "t_state (thr k1 t) = THREAD_READY"
    "blocking_wait_queue (thr k1 t) = None" "\<And>c. t = idle_thread c \<Longrightarrow> c = cpu"
proof -
  have c: "cpus_ok C D k" using s by (simp add: sched_def)
  have "sched C D {t} k1 \<and> live (thr k1 t) \<and> \<not> t_queued (thr k1 t) \<and> t_state (thr k1 t) = THREAD_READY \<and>
    blocking_wait_queue (thr k1 t) = None \<and> (\<forall>c. t = idle_thread c \<longrightarrow> c = cpu)"
  proof (cases rule: get_top_thread_cases [OF s g])
    case (1 p)
    then have "\<not> thread_is_idle (thr k1 t)" by (simp add: in_hand_def)
    moreover have "cpus_ok C D k1" using 1(2) by (simp add: sched_def)
    moreover have "live (thr k1 t)" using 1(3) by (simp add: in_hand_def)
    ultimately have "\<forall>c. t \<noteq> idle_thread c" unfolding cpus_ok_def by blast
    with 1 show ?thesis by (simp add: in_hand_def)
  next
    case 2
    have i: "live (thr k t)" "thread_is_idle (thr k t)"
      "t_state (thr k t) = THREAD_READY \<or> t_state (thr k t) = THREAD_RUNNING"
      using c cpu 2 by (auto simp: cpus_ok_def)
    have "t_state (thr k t) \<noteq> THREAD_RUNNING"
    proof
      assume "t_state (thr k t) = THREAD_RUNNING"
      then have "(\<exists>d\<in>C. current k d = t) \<or> (\<exists>d. d \<notin> C \<and> t = idle_thread d)"
        using c i(1) by (simp add: cpus_ok_def)
      then obtain d where "d \<in> C" "current k d = t" using 2 cpu by auto
      then have "d = cpu" using c 2 by (auto simp: cpus_ok_def)
      then show False using old \<open>current k d = t\<close> \<open>t_state (thr k t) = THREAD_RUNNING\<close> by simp
    qed
    moreover have "\<not> t_queued (thr k t)" using sched_wf [OF s, of t] i by (auto simp: thread_wf_def)
    moreover have "settled (thr k t)" using sched_settled [OF s] by simp
    moreover have "sched C D {t} k" using s by (simp add: sched_def)
    ultimately show ?thesis using i 2 by (auto simp: settled_def)
  qed
  then show "sched C D {t} k1" "live (thr k1 t)" "\<not> t_queued (thr k1 t)" "t_state (thr k1 t) = THREAD_READY"
    "blocking_wait_queue (thr k1 t) = None" "\<And>c. t = idle_thread c \<Longrightarrow> c = cpu" by simp_all
qed

lemma sched_same_kernel: "same_kernel k k' \<Longrightarrow> sched C D H k' = sched C D H k"
  by (intro sched_cong) (simp_all add: same_kernel_def)

lemma same_sched_rt: "same_sched x y \<Longrightarrow> thread_is_real_time_or_idle x = thread_is_real_time_or_idle y"
  by (simp add: same_sched_def thread_is_real_time_or_idle_def)

text \<open>
  \<^verbatim>\<open>thread_resched\<close> never panics: it makes the chosen thread the running one on this CPU and
  gives the invariant back.
\<close>

lemma thread_resched_ok:
  assumes s: "sched C {cpu} {} k" and cpu: "cpu \<in> C"
    and old: "t_state (thr k (current k cpu)) \<noteq> THREAD_RUNNING" and T: "timers_ok C W k"
    and g: "get_top_thread cpu k = (t, k1)"
  obtains k' where "thread_resched cpu k = Some k'" "sched C {} {} k'" "timers_ok C W k'"
    "current k' = (current k)(cpu := t)" "run_queue k' = run_queue k1" "wq k' = wq k"
    "\<And>u. same_sched (thr k' u) ((thr k1 u)\<lparr>t_state := (if u = t then THREAD_RUNNING else t_state (thr k u))\<rparr>)"
proof -
  let ?old = "current k cpu"
  note top = get_top_thread_ok [OF s cpu _ old g, simplified]
  note fr = get_top_thread_frame [OF g]
  obtain b where thr1: "thr k1 = (thr k)(t := (thr k t)\<lparr>t_queued := b\<rparr>)" using fr(1) by blast
  define k2 where "k2 = thr_upd t (\<lambda>x. x\<lparr>t_state := THREAD_RUNNING\<rparr>) k1"
  have old1: "t_state (thr k1 (current k1 cpu)) \<noteq> THREAD_RUNNING" using old fr(3) thr1 by auto
  have sw: "sched C {} {} (k2\<lparr>current := (current k)(cpu := t)\<rparr>)"
    using sched_switch [OF top(1) cpu old1 top(2-6)] by (simp add: k2_def fr(3))
  have flags: "t_flags (thr k2 u) = t_flags (thr k u)" "t_magic (thr k2 u) = t_magic (thr k u)"
    "t_state (thr k2 u) = (if u = t then THREAD_RUNNING else t_state (thr k u))"
    "same_sched (thr k2 u) ((thr k1 u)\<lparr>t_state := (if u = t then THREAD_RUNNING else t_state (thr k u))\<rparr>)" for u
    by (simp_all add: k2_def thr1 same_sched_def)
  have ready: "t_state (thr k t) = THREAD_READY" using top(4) thr1 by simp
  have T2: "timers_ok C W k2"
  proof (rule timers_ok_threads [OF T])
    show "\<not> thread_is_real_time_or_idle (thr k2 (current k2 c))" if "tm_linked (tmr k (preempt_timer c))" for c
      using T that flags(1) by (auto simp: timers_ok_def thread_is_real_time_or_idle_def k2_def fr(3))
    show "live (thr k2 u)" if "tm_linked (tmr k (stack_timer u))" for u
      using T that flags(2) by (auto simp: timers_ok_def live_def)
    show "t_state (thr k2 u) = THREAD_SLEEPING" if "t_state (thr k u) = THREAD_SLEEPING" for u
      using that ready flags(3) by auto
    show "live (thr k2 u) \<and> \<not> thread_is_idle (thr k2 u) \<and>
        t_state (thr k2 u) \<in> {THREAD_BLOCKED, THREAD_READY, THREAD_RUNNING}" if "W u \<noteq> None" for u
      using T that flags(1-3) by (auto simp: timers_ok_def live_def thread_is_idle_def)
  qed (simp_all add: k2_def fr)
  show thesis
  proof (cases "t = ?old")
    case True
    then have "thread_resched cpu k = Some k2"
      using old g by (simp add: thread_resched_def k2_def Let_def)
    moreover have "(current k)(cpu := t) = current k" using True by auto
    moreover have cu: "current k2 = (current k)(cpu := t)" using True by (simp add: k2_def fr)
    moreover have "sched C {} {} k2" using sw unfolding cu [symmetric] by simp
    ultimately show thesis
      using T2 flags(4) by (intro that [of k2]) (simp_all add: k2_def fr)
  next
    case False
    define k3 where "k3 = switch_threads cpu ?old t k2"
    note f3 = switch_threads_frame [of cpu ?old t k2, folded k3_def]
    have rt3: "thread_is_real_time_or_idle (thr k3 u) = thread_is_real_time_or_idle (thr k2 u)" for u
      by (rule same_sched_rt [OF f3(1)])
    have cu: "current k2 = current k" "current k3 = current k" by (simp_all add: k2_def fr f3)
    have T3: "timers_ok C W k3"
      using T2 by (rule timers_ok_threads)
        (use T2 in \<open>auto simp: f3 timers_ok_def rt3 same_sched_preds [OF f3(1)]\<close>)
    obtain k4 where k4: "switch_preempt_timer cpu (thr k3 ?old) (thr k3 t) k3 = Some k4" "same_kernel k3 k4"
      "timers_sorted k4" "\<And>u. u \<noteq> preempt_timer cpu \<Longrightarrow> tmr k4 u = tmr k3 u"
      "tm_magic (tmr k4 (preempt_timer cpu)) = TIMER_MAGIC"
      "tm_linked (tmr k4 (preempt_timer cpu)) \<Longrightarrow>
         tm_callback (tmr k4 (preempt_timer cpu)) = Some thread_timer_tick_cb \<and>
         \<not> thread_is_real_time_or_idle (thr k3 t)"
      using switch_preempt_timer_ok [OF T3 cpu refl _ refl, where old = "thr k3 ?old" and new = "thr k3 t"] cu(2)
      by metis
    have thr4: "thr k4 = thr k3" "current k4 = current k" "run_queue k4 = run_queue k3"
      "run_queue_bitmap k4 = run_queue_bitmap k3" "wq k4 = wq k3"
      using k4(2) cu by (simp_all add: same_kernel_def)
    have pad: "padding_ok (thr k4 ?old)"
    proof -
      have "padding_ok (thr k ?old)" using s cpu by (simp add: sched_def cpus_ok_def)
      then have "padding_ok (thr k2 ?old)" using False by (simp add: k2_def thr1)
      then show ?thesis by (simp add: thr4 same_sched_preds [OF f3(1)])
    qed
    define k5 where "k5 = (let k = k4\<lparr>current := (current k4)(cpu := t)\<rparr> in
       if t_aspace (thr k t) \<noteq> t_aspace (thr k ?old)
       then k\<lparr>cpu_aspace := (cpu_aspace k)(cpu := t_aspace (thr k t))\<rparr> else k)"
    have f5: "thr k5 = thr k3" "current k5 = (current k)(cpu := t)" "run_queue k5 = run_queue k1"
      "run_queue_bitmap k5 = run_queue_bitmap k1" "wq k5 = wq k" "tmr k5 = tmr k4" "timer_queue k5 = timer_queue k4"
      "current_time k5 = current_time k4"
      by (simp_all add: k5_def Let_def thr4 f3 fr k2_def)
    have r: "thread_resched cpu k = Some k5"
      using old g False k4(1) pad
      by (simp add: thread_resched_def Let_def k5_def padding_ok_def flip: k2_def k3_def)
    have "sched C {} {} k5"
      using sw sched_cong [of k5 "k2\<lparr>current := (current k)(cpu := t)\<rparr>"] f3(1)
      by (simp add: f5) (simp add: k2_def fr)
    moreover have "timers_ok C W k5"
    proof -
      have "timers_sorted k5" using k4(3) timers_sorted_cong [OF f5(6-8)] by simp
      moreover have "tmr k4 (stack_timer u) = tmr k3 (stack_timer u)" "tmr k4 (timer_obj n) = tmr k3 (timer_obj n)"
        "c \<noteq> cpu \<Longrightarrow> tmr k4 (preempt_timer c) = tmr k3 (preempt_timer c)" for u n c
        using k4(4) by auto
      moreover have "tm_magic (tmr k4 (preempt_timer c)) = TIMER_MAGIC" if "c \<in> C" for c
        using T3 k4(4,5) that by (cases "c = cpu") (auto simp: timers_ok_def)
      moreover have "c \<in> C \<and> tm_callback (tmr k4 (preempt_timer c)) = Some thread_timer_tick_cb \<and>
          \<not> thread_is_real_time_or_idle (thr k3 (((current k)(cpu := t)) c))"
        if "tm_linked (tmr k4 (preempt_timer c))" for c
        using T3 k4(4,6) that cpu cu(2) by (cases "c = cpu") (auto simp: timers_ok_def)
      ultimately show ?thesis using T3 unfolding timers_ok_def f5 by simp
    qed
    moreover have "same_sched (thr k5 u) ((thr k1 u)\<lparr>t_state := (if u = t then THREAD_RUNNING else t_state (thr k u))\<rparr>)" for u
      using f3(1) [of u] flags(4) [of u] by (simp add: f5 same_sched_def)
    ultimately show thesis using r f5 by (intro that [of k5])
  qed
qed

section \<open>The operations keep the invariant\<close>

definition kinv :: "nat set \<Rightarrow> waiting \<Rightarrow> kstate \<Rightarrow> bool" where
  "kinv C W k \<longleftrightarrow> sched C {} {} k \<and> timers_ok C W k"

lemma kinv_running:
  assumes "kinv C W k" "cpu \<in> C"
  shows "t_state (thr k (current k cpu)) = THREAD_RUNNING" "live (thr k (current k cpu))"
    "\<not> t_queued (thr k (current k cpu))" "blocking_wait_queue (thr k (current k cpu)) = None"
    "t_magic (thr k (current k cpu)) = THREAD_MAGIC"
  using sched_running [of C "{}" "{}" k cpu] sched_settled [of C "{}" "{}" k "current k cpu"] assms
  by (auto simp: kinv_def settled_def live_def)

lemma other_current:
  assumes "kinv C W k" "c \<in> C" "cpu \<in> C" "c \<noteq> cpu"
  shows "current k c \<noteq> current k cpu"
  using assms by (auto simp: kinv_def sched_def cpus_ok_def inj_on_def)

lemma idle_current:
  assumes "kinv C W k" "cpu \<in> C" "current k cpu = idle_thread c"
  shows "c = cpu"
  using assms by (auto simp: kinv_def sched_def cpus_ok_def)

lemma current_idle_iff:
  assumes "kinv C W k" "cpu \<in> C"
  shows "thread_is_idle (thr k (current k cpu)) \<longleftrightarrow> current k cpu = idle_thread cpu"
  using assms idle_current [OF assms] kinv_running(2) [OF assms]
  by (auto simp: kinv_def sched_def cpus_ok_def)

text \<open>
  The current thread leaves the running state for a state in which it is on no queue:
  \<open>THREAD_READY\<close> on its way to a run queue, \<open>THREAD_SLEEPING\<close> or \<open>THREAD_DEATH\<close>.
\<close>

lemma leave_cpu:
  assumes k: "kinv C W k" and cpu: "cpu \<in> C" and t: "t = current k cpu"
    and f: "t_queued (f (thr k t)) = t_queued (thr k t)"
      "bit (t_flags (f (thr k t))) FLAG_IDLE = bit (t_flags (thr k t)) FLAG_IDLE"
      "blocking_wait_queue (f (thr k t)) = blocking_wait_queue (thr k t)"
      "padding_ok (f (thr k t))" "live (f (thr k t)) \<longrightarrow> 0 \<le> priority (f (thr k t)) \<and> priority (f (thr k t)) < 32"
      "t_state (f (thr k t)) \<in> {THREAD_READY, THREAD_SLEEPING, THREAD_DEATH}"
    and i: "thread_is_idle (thr k t) \<longrightarrow> t_state (f (thr k t)) = THREAD_READY \<and> live (f (thr k t))"
    and H: "H = (if t_state (f (thr k t)) = THREAD_READY \<and> \<not> thread_is_idle (thr k t) then {t} else {})"
  shows "sched C {cpu} H (thr_upd t f k)"
proof (rule sched_upd)
  show "sched C {} {} k" using k by (simp add: kinv_def)
  note r = kinv_running [OF k cpu, folded t]
  show "\<not> t_queued (thr k t)" "\<not> t_queued (f (thr k t))" using r f by simp_all
  show "thread_wf (f (thr k t))" using r f i by (auto simp: thread_wf_def thread_is_idle_def)
  show idle: "thread_is_idle (f (thr k t)) = thread_is_idle (thr k t)" using f by (simp add: thread_is_idle_def)
  show "t \<in> H \<or> settled (f (thr k t))" using f r H idle by (auto simp: settled_def)
  show "live (f (thr k t)) \<longrightarrow> live (thr k t)" using r by simp
  show "padding_ok (f (thr k t))" by (rule f)
  show "t_state (f (thr k t)) = THREAD_RUNNING \<and> live (f (thr k t))"
    if "c \<in> C" "c \<notin> {cpu}" "current k c = t" for c
    using other_current [OF k that(1) cpu] that t by simp
  show "(\<exists>c\<in>C. current k c = t) \<or> (\<exists>c. c \<notin> C \<and> t = idle_thread c)"
    using cpu t by blast
  show "live (f (thr k t)) \<and> (t_state (f (thr k t)) = THREAD_READY \<or> t_state (f (thr k t)) = THREAD_RUNNING)"
    if "c \<in> C" "t = idle_thread c" for c
    using i current_idle_iff [OF k cpu] idle_current [OF k cpu] that t by auto
qed (use H in auto)

text \<open>The timers' side: a thread that runs has no timer of its own unless it is in \<open>W\<close>.\<close>

lemma timers_ok_upd:
  assumes T: "timers_ok C W k" and t: "t_state (thr k t) \<noteq> THREAD_SLEEPING \<or> t_state (f (thr k t)) = THREAD_SLEEPING"
    and f: "thread_is_real_time_or_idle (f (thr k t)) = thread_is_real_time_or_idle (thr k t)"
    and st: "W t \<noteq> None \<Longrightarrow> live (f (thr k t)) \<and> \<not> thread_is_idle (f (thr k t)) \<and>
           t_state (f (thr k t)) \<in> {THREAD_BLOCKED, THREAD_READY, THREAD_RUNNING}"
    and sl: "t_state (f (thr k t)) = THREAD_SLEEPING \<Longrightarrow> live (f (thr k t))"
  shows "timers_ok C W (thr_upd t f k)"
proof (rule timers_ok_threads [OF T])
  show "\<not> thread_is_real_time_or_idle (thr (thr_upd t f k) (current (thr_upd t f k) c))"
    if "tm_linked (tmr k (preempt_timer c))" for c
    using T that f by (auto simp: timers_ok_def)
  show "live (thr (thr_upd t f k) u)" if "tm_linked (tmr k (stack_timer u))" for u
    using T that t st sl unfolding timers_ok_def by (cases "u = t") auto
  show "t_state (thr (thr_upd t f k) u) = THREAD_SLEEPING"
    if "tm_linked (tmr k (stack_timer u))" "t_state (thr k u) = THREAD_SLEEPING" for u
    using that t by auto
  show "live (thr (thr_upd t f k) u) \<and> \<not> thread_is_idle (thr (thr_upd t f k) u) \<and>
       t_state (thr (thr_upd t f k) u) \<in> {THREAD_BLOCKED, THREAD_READY, THREAD_RUNNING}" if "W u \<noteq> None" for u
    using that st T by (cases "u = t") (auto simp: timers_ok_def)
qed simp_all

lemma timers_ok_cong:
  assumes "\<And>u. same_sched (thr k' u) ((thr k u)\<lparr>t_queued := t_queued (thr k' u)\<rparr>)"
    and "current k' = current k" "tmr k' = tmr k" "timer_queue k' = timer_queue k" "current_time k' = current_time k"
  shows "timers_ok C W k' = timers_ok C W k"
proof -
  have e: "live (thr k' u) = live (thr k u)" "thread_is_idle (thr k' u) = thread_is_idle (thr k u)"
    "thread_is_real_time_or_idle (thr k' u) = thread_is_real_time_or_idle (thr k u)"
    "t_state (thr k' u) = t_state (thr k u)" for u
    using assms(1) [of u]
    by (simp_all add: same_sched_def live_def thread_is_idle_def thread_is_real_time_or_idle_def)
  have "timers_sorted k' = timers_sorted k" by (rule timers_sorted_cong [OF assms(3-5)])
  then show ?thesis unfolding timers_ok_def e assms(2,3) by simp
qed

lemma timers_ok_rq [simp]:
  "timers_ok C W (rq_head t k) = timers_ok C W k" "timers_ok C W (rq_tail t k) = timers_ok C W k"
  by (rule timers_ok_cong; simp add: rq_head_def rq_tail_def Let_def same_sched_def)+

lemma rq_simps [simp]:
  "current (rq_head t k) = current k" "current (rq_tail t k) = current k"
  "wq (rq_head t k) = wq k" "wq (rq_tail t k) = wq k"
  "thr (rq_head t k) u = (if u = t then (thr k t)\<lparr>t_queued := True\<rparr> else thr k u)"
  "thr (rq_tail t k) u = (if u = t then (thr k t)\<lparr>t_queued := True\<rparr> else thr k u)"
  "tmr (rq_head t k) = tmr k" "tmr (rq_tail t k) = tmr k"
  "timer_queue (rq_head t k) = timer_queue k" "timer_queue (rq_tail t k) = timer_queue k"
  "current_time (rq_head t k) = current_time k" "current_time (rq_tail t k) = current_time k"
  by (simp_all add: rq_head_def rq_tail_def Let_def)

lemma resched_kinv:
  assumes "sched C {cpu} {} k" "cpu \<in> C" "t_state (thr k (current k cpu)) \<noteq> THREAD_RUNNING" "timers_ok C W k"
  obtains k' where "thread_resched cpu k = Some k'" "kinv C W k'"
    "current k' = (current k)(cpu := fst (get_top_thread cpu k))" "wq k' = wq k"
    "run_queue k' = run_queue (snd (get_top_thread cpu k))"
  using thread_resched_ok [OF assms, of "fst (get_top_thread cpu k)" "snd (get_top_thread cpu k)"]
  by (metis kinv_def prod.collapse)

text \<open>
  The scheduling policy as a reference: of the threads allowed on this CPU the first one of
  the highest priority queue that has one, else the idle thread.
\<close>

definition next_thread :: "nat \<Rightarrow> (nat \<Rightarrow> thread_id list) \<Rightarrow> (thread_id \<Rightarrow> thread_t) \<Rightarrow> thread_id" where
  "next_thread cpu rq th =
     (case concat (map (\<lambda>p. filter (\<lambda>t. may_run_on cpu (th t)) (rq p)) (rev [0..<32])) of
        [] \<Rightarrow> idle_thread cpu
      | t # _ \<Rightarrow> t)"

lemma concat_rev_upto_top:
  assumes "p < n" and "f p = t # ts" and "\<And>q. p < q \<Longrightarrow> q < n \<Longrightarrow> f q = []"
  shows "\<exists>us. concat (map f (rev [0..<n])) = t # us"
  using assms
proof (induction n)
  case (Suc n)
  then show ?case by (cases "p = n") auto
qed simp

lemma next_threadI:
  assumes "p < 32" and "filter (\<lambda>t. may_run_on cpu (th t)) (rq p) = t # ts"
    and "\<And>q. p < q \<Longrightarrow> q < 32 \<Longrightarrow> filter (\<lambda>t. may_run_on cpu (th t)) (rq q) = []"
  shows "next_thread cpu rq th = t"
  using concat_rev_upto_top [where f = "\<lambda>p. filter (\<lambda>t. may_run_on cpu (th t)) (rq p)", OF assms]
  by (auto simp: next_thread_def)

lemma next_thread_candidates:
  "next_thread cpu (run_queue k) (thr k) =
     (case concat (map (candidates cpu k) (rev [0..<32])) of [] \<Rightarrow> idle_thread cpu | t # _ \<Rightarrow> t)"
  unfolding next_thread_def candidates_def by (rule refl)

lemma get_top_thread_next:
  assumes q: "queues_ok k"
  shows "fst (get_top_thread cpu k) = next_thread cpu (run_queue k) (thr k)"
  unfolding next_thread_candidates
proof (cases "top_thread_loop cpu (run_queue_bitmap k) k")
  case None
  then have "candidates cpu k p = []" for p using top_thread_loop_top(2) [OF q] by blast
  then have e: "concat (map (candidates cpu k) (rev [0..<32])) = []" by simp
  show "fst (get_top_thread cpu k) =
      (case concat (map (candidates cpu k) (rev [0..<32])) of [] \<Rightarrow> idle_thread cpu | t # _ \<Rightarrow> t)"
    unfolding e using None by (simp add: get_top_thread_def)
next
  case (Some a)
  then obtain p t where a: "top_thread_loop cpu (run_queue_bitmap k) k = Some (p, t)" by (cases a) auto
  have i: "is_top cpu k p t" using top_thread_loop_top(1) [OF q a] .
  then obtain ts where ts: "candidates cpu k p = t # ts" by (auto simp: is_top_def)
  then have "run_queue k p \<noteq> []" by (auto simp: candidates_def)
  then have "bit (run_queue_bitmap k) p" using q by (simp add: queues_ok_def)
  then have "p < 32" using bit_imp_le_length [of "run_queue_bitmap k" p] by simp
  moreover have "candidates cpu k p' = []" if "p < p'" for p' using i that by (simp add: is_top_def)
  ultimately obtain us where "concat (map (candidates cpu k) (rev [0..<32])) = t # us"
    using concat_rev_upto_top [where f = "candidates cpu k", OF _ ts] by blast
  then show "fst (get_top_thread cpu k) =
      (case concat (map (candidates cpu k) (rev [0..<32])) of [] \<Rightarrow> idle_thread cpu | t # _ \<Rightarrow> t)"
    using a by (simp add: get_top_thread_def Let_def)
qed

lemma queued_once: "queues_ok k \<Longrightarrow> t \<in> set (run_queue k p) \<Longrightarrow> t \<in> set (run_queue k q) \<Longrightarrow> p = q"
  by (auto simp: queues_ok_def)

lemma get_top_thread_queue:
  assumes s: "sched C D {} k"
  shows "run_queue (snd (get_top_thread cpu k)) = (\<lambda>q. remove1 (fst (get_top_thread cpu k)) (run_queue k q))"
proof -
  obtain t k' where g: "get_top_thread cpu k = (t, k')" by fastforce
  have q: "queues_ok k" using s by (rule sched_queues)
  from s g show ?thesis
  proof (cases rule: get_top_thread_cases)
    case (queued p)
    then have "t \<in> set (candidates cpu k p)" by (auto simp: is_top_def)
    then have "t \<in> set (run_queue k p)" by (simp add: candidates_def)
    then have "t \<notin> set (run_queue k x)" if "x \<noteq> p" for x using queued_once [OF q, of t p x] that by blast
    then show ?thesis using queued g by (auto simp: fun_eq_iff remove1_idem)
  next
    case idle
    have "idle_thread cpu \<notin> set (run_queue k x)" for x
    proof
      assume a: "idle_thread cpu \<in> set (run_queue k x)"
      then have "t_queued (thr k (idle_thread cpu))" using q by (simp add: queues_ok_def)
      then have "live (thr k (idle_thread cpu))" "\<not> thread_is_idle (thr k (idle_thread cpu))"
        using sched_wf [OF s, of "idle_thread cpu"] by (simp_all add: thread_wf_def)
      then show False using s by (auto simp: sched_def cpus_ok_def)
    qed
    then show ?thesis using idle g by (simp add: remove1_idem)
  qed
qed

lemma kinv_priority: "kinv C W k \<Longrightarrow> live (thr k t) \<Longrightarrow> 0 \<le> priority (thr k t) \<and> priority (thr k t) < 32"
  by (auto simp: kinv_def dest: sched_priority)

lemma kinv_padding: "kinv C W k \<Longrightarrow> cpu \<in> C \<Longrightarrow> padding_ok (thr k (current k cpu))"
  by (simp add: kinv_def sched_def cpus_ok_def)

text \<open>The running thread is made ready, with its other fields but the ones the queues read.\<close>

lemma make_ready:
  assumes k: "kinv C W k" and cpu: "cpu \<in> C" and t: "t = current k cpu"
    and f: "same_sched (f (thr k t)) ((thr k t)\<lparr>t_state := THREAD_READY, priority := p\<rparr>)" "0 \<le> p" "p < 32"
    and k1: "k1 = thr_upd t f k"
  shows "sched C {cpu} (if thread_is_idle (thr k t) then {} else {t}) k1" "timers_ok C W k1"
    "\<not> thread_is_idle (thr k t) \<Longrightarrow> in_hand (thr k1 t)" "t_state (thr k1 t) = THREAD_READY"
    "thread_is_idle (thr k1 t) = thread_is_idle (thr k t)" "current k1 = current k"
proof -
  note r = kinv_running [OF k cpu, folded t]
  have e: "t_state (f (thr k t)) = THREAD_READY" "t_flags (f (thr k t)) = t_flags (thr k t)"
    "t_queued (f (thr k t)) = t_queued (thr k t)" "t_magic (f (thr k t)) = t_magic (thr k t)"
    "blocking_wait_queue (f (thr k t)) = blocking_wait_queue (thr k t)" "priority (f (thr k t)) = p"
    "stack_padding (f (thr k t)) = stack_padding (thr k t)"
    using f by (simp_all add: same_sched_def)
  show "thread_is_idle (thr k1 t) = thread_is_idle (thr k t)" "t_state (thr k1 t) = THREAD_READY" "current k1 = current k"
    using e by (simp_all add: k1 thread_is_idle_def)
  show "sched C {cpu} (if thread_is_idle (thr k t) then {} else {t}) k1" unfolding k1
    using e f(2,3) r kinv_padding [OF k cpu, folded t]
    by (intro leave_cpu [OF k cpu t]) (auto simp: padding_ok_def live_def)
  show "timers_ok C W k1" unfolding k1
  proof (rule timers_ok_upd)
    show T: "timers_ok C W k" using k by (simp add: kinv_def)
    show "live (f (thr k t)) \<and> \<not> thread_is_idle (f (thr k t)) \<and>
        t_state (f (thr k t)) \<in> {THREAD_BLOCKED, THREAD_READY, THREAD_RUNNING}" if "W t \<noteq> None"
      using T that e r by (auto simp: timers_ok_def live_def thread_is_idle_def)
  qed (use e r in \<open>simp_all add: thread_is_real_time_or_idle_def\<close>)
  show "\<not> thread_is_idle (thr k t) \<Longrightarrow> in_hand (thr k1 t)"
    using e r by (simp add: k1 in_hand_def live_def thread_is_idle_def)
qed

lemma requeue_ok:
  assumes k: "kinv C W k" and cpu: "cpu \<in> C" and t: "t = current k cpu"
    and f: "same_sched (f (thr k t)) ((thr k t)\<lparr>t_state := THREAD_READY, priority := p\<rparr>)" "0 \<le> p" "p < 32"
    and k1: "k1 = thr_upd t f k"
    and ins: "ins = insert_in_run_queue_head \<or> ins = insert_in_run_queue_tail"
  shows "\<exists>k'. Option.bind (if \<not> thread_is_idle (thr k1 t) then ins t k1 else Some k1) (thread_resched cpu) = Some k' \<and>
     kinv C W k'"
proof -
  note m = make_ready [OF k cpu t f k1]
  obtain k2 where k2: "(if \<not> thread_is_idle (thr k1 t) then ins t k1 else Some k1) = Some k2"
    "sched C {cpu} {} k2" "timers_ok C W k2" "t_state (thr k2 (current k2 cpu)) \<noteq> THREAD_RUNNING"
  proof (cases "thread_is_idle (thr k t)")
    case True
    then show ?thesis using m(1,2,4-6) t by (intro that [of k1]) simp_all
  next
    case False
    have s: "sched C {cpu} {t} k1" using m(1) False by simp
    note h = sched_rq_head [OF s m(3) [OF False]] and tl = sched_rq_tail [OF s m(3) [OF False]]
    from ins show ?thesis
    proof
      assume "ins = insert_in_run_queue_head"
      then show ?thesis using m(2,4-6) t h False by (intro that [of "rq_head t k1"]) simp_all
    next
      assume "ins = insert_in_run_queue_tail"
      then show ?thesis using m(2,4-6) t tl False by (intro that [of "rq_tail t k1"]) simp_all
    qed
  qed
  obtain k' where "thread_resched cpu k2 = Some k'" "kinv C W k'"
    using resched_kinv [OF k2(2) cpu k2(4,3)] by metis
  then show ?thesis using k2(1) by simp
qed

text \<open>Whom the CPU goes to when its thread is put back on a run queue.\<close>

lemma requeue_choice:
  assumes k: "kinv C W k" and cpu: "cpu \<in> C" and t: "t = current k cpu" and ni: "\<not> thread_is_idle (thr k t)"
    and f: "same_sched (f (thr k t)) ((thr k t)\<lparr>t_state := THREAD_READY, priority := p\<rparr>)" "0 \<le> p" "p < 32"
      "pinned_cpu (f (thr k t)) = pinned_cpu (thr k t)"
    and ins: "ins = insert_in_run_queue_head \<and> rq = (run_queue k)(nat p := t # run_queue k (nat p)) \<or>
      ins = insert_in_run_queue_tail \<and> rq = (run_queue k)(nat p := run_queue k (nat p) @ [t])"
  shows "\<exists>k'. Option.bind (ins t (thr_upd t f k)) (thread_resched cpu) = Some k' \<and> kinv C W k' \<and>
     current k' = (current k)(cpu := next_thread cpu rq (thr k)) \<and>
     run_queue k' = (\<lambda>q. remove1 (next_thread cpu rq (thr k)) (rq q))"
proof -
  let ?k1 = "thr_upd t f k"
  note m = make_ready [where f = f, OF k cpu t f(1-3) refl]
  have s: "sched C {cpu} {t} ?k1" using m(1) ni by simp
  note h = sched_rq_head [OF s m(3) [OF ni]] and tl = sched_rq_tail [OF s m(3) [OF ni]]
  have pr: "priority (thr ?k1 t) = p" using f(1) by (simp add: same_sched_def)
  have rq: "run_queue (rq_head t ?k1) = (run_queue k)(nat p := t # run_queue k (nat p))"
    "run_queue (rq_tail t ?k1) = (run_queue k)(nat p := run_queue k (nat p) @ [t])"
    "pinned_cpu (thr (rq_head t ?k1) u) = pinned_cpu (thr k u)" "pinned_cpu (thr (rq_tail t ?k1) u) = pinned_cpu (thr k u)" for u
    using pr f(4) by (simp_all add: rq_head_def rq_tail_def Let_def)
  obtain k2 where k2: "ins t ?k1 = Some k2" "sched C {cpu} {} k2" "timers_ok C W k2"
      "t_state (thr k2 (current k2 cpu)) \<noteq> THREAD_RUNNING" "run_queue k2 = rq" "current k2 = current k"
      "\<And>u. pinned_cpu (thr k2 u) = pinned_cpu (thr k u)"
    using ins
  proof
    assume i: "ins = insert_in_run_queue_head \<and> rq = (run_queue k)(nat p := t # run_queue k (nat p))"
    show ?thesis
      by (rule that [of "rq_head t ?k1"]) (use i m(2,4-6) t h rq in simp_all)
  next
    assume i: "ins = insert_in_run_queue_tail \<and> rq = (run_queue k)(nat p := run_queue k (nat p) @ [t])"
    show ?thesis
      by (rule that [of "rq_tail t ?k1"]) (use i m(2,4-6) t tl rq in simp_all)
  qed
  have n: "fst (get_top_thread cpu k2) = next_thread cpu rq (thr k)"
    using get_top_thread_next [OF sched_queues [OF k2(2)], of cpu] k2(5,7)
    by (simp add: next_thread_def may_run_on_def)
  obtain k' where "thread_resched cpu k2 = Some k'" "kinv C W k'"
    "current k' = (current k2)(cpu := fst (get_top_thread cpu k2))"
    "run_queue k' = run_queue (snd (get_top_thread cpu k2))"
    using resched_kinv [OF k2(2) cpu k2(4,3)] by metis
  then show ?thesis using k2(1,5,6) n get_top_thread_queue [OF k2(2), of cpu] by simp
qed

lemma thread_yield_ok:
  assumes k: "kinv C W k" and cpu: "cpu \<in> C"
  shows "\<exists>k'. thread_yield cpu k = Some k' \<and> kinv C W k'"
  using requeue_ok [OF k cpu refl, where p = "priority (thr k (current k cpu))" and ins = insert_in_run_queue_tail
      and f = "\<lambda>x. x\<lparr>t_state := THREAD_READY, remaining_quantum := 0\<rparr>"]
    kinv_running [OF k cpu] kinv_priority [OF k, of "current k cpu"]
  by (simp add: thread_yield_def Let_def same_sched_def)

lemma thread_preempt_ok:
  assumes k: "kinv C W k" and cpu: "cpu \<in> C"
  shows "\<exists>k'. thread_preempt cpu k = Some k' \<and> kinv C W k'"
proof -
  note r = requeue_ok [OF k cpu refl, where p = "priority (thr k (current k cpu))" and f = "\<lambda>x. x\<lparr>t_state := THREAD_READY\<rparr>"]
  show ?thesis
    using r [where ins = insert_in_run_queue_head] r [where ins = insert_in_run_queue_tail]
      kinv_running [OF k cpu] kinv_priority [OF k, of "current k cpu"]
    by (cases "0 < remaining_quantum (thr k (current k cpu))"; cases "thread_is_idle (thr k (current k cpu))")
      (simp_all add: thread_preempt_def Let_def same_sched_def)
qed

lemma thread_set_priority_ok:
  assumes k: "kinv C W k" and cpu: "cpu \<in> C" and ni: "\<not> thread_is_idle (thr k (current k cpu))"
  shows "\<exists>k'. thread_set_priority cpu prio k = Some k' \<and> kinv C W k'"
proof -
  define p where "p = (let prio = (if prio \<le> 0 then 0 + 1 else prio) in if prio > 31 then 31 else prio)"
  have p: "0 \<le> p" "p < 32" by (simp_all add: p_def Let_def)
  have "thread_set_priority cpu prio k = Option.bind (insert_in_run_queue_head (current k cpu)
      (thr_upd (current k cpu) (\<lambda>x. x\<lparr>priority := p, t_state := THREAD_READY\<rparr>) k)) (thread_resched cpu)"
    by (simp add: thread_set_priority_def p_def Let_def)
  then show ?thesis
    using ni requeue_ok [OF k cpu refl _ p refl disjI1 [OF refl],
      where f = "\<lambda>x. x\<lparr>priority := p, t_state := THREAD_READY\<rparr>"] by (simp add: same_sched_def)
qed

text \<open>The stack timer of the running thread, which is in no queue when the thread is not in \<open>W\<close>.\<close>

lemma stack_timer_free:
  assumes "kinv C W k" "cpu \<in> C" "W (current k cpu) = None"
  shows "\<not> tm_linked (tmr k (stack_timer (current k cpu)))"
  using assms kinv_running(1) [OF assms(1,2)] by (auto simp: kinv_def timers_ok_def)

lemma timer_initialize_kernel:
  assumes "timers_sorted k" "\<not> tm_linked (tmr k t)" and k1: "k1 = timer_initialize t k"
  shows "timers_sorted k1" "same_kernel k k1" "tm_magic (tmr k1 t) = TIMER_MAGIC" "\<not> tm_linked (tmr k1 t)"
    "\<And>u. u \<noteq> t \<Longrightarrow> tmr k1 u = tmr k u"
proof -
  have "timer_inv k1" unfolding k1 timer_initialize_def using assms
    by (intro timer_inv_upd) (simp_all add: timers_sorted_def)
  moreover have "sorted_queue (current_time k1) d k1" for d
  proof -
    have "t \<notin> set (timer_queue k d)" using assms(1,2) timer_inv_linked [of k t] by (auto simp: timers_sorted_def)
    then show ?thesis using assms(1) unfolding k1 timer_initialize_def
      by (subst sorted_queue_cong [of _ _ k]) (auto simp: timer_upd_def timers_sorted_def)
  qed
  ultimately show "timers_sorted k1" by (simp add: timers_sorted_def)
  show "same_kernel k k1" "tm_magic (tmr k1 t) = TIMER_MAGIC" "\<not> tm_linked (tmr k1 t)"
    "\<And>u. u \<noteq> t \<Longrightarrow> tmr k1 u = tmr k u"
    by (simp_all add: k1 timer_initialize_def timer_upd_def same_kernel_def)
qed

lemma set_stack_timer:
  assumes "timers_sorted k" "\<not> tm_linked (tmr k (stack_timer t))" and d: "uint delay < 2 ^ 30"
  obtains k' where "timer_set_oneshot cpu (stack_timer t) delay cb (Some t) (timer_initialize (stack_timer t) k) = Some k'"
    "same_kernel k k'" "timers_sorted k'" "\<And>u. u \<noteq> stack_timer t \<Longrightarrow> tmr k' u = tmr k u"
    "tm_magic (tmr k' (stack_timer t)) = TIMER_MAGIC"
    "tm_callback (tmr k' (stack_timer t)) = Some cb" "tm_arg (tmr k' (stack_timer t)) = Some t"
    "periodic_time (tmr k' (stack_timer t)) = 0"
proof -
  define k1 where "k1 = timer_initialize (stack_timer t) k"
  note i = timer_initialize_kernel [OF assms(1,2) k1_def]
  have d': "uint (if delay = 0 then 1 else delay) < 2 ^ 30" "uint (0 :: u32) < 2 ^ 30" using d by simp_all
  obtain k' where k': "timer_set cpu (stack_timer t) (if delay = 0 then 1 else delay) 0 cb (Some t) k1 = Some k'"
    "same_kernel k1 k'" "timers_sorted k'" "\<And>u. u \<noteq> stack_timer t \<Longrightarrow> tmr k' u = tmr k1 u"
    "tm_magic (tmr k' (stack_timer t)) = TIMER_MAGIC"
    "tm_callback (tmr k' (stack_timer t)) = Some cb" "tm_arg (tmr k' (stack_timer t)) = Some t"
    "periodic_time (tmr k' (stack_timer t)) = 0"
    using timer_set_kernel [OF i(1,3,4) d', of cpu cb "Some t"] by metis
  show ?thesis
    by (rule that [OF _ _ k'(3) _ k'(5-)])
      (use k' i in \<open>simp_all add: timer_set_oneshot_def same_kernel_def flip: k1_def\<close>)
qed

lemma thread_sleep_ok:
  assumes k: "kinv C W k" and cpu: "cpu \<in> C" and ni: "\<not> thread_is_idle (thr k (current k cpu))"
    and w: "W (current k cpu) = None" and d: "uint delay < 2 ^ 30"
  shows "\<exists>k'. thread_sleep cpu delay k = Some k' \<and> kinv C W k'"
proof -
  let ?t = "current k cpu" and ?f = "\<lambda>x :: thread_t. x\<lparr>t_state := THREAD_SLEEPING\<rparr>"
  note r = kinv_running [OF k cpu]
  have T: "timers_ok C W k" using k by (simp add: kinv_def)
  have ts: "timers_sorted k" using T by (simp add: timers_ok_def)
  obtain k1 where k1: "timer_set_oneshot cpu (stack_timer ?t) delay thread_sleep_handler_cb (Some ?t)
      (timer_initialize (stack_timer ?t) k) = Some k1" "same_kernel k k1" "timers_sorted k1"
    "\<And>u. u \<noteq> stack_timer ?t \<Longrightarrow> tmr k1 u = tmr k u"
    "tm_callback (tmr k1 (stack_timer ?t)) = Some thread_sleep_handler_cb"
    "tm_arg (tmr k1 (stack_timer ?t)) = Some ?t" "periodic_time (tmr k1 (stack_timer ?t)) = 0"
    using set_stack_timer [OF ts stack_timer_free [OF k cpu w] d, of cpu thread_sleep_handler_cb] by metis
  have e: "thr k1 = thr k" "current k1 = current k" using k1(2) by (simp_all add: same_kernel_def)
  define k2 where "k2 = thr_upd ?t ?f k1"
  have "sched C {cpu} {} (thr_upd ?t ?f k)"
    using r ni kinv_padding [OF k cpu] kinv_priority [OF k r(2)]
    by (intro leave_cpu [OF k cpu refl]) (auto simp: padding_ok_def)
  then have s2: "sched C {cpu} {} k2"
    using k1(2) by (subst sched_cong [of k2 "thr_upd ?t ?f k"]) (simp_all add: k2_def same_kernel_def)
  have T2: "timers_ok C W k2"
  proof -
    have "tmr k2 (preempt_timer c) = tmr k (preempt_timer c)" "tmr k2 (timer_obj n) = tmr k (timer_obj n)"
      "u \<noteq> ?t \<Longrightarrow> tmr k2 (stack_timer u) = tmr k (stack_timer u)" for c n u
      using k1(4) by (simp_all add: k2_def)
    moreover have "tm_callback (tmr k2 (stack_timer ?t)) = Some thread_sleep_handler_cb"
      "tm_arg (tmr k2 (stack_timer ?t)) = Some ?t" "periodic_time (tmr k2 (stack_timer ?t)) = 0"
      using k1(5-7) by (simp_all add: k2_def)
    moreover have "timers_sorted k2" using k1(3) timers_sorted_cong [of k2 k1] by (simp add: k2_def)
    moreover have "thr k2 u = (if u = ?t then ?f (thr k ?t) else thr k u)" "current k2 = current k" for u
      by (simp_all add: k2_def e)
    ultimately show ?thesis using T w r(2) unfolding timers_ok_def
      by (auto simp: thread_is_real_time_or_idle_def)
  qed
  have "thread_sleep cpu delay k = thread_resched cpu k2"
    using r ni k1(1) by (simp add: thread_sleep_def Let_def k2_def)
  moreover have "t_state (thr k2 (current k2 cpu)) \<noteq> THREAD_RUNNING" by (simp add: k2_def e)
  ultimately show ?thesis using resched_kinv [OF s2 cpu _ T2] by metis
qed

lemma wait_queue_block_ok:
  assumes k: "kinv C W k" and cpu: "cpu \<in> C" and ni: "\<not> thread_is_idle (thr k (current k cpu))"
    and w: "W (current k cpu) = None" and m: "wq_magic (wq k q) = WAIT_QUEUE_MAGIC" and to: "timeout \<noteq> 0"
    and d: "timeout \<noteq> INFINITE_TIME \<longrightarrow> uint timeout < 2 ^ 30"
  shows "\<exists>k'. wait_queue_block cpu q timeout k = Some (k', Switched) \<and>
     kinv C (W(current k cpu := Some timeout)) k'"
proof -
  let ?t = "current k cpu" and ?W = "W(current k cpu := Some timeout)"
  note r = kinv_running [OF k cpu]
  have T: "timers_ok C W k" and s: "sched C {} {} k" using k by (simp_all add: kinv_def)
  define k1 where "k1 = thr_upd ?t (\<lambda>x. x\<lparr>t_queued := True, t_state := THREAD_BLOCKED,
       blocking_wait_queue := Some q, wait_queue_block_ret := NO_ERROR\<rparr>)
     (wq_upd q (\<lambda>x. x\<lparr>wq_list := wq_list x @ [?t], wq_count := wq_count x + 1\<rparr>) k)"
  have s1: "sched C {cpu} {} k1" by (rule sched_wq_add [OF s cpu refl ni m k1_def])
  have f1: "tmr k1 = tmr k" "timer_queue k1 = timer_queue k" "current k1 = current k"
    "live (thr k1 u) = live (thr k u)" "t_flags (thr k1 u) = t_flags (thr k u)"
    "t_state (thr k1 u) = (if u = ?t then THREAD_BLOCKED else t_state (thr k u))" for u
    by (simp_all add: k1_def)
  have i1: "timers_sorted k1" using T timers_sorted_cong [of k1 k] by (simp add: timers_ok_def k1_def)
  have nl: "\<not> tm_linked (tmr k1 (stack_timer ?t))" using stack_timer_free [OF k cpu w] by (simp add: f1)
  obtain k2 where k2: "(if timeout \<noteq> INFINITE_TIME
      then timer_set_oneshot cpu (stack_timer ?t) timeout wait_queue_timeout_handler_cb (Some ?t)
             (timer_initialize (stack_timer ?t) k1) else Some k1) = Some k2"
    "same_kernel k1 k2" "timers_sorted k2" "\<And>u. u \<noteq> stack_timer ?t \<Longrightarrow> tmr k2 u = tmr k u"
    "tm_linked (tmr k2 (stack_timer ?t)) \<Longrightarrow> tm_callback (tmr k2 (stack_timer ?t)) = Some wait_queue_timeout_handler_cb \<and>
       tm_arg (tmr k2 (stack_timer ?t)) = Some ?t \<and> periodic_time (tmr k2 (stack_timer ?t)) = 0 \<and> timeout \<noteq> INFINITE_TIME"
    "timeout \<noteq> INFINITE_TIME \<Longrightarrow> tm_magic (tmr k2 (stack_timer ?t)) = TIMER_MAGIC"
  proof (cases "timeout = INFINITE_TIME")
    case True
    then show ?thesis using i1 nl f1 by (intro that [of k1]) (simp_all add: same_kernel_def)
  next
    case False
    then have d': "uint timeout < 2 ^ 30" using d by blast
    obtain k2 where "timer_set_oneshot cpu (stack_timer ?t) timeout wait_queue_timeout_handler_cb (Some ?t)
        (timer_initialize (stack_timer ?t) k1) = Some k2"
      "same_kernel k1 k2" "timers_sorted k2" "\<And>u. u \<noteq> stack_timer ?t \<Longrightarrow> tmr k2 u = tmr k1 u"
      "tm_magic (tmr k2 (stack_timer ?t)) = TIMER_MAGIC"
      "tm_callback (tmr k2 (stack_timer ?t)) = Some wait_queue_timeout_handler_cb"
      "tm_arg (tmr k2 (stack_timer ?t)) = Some ?t" "periodic_time (tmr k2 (stack_timer ?t)) = 0"
      using set_stack_timer [OF i1 nl d', of cpu wait_queue_timeout_handler_cb] by metis
    then show ?thesis using False f1(1) by (intro that [of k2]) simp_all
  qed
  have e2: "thr k2 = thr k1" "current k2 = current k" using k2(2) by (simp_all add: same_kernel_def f1)
  have s2: "sched C {cpu} {} k2" using s1 sched_same_kernel [OF k2(2)] by simp
  have T2: "timers_ok C ?W k2"
  proof -
    have "tmr k2 (preempt_timer c) = tmr k (preempt_timer c)" "tmr k2 (timer_obj n) = tmr k (timer_obj n)"
      "u \<noteq> ?t \<Longrightarrow> tmr k2 (stack_timer u) = tmr k (stack_timer u)" for c n u
      using k2(4) by simp_all
    then show ?thesis using T r(2) ni k2(3,5,6) f1 unfolding timers_ok_def e2
      by (auto simp: thread_is_real_time_or_idle_def thread_is_idle_def)
  qed
  have "wait_queue_block cpu q timeout k = Option.bind (thread_resched cpu k2) (\<lambda>k. Some (k, Switched))"
    using r m to k2(1)
    by (cases "timeout = INFINITE_TIME") (simp_all add: wait_queue_block_def Let_def flip: k1_def)
  moreover have "t_state (thr k2 (current k2 cpu)) \<noteq> THREAD_RUNNING" by (simp add: e2 f1)
  ultimately show ?thesis using resched_kinv [OF s2 cpu _ T2] by fastforce
qed

lemma wait_queue_block_return_ok:
  assumes k: "kinv C W k" and cpu: "cpu \<in> C" and w: "W (current k cpu) = Some timeout"
  shows "\<exists>k'. wait_queue_block_return cpu timeout k = Some (k', wait_queue_block_ret (thr k (current k cpu))) \<and>
     kinv C (W(current k cpu := None)) k' \<and> same_kernel k k'"
proof -
  let ?t = "current k cpu"
  have T: "timers_ok C W k" and s: "sched C {} {} k" using k by (simp_all add: kinv_def)
  have i: "timers_sorted k" using T by (simp add: timers_ok_def)
  obtain k' where k': "(if timeout \<noteq> INFINITE_TIME then timer_cancel cpu (stack_timer ?t) k else Some k) = Some k'"
    "same_kernel k k'" "timers_sorted k'" "\<And>u. u \<noteq> stack_timer ?t \<Longrightarrow> tmr k' u = tmr k u"
    "\<not> tm_linked (tmr k' (stack_timer ?t))"
  proof (cases "timeout = INFINITE_TIME")
    case True
    then have "\<not> tm_linked (tmr k (stack_timer ?t))"
      using T w kinv_running(1) [OF k cpu] by (auto simp: timers_ok_def)
    then show ?thesis using True i by (intro that [of k]) (simp_all add: same_kernel_def)
  next
    case False
    then have "tm_magic (tmr k (stack_timer ?t)) = TIMER_MAGIC" using T w by (auto simp: timers_ok_def)
    then obtain k' where "timer_cancel cpu (stack_timer ?t) k = Some k'" "same_kernel k k'" "timers_sorted k'"
      "\<And>u. u \<noteq> stack_timer ?t \<Longrightarrow> tmr k' u = tmr k u" "\<not> tm_linked (tmr k' (stack_timer ?t))"
      using timer_cancel_kernel [OF i] by metis
    then show ?thesis using False by (intro that [of k']) simp_all
  qed
  have e: "thr k' = thr k" "current k' = current k" using k'(2) by (simp_all add: same_kernel_def)
  have "timers_ok C (W(?t := None)) k'"
  proof -
    have "tmr k' (preempt_timer c) = tmr k (preempt_timer c)" "tmr k' (timer_obj n) = tmr k (timer_obj n)"
      "u \<noteq> ?t \<Longrightarrow> tmr k' (stack_timer u) = tmr k (stack_timer u)" for c n u
      using k'(4) by simp_all
    then show ?thesis using T k'(3,5) unfolding timers_ok_def e by (auto split: if_splits)
  qed
  then have "kinv C (W(?t := None)) k'" using s sched_same_kernel [OF k'(2)] by (simp add: kinv_def)
  moreover have "wait_queue_block_return cpu timeout k = Some (k', wait_queue_block_ret (thr k ?t))"
    using k'(1) by (simp add: wait_queue_block_return_def Let_def e)
  ultimately show ?thesis using k'(2) by simp
qed

section \<open>Waking threads\<close>

lemma mp_reschedule_frame: "\<exists>l. mp_reschedule cpu target flags k = k\<lparr>ipis_sent := l\<rparr>"
proof -
  have "\<exists>m. mp_reschedule cpu target flags k = (if m = 0 then k else k\<lparr>ipis_sent := ipis_sent k @ [m]\<rparr>)"
    unfolding mp_reschedule_def Let_def by (rule exI) (rule refl)
  then obtain m where m: "mp_reschedule cpu target flags k = (if m = 0 then k else k\<lparr>ipis_sent := ipis_sent k @ [m]\<rparr>)"
    by blast
  show ?thesis by (rule exI [of _ "if m = 0 then ipis_sent k else ipis_sent k @ [m]"]) (simp add: m)
qed

lemma wakeup_frame: "\<exists>l. wakeup_cpu_for_thread cpu t k = k\<lparr>ipis_sent := l\<rparr>"
  using mp_reschedule_frame unfolding wakeup_cpu_for_thread_def Let_def by (cases "pinned_cpu (thr k t) < 0") auto

lemma ipis_inv [simp]:
  "sched C D H (k\<lparr>ipis_sent := l\<rparr>) = sched C D H k" "timers_ok C W (k\<lparr>ipis_sent := l\<rparr>) = timers_ok C W k"
  "kinv C W (k\<lparr>ipis_sent := l\<rparr>) = kinv C W k"
proof -
  show a: "sched C D H (k\<lparr>ipis_sent := l\<rparr>) = sched C D H k" by (rule sched_cong) simp_all
  show b: "timers_ok C W (k\<lparr>ipis_sent := l\<rparr>) = timers_ok C W k" by (rule timers_ok_cong) simp_all
  have "sched C {} {} (k\<lparr>ipis_sent := l\<rparr>) = sched C {} {} k" by (rule sched_cong) simp_all
  with b show "kinv C W (k\<lparr>ipis_sent := l\<rparr>) = kinv C W k" by (simp add: kinv_def)
qed

lemma wakeup_simps [simp]:
  "sched C D H (wakeup_cpu_for_thread cpu t k) = sched C D H k"
  "timers_ok C W (wakeup_cpu_for_thread cpu t k) = timers_ok C W k"
  "kinv C W (wakeup_cpu_for_thread cpu t k) = kinv C W k"
  "thr (wakeup_cpu_for_thread cpu t k) = thr k" "current (wakeup_cpu_for_thread cpu t k) = current k"
  "run_queue (wakeup_cpu_for_thread cpu t k) = run_queue k" "wq (wakeup_cpu_for_thread cpu t k) = wq k"
  "tmr (wakeup_cpu_for_thread cpu t k) = tmr k" "timer_queue (wakeup_cpu_for_thread cpu t k) = timer_queue k"
  "current_time (wakeup_cpu_for_thread cpu t k) = current_time k"
  using wakeup_frame [of cpu t k] by auto

lemma mp_reschedule_simps [simp]:
  "sched C D H (mp_reschedule cpu m fl k) = sched C D H k"
  "timers_ok C W (mp_reschedule cpu m fl k) = timers_ok C W k"
  "kinv C W (mp_reschedule cpu m fl k) = kinv C W k"
  "thr (mp_reschedule cpu m fl k) = thr k" "current (mp_reschedule cpu m fl k) = current k"
  "run_queue (mp_reschedule cpu m fl k) = run_queue k" "wq (mp_reschedule cpu m fl k) = wq k"
  using mp_reschedule_frame [of cpu m fl k] by auto

text \<open>The state in which \<open>t\<close> has left the wait queue \<open>w\<close>, whose list is now \<open>ts\<close>.\<close>

definition unwait :: "wq_id \<Rightarrow> thread_id \<Rightarrow> thread_id list \<Rightarrow> status_t \<Rightarrow> kstate \<Rightarrow> kstate" where
  "unwait w t ts e k = thr_upd t (\<lambda>x. x\<lparr>t_queued := False, t_state := THREAD_READY,
       wait_queue_block_ret := e, blocking_wait_queue := None\<rparr>)
     (wq_upd w (\<lambda>x. x\<lparr>wq_list := ts, wq_count := wq_count x - 1\<rparr>) k)"

lemma unwait_simps [simp]:
  "current (unwait w t ts e k) = current k" "run_queue (unwait w t ts e k) = run_queue k"
  "tmr (unwait w t ts e k) = tmr k" "timer_queue (unwait w t ts e k) = timer_queue k"
  "current_time (unwait w t ts e k) = current_time k"
  "thr (unwait w t ts e k) u = (if u = t then (thr k t)\<lparr>t_queued := False, t_state := THREAD_READY,
       wait_queue_block_ret := e, blocking_wait_queue := None\<rparr> else thr k u)"
  "wq (unwait w t ts e k) v = (if v = w then (wq k w)\<lparr>wq_list := ts, wq_count := wq_count (wq k w) - 1\<rparr> else wq k v)"
  by (simp_all add: unwait_def)

lemma timers_ok_unwait:
  assumes T: "timers_ok C W k" and b: "t_state (thr k t) = THREAD_BLOCKED"
  shows "timers_ok C W (unwait w t ts e k)"
proof -
  have "timers_ok C W (wq_upd w g k)" for g using T by (subst timers_ok_cong [of _ k]) simp_all
  moreover have "W t \<noteq> None \<Longrightarrow> live (thr k t) \<and> \<not> thread_is_idle (thr k t)"
    using T by (auto simp: timers_ok_def)
  ultimately show ?thesis unfolding unwait_def using b
    by (intro timers_ok_upd) (simp_all add: thread_is_real_time_or_idle_def)
qed

lemma unwait_ok:
  assumes s: "sched C D H k" and T: "timers_ok C W k" and t: "t \<in> set (wq_list (wq k w))"
    and ts: "distinct ts" "set ts = set (wq_list (wq k w)) - {t}"
  shows "sched C D (insert t H) (unwait w t ts e k)" "in_hand (thr (unwait w t ts e k) t)"
    "timers_ok C W (unwait w t ts e k)" "t_state (thr k t) = THREAD_BLOCKED"
proof -
  show b: "t_state (thr k t) = THREAD_BLOCKED"
    using in_wait_queue [OF sched_queues [OF s]] t by blast
  show "sched C D (insert t H) (unwait w t ts e k)" "in_hand (thr (unwait w t ts e k) t)"
    using sched_wq_remove [OF s t ts, of "unwait w t ts e k" e] by (simp_all add: unwait_def)
  show "timers_ok C W (unwait w t ts e k)" using T b by (rule timers_ok_unwait)
qed

lemma thr_upd_twice: "thr_upd t g (thr_upd t f k) = thr_upd t (\<lambda>x. g (f x)) k"
  by (simp add: thr_upd_def)

lemma thr_upd_unwait_commute:
  "u \<noteq> t \<Longrightarrow> thr_upd u f (unwait w t ts e k) = unwait w t ts e (thr_upd u f k)"
  by (simp add: unwait_def thr_upd_def wq_upd_def fun_upd_twist)

text \<open>
  Before waking others, the running thread may be put at the head of its run queue: the
  wait queues are as before.
\<close>

lemma requeue_self:
  assumes k: "kinv C W k" and cpu: "cpu \<in> C" and ni: "\<not> thread_is_idle (thr k (current k cpu))"
    and k1: "k1 = thr_upd (current k cpu) (\<lambda>x. x\<lparr>t_state := THREAD_READY\<rparr>) k"
  shows "sched C {cpu} {current k cpu} k1" "timers_ok C W k1" "in_hand (thr k1 (current k cpu))"
proof -
  note r = kinv_running [OF k cpu]
  note p = kinv_priority [OF k r(2)]
  note m = make_ready [OF k cpu refl, where f = "\<lambda>x. x\<lparr>t_state := THREAD_READY\<rparr>" and p = "priority (thr k (current k cpu))"]
  show "sched C {cpu} {current k cpu} k1" "timers_ok C W k1" "in_hand (thr k1 (current k cpu))"
    using m [OF _ _ _ k1] p ni by (simp_all add: same_sched_def)
qed

lemma wait_queue_wake_one_eq:
  assumes k: "kinv C W k" and m: "wq_magic (wq k w) = WAIT_QUEUE_MAGIC" and q: "wq_list (wq k w) = t # ts"
  shows "wait_queue_wake_one cpu w False e k = Some (wakeup_cpu_for_thread cpu t (rq_head t (unwait w t ts e k)), 1)"
    "kinv C W (rq_head t (unwait w t ts e k))"
proof -
  have s: "sched C {} {} k" and T: "timers_ok C W k" using k by (simp_all add: kinv_def)
  have d: "distinct ts" "set ts = set (wq_list (wq k w)) - {t}" "t \<in> set (wq_list (wq k w))"
    using wq_distinct [OF sched_queues [OF s], of w] q by auto
  note u = unwait_ok(1-3) [OF s T d(3,1,2), of e] unwait_ok(4) [OF s T d(3,1,2)]
  note h = sched_rq_head [OF u(1,2)]
  show "kinv C W (rq_head t (unwait w t ts e k))" using h(1) u(3) by (simp add: kinv_def)
  show "wait_queue_wake_one cpu w False e k = Some (wakeup_cpu_for_thread cpu t (rq_head t (unwait w t ts e k)), 1)"
    using m q u(4) h(2) by (simp add: wait_queue_wake_one_def Let_def thr_upd_twice flip: unwait_def)
qed

lemma kinv_wq_current:
  assumes "kinv C W k" "cpu \<in> C"
  shows "current k cpu \<notin> set (wq_list (wq k w))"
  using in_wait_queue [of k "current k cpu" w] kinv_running(3) [OF assms] assms(1) by (simp add: kinv_def sched_def)

lemma wait_queue_wake_one_resched_ok:
  assumes k: "kinv C W k" and cpu: "cpu \<in> C" and ni: "\<not> thread_is_idle (thr k (current k cpu))"
    and m: "wq_magic (wq k w) = WAIT_QUEUE_MAGIC" and q: "wq_list (wq k w) = t # ts"
  shows "\<exists>k'. wait_queue_wake_one cpu w True e k = Some (k', 1) \<and> kinv C W k'"
proof -
  let ?c = "current k cpu"
  define k1 where "k1 = thr_upd ?c (\<lambda>x. x\<lparr>t_state := THREAD_READY\<rparr>) k"
  note r = requeue_self [OF k cpu ni k1_def]
  have wq1: "wq k1 = wq k" "current k1 = current k" by (simp_all add: k1_def)
  have ne: "?c \<noteq> t" using kinv_wq_current [OF k cpu, of w] q by auto
  have d: "distinct ts" "set ts = set (wq_list (wq k1 w)) - {t}" "t \<in> set (wq_list (wq k1 w))"
    using wq_distinct [OF sched_queues [OF r(1)], of w] q by (auto simp: wq1)
  note u = unwait_ok(1-3) [OF r(1,2) d(3,1,2), of e] unwait_ok(4) [OF r(1,2) d(3,1,2)]
  have c1: "in_hand (thr (unwait w t ts e k1) ?c)" using r(3) ne by simp
  note h1 = sched_rq_head [OF u(1) c1]
  have "in_hand (thr (rq_head ?c (unwait w t ts e k1)) t)" using u(2) ne by simp
  note h2 = sched_rq_head [OF h1(1) this]
  let ?k2 = "rq_head t (rq_head ?c (unwait w t ts e k1))"
  have s2: "sched C {cpu} {} ?k2"
  proof -
    have "insert t {?c} - {?c} - {t} = {}" by auto
    then show ?thesis using h2(1) by (simp only:)
  qed
  have T2: "timers_ok C W ?k2" using u(3) by simp
  have b: "t_state (thr k t) = THREAD_BLOCKED" using u(4) ne by (simp add: k1_def)
  have "wait_queue_wake_one cpu w True e k =
      Option.bind (thread_resched cpu (wakeup_cpu_for_thread cpu t ?k2)) (\<lambda>k. Some (k, 1))"
    using m q b h1(2) h2(2) thr_upd_unwait_commute [OF ne, of "\<lambda>x. x\<lparr>t_state := THREAD_READY\<rparr>" w ts e k]
    by (simp add: wait_queue_wake_one_def Let_def thr_upd_twice flip: unwait_def k1_def)
  moreover have "t_state (thr ?k2 ?c) \<noteq> THREAD_RUNNING" using ne by (simp add: k1_def)
  moreover obtain k' where "thread_resched cpu (wakeup_cpu_for_thread cpu t ?k2) = Some k'" "kinv C W k'"
    using resched_kinv [of C cpu "wakeup_cpu_for_thread cpu t ?k2" W] s2 T2 cpu wq1(2) calculation(2)
    by (metis rq_simps(1) unwait_simps(1) wakeup_simps(1,2,4,5))
  ultimately show ?thesis by simp
qed

text \<open>
  The loop of \<^verbatim>\<open>wait_queue_wake_all\<close>. The threads come off the tail and go to the head of
  their run queues, so each run queue gets its threads in the order they waited.
\<close>

lemma wake_all_loop_ok:
  assumes "sched C D H k" and "timers_ok C W k" and "wq_list (wq k w) = rev ts"
  shows "\<exists>k' m. wake_all_loop w e ts cpu_mask k = Some (k', m) \<and> sched C D H k' \<and> timers_ok C W k' \<and>
     current k' = current k \<and> wq_list (wq k' w) = [] \<and> wq_magic (wq k' w) = wq_magic (wq k w) \<and>
     (\<forall>v. v \<noteq> w \<longrightarrow> wq k' v = wq k v) \<and>
     (\<forall>p. run_queue k' p = filter (\<lambda>t. priority (thr k t) = int p) (rev ts) @ run_queue k p) \<and>
     (\<forall>u. thr k' u = (if u \<in> set ts then (thr k u)\<lparr>t_queued := True, t_state := THREAD_READY,
        wait_queue_block_ret := e, blocking_wait_queue := None\<rparr> else thr k u))"
  using assms
proof (induction ts arbitrary: k cpu_mask)
  case Nil
  then show ?case by simp
next
  case (Cons t ts)
  note s = Cons.prems(1) and T = Cons.prems(2)
  have q: "wq_list (wq k w) = rev ts @ [t]" using Cons.prems(3) by simp
  have d: "distinct (rev ts)" "set (rev ts) = set (wq_list (wq k w)) - {t}" "t \<in> set (wq_list (wq k w))" "t \<notin> set ts"
    using wq_distinct [OF sched_queues [OF s], of w] q by auto
  have lv: "live (thr k t)" "t_queued (thr k t)"
    using in_wait_queue [OF sched_queues [OF s], of t w] d(3) sched_wf [OF s, of t] by (auto simp: thread_wf_def)
  note pr = sched_priority [OF s lv(1)]
  note u = unwait_ok(1-3) [OF s T d(3,1,2), of e] unwait_ok(4) [OF s T d(3,1,2)]
  let ?k1 = "rq_head t (unwait w t (rev ts) e k)"
  note h = sched_rq_head [OF u(1,2)]
  have s1: "sched C D H ?k1"
  proof -
    have "sched C D (insert t H - {t}) ?k1" by (rule h)
    moreover have "settled (thr ?k1 t)" by (simp add: settled_def)
    ultimately show ?thesis unfolding sched_def by blast
  qed
  have T1: "timers_ok C W ?k1" using u(3) by simp
  have q1: "wq_list (wq ?k1 w) = rev ts" by simp
  define m where "m = (if pinned_cpu (thr k t) < 0 then - 1 else cpu_mask OR shl1 (nat (pinned_cpu (thr k t))))"
  have step: "wake_all_loop w e (t # ts) cpu_mask k = wake_all_loop w e ts m ?k1"
    using u(4) h(2) q by (simp add: Let_def thr_upd_twice wq_upd_def [of w] m_def unwait_def)
  have rq1: "run_queue ?k1 p = (if priority (thr k t) = int p then t # run_queue k p else run_queue k p)" for p
    using pr by (auto simp: rq_head_def Let_def)
  have rq2: "filter (\<lambda>u. priority (thr ?k1 u) = int p) (rev ts) = filter (\<lambda>u. priority (thr k u) = int p) (rev ts)" for p
    using d(4) by (intro filter_cong) auto
  from Cons.IH [OF s1 T1 q1, of m] obtain k' n where ih: "wake_all_loop w e ts m ?k1 = Some (k', n)"
    "sched C D H k'" "timers_ok C W k'" "current k' = current ?k1" "wq_list (wq k' w) = []"
    "wq_magic (wq k' w) = wq_magic (wq ?k1 w)" "\<And>v. v \<noteq> w \<Longrightarrow> wq k' v = wq ?k1 v"
    "\<And>p. run_queue k' p = filter (\<lambda>t. priority (thr ?k1 t) = int p) (rev ts) @ run_queue ?k1 p"
    "\<And>u. thr k' u = (if u \<in> set ts then (thr ?k1 u)\<lparr>t_queued := True, t_state := THREAD_READY,
        wait_queue_block_ret := e, blocking_wait_queue := None\<rparr> else thr ?k1 u)" by blast
  have "run_queue k' p = filter (\<lambda>u. priority (thr k u) = int p) (rev (t # ts)) @ run_queue k p" for p
    using ih(8) [of p] unfolding rq1 rq2 by simp
  with ih(1-7,9) d(4) show ?case unfolding step by (intro exI [of _ k'] exI [of _ n]) auto
qed

lemma wq_count_length: "queues_ok k \<Longrightarrow> wq_count (wq k w) = int (length (wq_list (wq k w)))"
  by (simp add: queues_ok_def)

lemma wait_queue_wake_all_sched:
  assumes s: "sched C D {} k" and T: "timers_ok C W k" and m: "wq_magic (wq k w) = WAIT_QUEUE_MAGIC"
  shows "\<exists>k'. wait_queue_wake_all cpu w False e k = Some (k', int (length (wq_list (wq k w)))) \<and> sched C D {} k' \<and> timers_ok C W k' \<and>
     current k' = current k \<and> wq_list (wq k' w) = [] \<and> wq_magic (wq k' w) = WAIT_QUEUE_MAGIC \<and>
     (\<forall>v. v \<noteq> w \<longrightarrow> wq k' v = wq k v) \<and>
     (\<forall>p. run_queue k' p = filter (\<lambda>t. priority (thr k t) = int p) (wq_list (wq k w)) @ run_queue k p) \<and>
     (\<forall>u. thr k' u = (if u \<in> set (wq_list (wq k w)) then (thr k u)\<lparr>t_queued := True, t_state := THREAD_READY,
        wait_queue_block_ret := e, blocking_wait_queue := None\<rparr> else thr k u))"
proof -
  let ?ts = "rev (wq_list (wq k w))"
  obtain k1 n where k1: "wake_all_loop w e ?ts 0 k = Some (k1, n)" "sched C D {} k1" "timers_ok C W k1"
    "current k1 = current k" "wq_list (wq k1 w) = []" "wq_magic (wq k1 w) = wq_magic (wq k w)"
    "\<And>v. v \<noteq> w \<Longrightarrow> wq k1 v = wq k v"
    "\<And>p. run_queue k1 p = filter (\<lambda>t. priority (thr k t) = int p) (rev ?ts) @ run_queue k p"
    "\<And>u. thr k1 u = (if u \<in> set ?ts then (thr k u)\<lparr>t_queued := True, t_state := THREAD_READY,
        wait_queue_block_ret := e, blocking_wait_queue := None\<rparr> else thr k u)"
    using wake_all_loop_ok [OF s T, of w ?ts e 0] by auto
  have c: "wq_count (wq k1 w) = 0" using wq_count_length [OF sched_queues [OF k1(2)], of w] k1(5) by simp
  define k2 where "k2 = (if wq_list (wq k w) = [] then k1 else mp_reschedule cpu n 0 k1)"
  have "wait_queue_wake_all cpu w False e k = Some (k2, int (length (wq_list (wq k w))))"
    using m k1(1) c by (simp add: wait_queue_wake_all_def Let_def k2_def)
  moreover have "sched C D {} k2" "timers_ok C W k2" using k1(2,3) by (simp_all add: k2_def)
  ultimately show ?thesis
    using k1(4-9) m by (intro exI [of _ k2]) (simp add: k2_def)
qed

lemma wait_queue_wake_all_ok:
  assumes k: "kinv C W k" and m: "wq_magic (wq k w) = WAIT_QUEUE_MAGIC"
  shows "\<exists>k'. wait_queue_wake_all cpu w False e k = Some (k', int (length (wq_list (wq k w)))) \<and> kinv C W k' \<and>
     current k' = current k \<and> wq_list (wq k' w) = [] \<and> wq_magic (wq k' w) = WAIT_QUEUE_MAGIC \<and>
     (\<forall>v. v \<noteq> w \<longrightarrow> wq k' v = wq k v) \<and>
     (\<forall>p. run_queue k' p = filter (\<lambda>t. priority (thr k t) = int p) (wq_list (wq k w)) @ run_queue k p) \<and>
     (\<forall>u. thr k' u = (if u \<in> set (wq_list (wq k w)) then (thr k u)\<lparr>t_queued := True, t_state := THREAD_READY,
        wait_queue_block_ret := e, blocking_wait_queue := None\<rparr> else thr k u))"
  using wait_queue_wake_all_sched [of C "{}" k W w cpu e] k m unfolding kinv_def by blast

lemma wait_queue_wake_all_resched_ok:
  assumes k: "kinv C W k" and cpu: "cpu \<in> C" and ni: "\<not> thread_is_idle (thr k (current k cpu))"
    and m: "wq_magic (wq k w) = WAIT_QUEUE_MAGIC"
  shows "\<exists>k'. wait_queue_wake_all cpu w True e k = Some (k', int (length (wq_list (wq k w)))) \<and> kinv C W k' \<and>
     wq_list (wq k' w) = [] \<and> wq_magic (wq k' w) = WAIT_QUEUE_MAGIC"
proof (cases "wq_list (wq k w) = []")
  case True
  have "wq_count (wq k w) = 0" using wq_count_length [of k w] True k by (simp add: kinv_def sched_def)
  then show ?thesis using k m True by (simp add: wait_queue_wake_all_def Let_def)
next
  case False
  let ?c = "current k cpu" and ?ts = "rev (wq_list (wq k w))"
  define k1 where "k1 = thr_upd ?c (\<lambda>x. x\<lparr>t_state := THREAD_READY\<rparr>) k"
  note r = requeue_self [OF k cpu ni k1_def]
  note h = sched_rq_head [OF r(1,3)]
  have s1: "sched C {cpu} {} (rq_head ?c k1)" and T1: "timers_ok C W (rq_head ?c k1)" using h(1) r(2) by simp_all
  have q1: "wq (rq_head ?c k1) = wq k" "current (rq_head ?c k1) = current k" "wq k1 = wq k" by (simp_all add: k1_def)
  have nin: "?c \<notin> set ?ts" using kinv_wq_current [OF k cpu, of w] by simp
  obtain k2 n where k2: "wake_all_loop w e ?ts 0 (rq_head ?c k1) = Some (k2, n)" "sched C {cpu} {} k2" "timers_ok C W k2"
    "current k2 = current k" "wq_list (wq k2 w) = []" "wq_magic (wq k2 w) = wq_magic (wq k w)"
    "thr k2 ?c = thr (rq_head ?c k1) ?c"
    using wake_all_loop_ok [OF s1 T1, of w ?ts e 0] q1 nin by auto
  have c: "wq_count (wq k2 w) = 0" using wq_count_length [OF sched_queues [OF k2(2)], of w] k2(5) by simp
  have c0: "wq_count (wq k w) > 0" using wq_count_length [of k w] False k by (simp add: kinv_def sched_def)
  have "t_state (thr k2 ?c) \<noteq> THREAD_RUNNING" using k2(7) by (simp add: k1_def)
  then obtain k' where k': "thread_resched cpu (mp_reschedule cpu n 0 k2) = Some k'" "kinv C W k'" "wq k' = wq k2"
    using resched_kinv [of C cpu "mp_reschedule cpu n 0 k2" W] k2(2-4) cpu
    by (metis mp_reschedule_simps(1,2,4,5,7))
  have "wait_queue_wake_all cpu w True e k = Some (k', int (length (wq_list (wq k w))))"
    using m c0 k2(1) c k'(1) False h(2) by (simp add: wait_queue_wake_all_def Let_def q1 flip: k1_def)
  then show ?thesis using k'(2,3) k2(5,6) m by simp
qed

lemma kinv_wq_magic:
  assumes "kinv C W k" "wq_list (wq k w) = []" and "\<And>t. w \<noteq> retcode_wait_queue t"
  shows "kinv C W (wq_upd w (\<lambda>x. x\<lparr>wq_magic := n\<rparr>) k)"
proof -
  have "timers_ok C W (wq_upd w (\<lambda>x. x\<lparr>wq_magic := n\<rparr>) k)"
    using assms(1) by (subst timers_ok_cong [of _ k]) (simp_all add: kinv_def)
  moreover have "queues_ok (wq_upd w (\<lambda>x. x\<lparr>wq_magic := n\<rparr>) k)"
  proof -
    have q: "queues_ok k" using assms(1) by (simp add: kinv_def sched_def)
    then have "\<not> (t_queued (thr k t) \<and> t_state (thr k t) = THREAD_BLOCKED \<and> blocking_wait_queue (thr k t) = Some w)" for t
      using in_wait_queue [OF q, of t w] assms(2) by simp
    then show ?thesis using q assms(2) unfolding queues_ok_def by simp
  qed
  moreover have "joinable (wq_upd w (\<lambda>x. x\<lparr>wq_magic := n\<rparr>) k)"
    using assms(1,3) by (auto simp: kinv_def sched_def joinable_def)
  ultimately show ?thesis using assms(1) by (simp add: kinv_def sched_def cpus_ok_def)
qed

lemma wait_queue_destroy_ok:
  assumes k: "kinv C W k" and m: "wq_magic (wq k w) = WAIT_QUEUE_MAGIC"
    and re: "reschedule \<longrightarrow> cpu \<in> C \<and> \<not> thread_is_idle (thr k (current k cpu))"
    and w: "w = wait_queue_at a"
  shows "\<exists>k'. wait_queue_destroy cpu w reschedule k = Some k' \<and> kinv C W k' \<and> wq_list (wq k' w) = [] \<and>
    wq_magic (wq k' w) = 0"
proof -
  obtain k' where k': "wait_queue_wake_all cpu w reschedule ERR_OBJECT_DESTROYED k = Some (k', int (length (wq_list (wq k w))))"
    "kinv C W k'" "wq_list (wq k' w) = []"
    using wait_queue_wake_all_ok [OF k m, of cpu "ERR_OBJECT_DESTROYED"]
      wait_queue_wake_all_resched_ok [OF k _ _ m, of cpu "ERR_OBJECT_DESTROYED"] re
    by (cases reschedule) auto
  then show ?thesis using m kinv_wq_magic [OF k'(2,3), of 0] w by (simp add: wait_queue_destroy_def)
qed

lemma thread_unblock_from_wait_queue_ok:
  assumes k: "kinv C W k" and l: "live (thr k t)"
  shows "\<exists>k' r. thread_unblock_from_wait_queue cpu t e k = Some (k', r) \<and> kinv C W k' \<and> tmr k' = tmr k \<and>
     timer_queue k' = timer_queue k \<and> current_time k' = current_time k"
proof (cases "t_state (thr k t) = THREAD_BLOCKED")
  case False
  then show ?thesis using k l by (simp add: thread_unblock_from_wait_queue_def live_def)
next
  case True
  have s: "sched C {} {} k" and T: "timers_ok C W k" using k by (simp_all add: kinv_def)
  have q: "t_queued (thr k t)" using sched_settled [OF s, of t] True l by (simp add: settled_def)
  then obtain w where w: "blocking_wait_queue (thr k t) = Some w"
    using sched_wf [OF s, of t] True by (auto simp: thread_wf_def)
  have tw: "t \<in> set (wq_list (wq k w))" using in_wait_queue [OF sched_queues [OF s]] True q w by blast
  then have m: "wq_magic (wq k w) = WAIT_QUEUE_MAGIC"
    using sched_queues [OF s] unfolding queues_ok_def by (metis empty_iff empty_set)
  let ?ts = "remove1 t (wq_list (wq k w))"
  have d: "distinct ?ts" "set ?ts = set (wq_list (wq k w)) - {t}"
    using wq_distinct [OF sched_queues [OF s], of w] by (simp_all add: set_remove1_eq)
  note u = unwait_ok(1-3) [OF s T tw d, of e]
  note h = sched_rq_head [OF u(1,2)]
  have "thr_upd t (\<lambda>x. x\<lparr>t_queued := False, blocking_wait_queue := None, t_state := THREAD_READY, wait_queue_block_ret := e\<rparr>)
      (wq_upd w (\<lambda>x. x\<lparr>wq_list := remove1 t (wq_list x), wq_count := wq_count x - 1\<rparr>) k) = unwait w t ?ts e k"
  proof -
    have "(\<lambda>x :: thread_t. x\<lparr>t_queued := False, blocking_wait_queue := None, t_state := THREAD_READY, wait_queue_block_ret := e\<rparr>) =
      (\<lambda>x. x\<lparr>t_queued := False, t_state := THREAD_READY, wait_queue_block_ret := e, blocking_wait_queue := None\<rparr>)"
      by (rule ext) simp
    moreover have "wq_upd w (\<lambda>x. x\<lparr>wq_list := remove1 t (wq_list x), wq_count := wq_count x - 1\<rparr>) k =
      wq_upd w (\<lambda>x. x\<lparr>wq_list := ?ts, wq_count := wq_count x - 1\<rparr>) k"
      by (simp add: wq_upd_def)
    ultimately show ?thesis by (simp only: unwait_def)
  qed
  then have "thread_unblock_from_wait_queue cpu t e k =
      Some (wakeup_cpu_for_thread cpu t (rq_head t (unwait w t ?ts e k)), 0)"
    using True l q w m h(2) by (simp add: thread_unblock_from_wait_queue_def live_def Let_def)
  moreover have "kinv C W (rq_head t (unwait w t ?ts e k))" using h(1) u(3) by (simp add: kinv_def)
  ultimately show ?thesis by simp
qed

section \<open>The timer interrupt\<close>

lemma timer_list_delete_time: "current_time (timer_list_delete t k) = current_time k"
  by (simp add: timer_simps)

lemma kinv_timer_list_delete:
  assumes "kinv C W k"
  shows "kinv C W (timer_list_delete t k)" (is "kinv C W ?k")
proof -
  have T: "timers_ok C W k" and s: "sched C {} {} k" using assms by (simp_all add: kinv_def)
  have i: "timers_sorted ?k"
    using T by (simp add: timers_ok_def timers_sorted_def timer_inv_delete sorted_queue_delete timer_list_delete_time)
  have e: "thr ?k = thr k" "current ?k = current k"
    "tm_magic (tmr ?k u) = tm_magic (tmr k u)" "tm_callback (tmr ?k u) = tm_callback (tmr k u)"
    "tm_arg (tmr ?k u) = tm_arg (tmr k u)" "periodic_time (tmr ?k u) = periodic_time (tmr k u)" for u
    by (simp_all add: timer_simps)
  have l: "tm_linked (tmr ?k u) \<longleftrightarrow> tm_linked (tmr k u) \<and> u \<noteq> t" for u by (simp add: timer_simps)
  have "timers_ok C W ?k" using T i unfolding timers_ok_def e l by auto
  moreover have "sched C {} {} ?k = sched C {} {} k" by (rule sched_cong) (simp_all add: timer_simps)
  ultimately show ?thesis using s by (simp add: kinv_def)
qed

lemma make_runnable_ok:
  assumes k: "kinv C W k" and t: "live (thr k t)"
    and st: "t_state (thr k t) = THREAD_SUSPENDED \<or>
      t_state (thr k t) = THREAD_SLEEPING \<and> \<not> tm_linked (tmr k (stack_timer t))"
    and k1: "k1 = thr_upd t (\<lambda>x. x\<lparr>t_state := THREAD_READY\<rparr>) k"
  shows "insert_in_run_queue_head t k1 = Some (rq_head t k1)" "kinv C W (rq_head t k1)"
proof -
  have s: "sched C {} {} k" and T: "timers_ok C W k" using k by (simp_all add: kinv_def)
  have wf: "\<not> t_queued (thr k t)" "\<not> thread_is_idle (thr k t)"
    using sched_wf [OF s, of t] t st by (auto simp: thread_wf_def)
  have bl: "blocking_wait_queue (thr k t) = None"
    using sched_settled [OF s, of t] t st by (auto simp: settled_def)
  have nc: "c \<in> C \<Longrightarrow> current k c \<noteq> t" for c using kinv_running(1) [OF k, of c] st by auto
  have ih: "in_hand (thr k1 t)" using t wf bl by (simp add: k1 in_hand_def)
  have "sched C {} {t} k1" unfolding k1
  proof (rule sched_upd [OF s])
    show "thread_wf ((thr k t)\<lparr>t_state := THREAD_READY\<rparr>)"
      using sched_wf [OF s, of t] t wf by (auto simp: thread_wf_def padding_ok_def)
    show "padding_ok ((thr k t)\<lparr>t_state := THREAD_READY\<rparr>)"
      using sched_wf [OF s, of t] t by (simp add: thread_wf_def padding_ok_def)
    show "t_state ((thr k t)\<lparr>t_state := THREAD_READY\<rparr>) = THREAD_RUNNING \<and> live ((thr k t)\<lparr>t_state := THREAD_READY\<rparr>)"
      if "c \<in> C" "current k c = t" for c using nc that by blast
  qed (use wf t in auto)
  note h = sched_rq_head [OF this ih]
  have "timers_ok C W k1"
  proof (rule timers_ok_threads [OF T])
    show "\<not> thread_is_real_time_or_idle (thr k1 (current k1 c))" if "tm_linked (tmr k (preempt_timer c))" for c
      using T that by (auto simp: k1 timers_ok_def thread_is_real_time_or_idle_def)
    show "live (thr k1 u)" if "tm_linked (tmr k (stack_timer u))" for u
      using T that by (auto simp: k1 timers_ok_def)
    show "t_state (thr k1 u) = THREAD_SLEEPING"
      if "tm_linked (tmr k (stack_timer u))" "t_state (thr k u) = THREAD_SLEEPING" for u
      using that st by (auto simp: k1)
    show "live (thr k1 u) \<and> \<not> thread_is_idle (thr k1 u) \<and>
        t_state (thr k1 u) \<in> {THREAD_BLOCKED, THREAD_READY, THREAD_RUNNING}" if "W u \<noteq> None" for u
      using T that by (auto simp: k1 timers_ok_def)
  qed (simp_all add: k1)
  then show "kinv C W (rq_head t k1)" using h(1) by (simp add: kinv_def)
  show "insert_in_run_queue_head t k1 = Some (rq_head t k1)" by (rule h)
qed

lemma thread_sleep_handler_ok:
  assumes k: "kinv C W k" and t: "live (thr k t)" "t_state (thr k t) = THREAD_SLEEPING"
    and nl: "\<not> tm_linked (tmr k (stack_timer t))"
  shows "\<exists>k'. thread_sleep_handler t k = Some (k', INT_RESCHEDULE) \<and> kinv C W k' \<and>
     tmr k' = tmr k \<and> timer_queue k' = timer_queue k \<and> current_time k' = current_time k"
proof -
  let ?k1 = "thr_upd t (\<lambda>x. x\<lparr>t_state := THREAD_READY\<rparr>) k"
  note m = make_runnable_ok [OF k t(1) _ refl]
  have "thread_sleep_handler t k = Some (rq_head t ?k1, INT_RESCHEDULE)"
    using t nl m(1) by (simp add: thread_sleep_handler_def live_def Let_def)
  moreover have "kinv C W (rq_head t ?k1)" using m(2) t nl by simp
  moreover have "tmr (rq_head t ?k1) = tmr k" "timer_queue (rq_head t ?k1) = timer_queue k"
    "current_time (rq_head t ?k1) = current_time k" by simp_all
  ultimately show ?thesis by blast
qed

lemma wait_queue_timeout_handler_ok:
  assumes k: "kinv C W k" and t: "live (thr k t)"
  shows "\<exists>k' r. wait_queue_timeout_handler cpu t k = Some (k', r) \<and> kinv C W k' \<and>
     tmr k' = tmr k \<and> timer_queue k' = timer_queue k \<and> current_time k' = current_time k"
  using thread_unblock_from_wait_queue_ok [OF k t, of cpu ERR_TIMED_OUT] t
  by (auto simp: wait_queue_timeout_handler_def live_def)

lemma kinv_same_sched:
  assumes k: "kinv C W k" and f: "\<And>x. same_sched (f x) x"
  shows "kinv C W (thr_upd t f k)"
proof -
  have "sched C {} {} (thr_upd t f k) = sched C {} {} k"
    by (rule sched_cong) (simp_all add: f)
  moreover have "timers_ok C W (thr_upd t f k) = timers_ok C W k"
    using f [of "thr k t"] by (intro timers_ok_cong) (auto simp: same_sched_def)
  ultimately show ?thesis using k by (simp add: kinv_def)
qed

lemma thread_timer_tick_ok:
  assumes k: "kinv C W k" and "thread_timer_tick cpu k = (k', r)"
  shows "kinv C W k'" "tmr k' = tmr k" "timer_queue k' = timer_queue k" "current k' = current k"
    "current_time k' = current_time k" "t_flags (thr k' u) = t_flags (thr k u)"
  using assms(2) kinv_same_sched [OF k, of "\<lambda>x. x\<lparr>remaining_quantum := remaining_quantum x - 1\<rparr>" "current k cpu"] k
  by (auto simp: thread_timer_tick_def Let_def same_sched_def split: if_splits)

lemma kinv_requeue:
  assumes k: "kinv C W k" and c: "c \<in> C" "\<not> thread_is_real_time_or_idle (thr k (current k c))"
    and t: "\<not> tm_linked (tmr k (preempt_timer c))" "tm_callback (tmr k (preempt_timer c)) = Some thread_timer_tick_cb"
    and i': "timers_sorted (requeue_periodic d (preempt_timer c) now k)"
  shows "kinv C W (requeue_periodic d (preempt_timer c) now k)"
proof -
  let ?k = "requeue_periodic d (preempt_timer c) now k"
  have T: "timers_ok C W k" and s: "sched C {} {} k" using k by (simp_all add: kinv_def)
  have m: "tm_magic (tmr k (preempt_timer c)) = TIMER_MAGIC" using T c by (auto simp: timers_ok_def)
  define st where "st = (let p = periodic_time (tmr k (preempt_timer c)); st = scheduled_time (tmr k (preempt_timer c)) + p
     in if TIME_LT st now then now + p else st)"
  define k1 where "k1 = timer_upd (preempt_timer c) (\<lambda>x. x\<lparr>scheduled_time := st\<rparr>) k"
  have eq: "?k = insert_timer_in_queue d (preempt_timer c) k1"
    by (simp add: requeue_periodic_def Let_def st_def k1_def)
  have u: "tmr ?k (stack_timer u) = tmr k (stack_timer u)" "tmr ?k (timer_obj n) = tmr k (timer_obj n)"
    "b \<noteq> c \<Longrightarrow> tmr ?k (preempt_timer b) = tmr k (preempt_timer b)" for u n b
    by (simp_all add: eq k1_def timer_simps)
  have p: "tm_magic (tmr ?k (preempt_timer c)) = TIMER_MAGIC"
    "tm_callback (tmr ?k (preempt_timer c)) = Some thread_timer_tick_cb"
    using m t by (simp_all add: eq k1_def timer_simps)
  have e: "thr ?k = thr k" "current ?k = current k" by (simp_all add: eq k1_def timer_simps)
  have mg: "tm_magic (tmr ?k (preempt_timer b)) = TIMER_MAGIC" if "b \<in> C" for b
    using T that p(1) u(3) by (cases "b = c") (auto simp: timers_ok_def)
  have ln: "b \<in> C \<and> tm_callback (tmr ?k (preempt_timer b)) = Some thread_timer_tick_cb \<and>
      \<not> thread_is_real_time_or_idle (thr k (current k b))" if "tm_linked (tmr ?k (preempt_timer b))" for b
    using T that p(2) u(3) c by (cases "b = c") (auto simp: timers_ok_def)
  have "timers_ok C W ?k" using T i' mg ln unfolding timers_ok_def e u by simp
  moreover have "sched C {} {} ?k = sched C {} {} k" by (rule sched_cong) (simp_all add: eq k1_def timer_simps)
  ultimately show ?thesis using s by (simp add: kinv_def)
qed

text \<open>The queues after a periodic timer was put back are still in order.\<close>

lemma after_fire_sorted:
  assumes k: "timers_sorted k" and q: "timer_queue k c = t # q" and due: "off (current_time k) (tmr k t) \<le> 0"
    and k': "tmr k' = tmr (timer_list_delete t k)" "timer_queue k' = timer_queue (timer_list_delete t k)"
      "current_time k' = current_time k"
  shows "timers_sorted (after_fire c (current_time k) t k')" (is "timers_sorted ?k")
proof -
  have i: "timer_inv k" and so: "sorted_queue (current_time k) d k" for d using k by (simp_all add: timers_sorted_def)
  note a = after_fire_queue [OF i so [of c] q due k'(1,2)]
  have ct: "current_time ?k = current_time k"
    using k'(3) by (simp add: after_fire_def requeue_periodic_def timer_simps)
  have "sorted_queue (current_time k) d ?k" for d
  proof (cases "d = c")
    case True
    then show ?thesis using a(2) by simp
  next
    case False
    then have "t \<notin> set (timer_queue k d)" using i q unfolding timer_inv_def by fastforce
    then have "tmr ?k u = tmr k u" if "u \<in> set (timer_queue k d)" for u using a(7) [of u] that by metis
    then show ?thesis using so [of d] by (subst sorted_queue_cong [of _ _ k]) (simp_all add: a(6) [OF False])
  qed
  then show ?thesis using a(1) ct by (simp add: timers_sorted_def)
qed

lemma kernel_callback_quiet:
  assumes k: "kinv C W k" and now: "current_time k = now" and q: "timer_queue k c = t # q"
    and due: "off now (tmr k t) \<le> 0" and f: "tm_callback (tmr k t) = Some f"
  shows "\<exists>k' r. kernel_callback other cpu f t now (tm_arg (tmr k t)) (timer_list_delete t k) = Some (k', r) \<and>
     kinv C W (after_fire c now t k') \<and> current_time (after_fire c now t k') = now \<and>
     tmr k' = tmr (timer_list_delete t k) \<and> timer_queue k' = timer_queue (timer_list_delete t k)"
proof -
  let ?k = "timer_list_delete t k"
  have T: "timers_ok C W k" using k by (simp add: kinv_def)
  then have ts: "timers_sorted k" and i: "timer_inv k" by (simp_all add: timers_ok_def timers_sorted_def)
  have l: "tm_linked (tmr k t)" using timer_inv_linked [OF i] q by (metis list.set_intros(1))
  have kd: "kinv C W ?k" using k by (rule kinv_timer_list_delete)
  have e: "thr ?k = thr k" "current ?k = current k" "\<not> tm_linked (tmr ?k t)" "current_time ?k = current_time k"
    "tm_callback (tmr ?k u) = tm_callback (tmr k u)" "periodic_time (tmr ?k u) = periodic_time (tmr k u)" for u
    by (simp_all add: timer_simps)
  show ?thesis
  proof (cases t)
    case (preempt_timer d)
    have d: "d \<in> C" "f = thread_timer_tick_cb" "\<not> thread_is_real_time_or_idle (thr k (current k d))"
      using T l f unfolding timers_ok_def preempt_timer by auto
    obtain k' r where k': "thread_timer_tick cpu ?k = (k', r)" by fastforce
    note tk = thread_timer_tick_ok [OF kd k']
    have so: "timers_sorted (after_fire c now t k')"
      using after_fire_sorted [OF ts q _ tk(2,3)] due now tk(5) e(4) by simp
    have "kinv C W (after_fire c now t k')"
    proof (cases "0 < periodic_time (tmr k' t)")
      case True
      have "timers_sorted (requeue_periodic c t now k')" using so True by (simp add: after_fire_def)
      then have "kinv C W (requeue_periodic c t now k')" unfolding preempt_timer
      proof (rule kinv_requeue [OF tk(1) d(1), rotated 3])
        show "\<not> thread_is_real_time_or_idle (thr k' (current k' d))"
          using d(3) tk(4,6) e by (simp add: thread_is_real_time_or_idle_def)
        show "\<not> tm_linked (tmr k' (preempt_timer d))" using e(3) tk(2) preempt_timer by simp
        show "tm_callback (tmr k' (preempt_timer d)) = Some thread_timer_tick_cb"
          using e(5) tk(2) preempt_timer f d(2) by simp
      qed
      then show ?thesis using True by (simp add: after_fire_def)
    next
      case False
      then show ?thesis using tk(1) by (simp add: after_fire_def)
    qed
    moreover have "current_time (after_fire c now t k') = now"
      using tk(5) e(4) now by (simp add: after_fire_def requeue_periodic_def timer_simps)
    ultimately show ?thesis using k' tk(2,3) d(2) by (simp add: kernel_callback_def)
  next
    case (stack_timer u)
    have u: "live (thr k u)" "tm_arg (tmr k t) = Some u" "periodic_time (tmr k t) = 0"
      "f = thread_sleep_handler_cb \<and> t_state (thr k u) = THREAD_SLEEPING \<or> f = wait_queue_timeout_handler_cb"
      using T l f unfolding timers_ok_def stack_timer by auto
    have p: "periodic_time (tmr ?k t) = 0" using u(3) e(6) by simp
    from u(4) have "\<exists>k' r. kernel_callback other cpu f t now (tm_arg (tmr k t)) ?k = Some (k', r) \<and> kinv C W k' \<and>
        tmr k' = tmr ?k \<and> timer_queue k' = timer_queue ?k \<and> current_time k' = current_time ?k"
    proof
      assume a: "f = thread_sleep_handler_cb \<and> t_state (thr k u) = THREAD_SLEEPING"
      then show ?thesis
        using thread_sleep_handler_ok [OF kd, of u] u(1,2) e stack_timer by (auto simp: kernel_callback_def)
    next
      assume a: "f = wait_queue_timeout_handler_cb"
      then show ?thesis
        using wait_queue_timeout_handler_ok [OF kd, of u cpu] u(1,2) e by (auto simp: kernel_callback_def)
    qed
    then obtain k' r where k': "kernel_callback other cpu f t now (tm_arg (tmr k t)) ?k = Some (k', r)" "kinv C W k'"
        "tmr k' = tmr ?k" "timer_queue k' = timer_queue ?k" "current_time k' = current_time ?k" by blast
    then have "after_fire c now t k' = k'" using p by (simp add: after_fire_def)
    then show ?thesis using k' now e(4) by auto
  next
    case (timer_obj n)
    then show ?thesis using T l by (auto simp: timers_ok_def)
  qed
qed

interpretation kernel_timers: quiet_callbacks
  "kernel_callback other cpu" "\<lambda>k. kinv C W k \<and> current_time k = now" c now for other cpu C W c now
  by unfold_locales (use kernel_callback_quiet in blast)

section \<open>Sleeping threads wake up\<close>

text \<open>What a timer callback does to a thread that sleeps or is ready.\<close>

lemma sleep_handler_states:
  "thread_sleep_handler t k = Some (k', r) \<Longrightarrow>
     t_state (thr k' u) = (if u = t then THREAD_READY else t_state (thr k u)) \<and> live (thr k' u) = live (thr k u)"
  by (auto simp: thread_sleep_handler_def insert_in_run_queue_head_def Let_def split: if_splits)

lemma timeout_handler_states:
  "wait_queue_timeout_handler cpu t k = Some (k', r) \<Longrightarrow> t_state (thr k u) \<noteq> THREAD_BLOCKED \<Longrightarrow>
     t_state (thr k' u) = t_state (thr k u) \<and> live (thr k' u) = live (thr k u)"
  by (auto simp: wait_queue_timeout_handler_def thread_unblock_from_wait_queue_def insert_in_run_queue_head_def Let_def
      split: if_splits option.splits)

lemma timer_tick_states:
  "thread_timer_tick cpu k = (k', r) \<Longrightarrow>
     t_state (thr k' u) = t_state (thr k u) \<and> live (thr k' u) = live (thr k u)"
  by (auto simp: thread_timer_tick_def Let_def split: if_splits)

definition asleep_or_woken :: "thread_id \<Rightarrow> kstate \<Rightarrow> bool" where
  "asleep_or_woken u k \<longleftrightarrow> live (thr k u) \<and> (t_state (thr k u) = THREAD_READY \<or>
     t_state (thr k u) = THREAD_SLEEPING \<and> tm_linked (tmr k (stack_timer u)))"

lemma after_fire_frame:
  "thr (after_fire c now t k) = thr k"
  "tm_linked (tmr k x) \<Longrightarrow> tm_linked (tmr (after_fire c now t k) x)"
  by (simp_all add: after_fire_def requeue_periodic_def timer_simps Let_def)

lemma kernel_callback_wakes:
  assumes k: "kinv C W k" and a: "asleep_or_woken u k" and now: "current_time k = now" and q: "timer_queue k c = t # q"
    and f: "tm_callback (tmr k t) = Some f"
    and r: "kernel_callback other cpu f t now (tm_arg (tmr k t)) (timer_list_delete t k) = Some (k', r)"
    and tm: "tmr k' = tmr (timer_list_delete t k)"
  shows "asleep_or_woken u (after_fire c now t k')"
proof -
  have T: "timers_ok C W k" using k by (simp add: kinv_def)
  then have "timer_inv k" by (simp add: timers_ok_def timers_sorted_def)
  then have l: "tm_linked (tmr k t)" using timer_inv_linked q by (metis list.set_intros(1))
  have th: "thr (timer_list_delete t k) = thr k" by (simp add: timer_simps)
  have nt: "tm_linked (tmr (timer_list_delete t k) x) = (x \<noteq> t \<and> tm_linked (tmr k x))" for x by (simp add: timer_simps)
  have s: "t_state (thr k u) = THREAD_READY \<or> t_state (thr k u) = THREAD_SLEEPING" using a by (auto simp: asleep_or_woken_def)
  consider (tick) d where "t = preempt_timer d" "f = thread_timer_tick_cb"
    | (sleep) v where "t = stack_timer v" "f = thread_sleep_handler_cb" "tm_arg (tmr k t) = Some v"
    | (wait) v where "t = stack_timer v" "f = wait_queue_timeout_handler_cb" "tm_arg (tmr k t) = Some v" "W v \<noteq> None"
    using T l f unfolding timers_ok_def by (cases t) auto
  then show ?thesis
  proof cases
    case tick
    then have "thread_timer_tick cpu (timer_list_delete t k) = (k', r)" using r by (simp add: kernel_callback_def)
    from timer_tick_states [OF this, of u] show ?thesis
      using a tick th nt tm after_fire_frame(2) [of k' "stack_timer u" c now t]
      by (auto simp: asleep_or_woken_def after_fire_frame(1))
  next
    case sleep
    then have "thread_sleep_handler v (timer_list_delete t k) = Some (k', r)" using r by (simp add: kernel_callback_def)
    from sleep_handler_states [OF this, of u] show ?thesis
      using a sleep th nt tm after_fire_frame(2) [of k' "stack_timer u" c now t]
      by (auto simp: asleep_or_woken_def after_fire_frame(1))
  next
    case wait
    then have w: "wait_queue_timeout_handler cpu v (timer_list_delete t k) = Some (k', r)"
      using r by (simp add: kernel_callback_def)
    have st: "t_state (thr k' u) = t_state (thr k u)" "live (thr k' u) = live (thr k u)"
      using timeout_handler_states [OF w, of u] s th by auto
    obtain timeout where "W v = Some timeout" using wait(4) by blast
    with T have "t_state (thr k v) \<in> {THREAD_BLOCKED, THREAD_READY, THREAD_RUNNING}" unfolding timers_ok_def by blast
    then have "v = u \<Longrightarrow> t_state (thr k u) \<noteq> THREAD_SLEEPING" by auto
    then show ?thesis
      using a st wait(1) nt [of "stack_timer u"] tm after_fire_frame(2) [of k' "stack_timer u" c now t]
      unfolding asleep_or_woken_def after_fire_frame(1) by auto
  qed
qed

interpretation sleeper_timers: quiet_callbacks
  "kernel_callback other cpu" "\<lambda>k. kinv C W k \<and> current_time k = now \<and> asleep_or_woken u k" c now
  for other cpu C W u c now
proof (unfold_locales, goal_cases)
  case (1 s t q f)
  obtain s' r where "kernel_callback other cpu f t now (tm_arg (tmr s t)) (timer_list_delete t s) = Some (s', r)"
      "kinv C W (after_fire c now t s')" "current_time (after_fire c now t s') = now"
      "tmr s' = tmr (timer_list_delete t s)" "timer_queue s' = timer_queue (timer_list_delete t s)"
    using kernel_callback_quiet [of C W s now c t q f other cpu] 1 by blast
  moreover from this have "asleep_or_woken u (after_fire c now t s')"
    using kernel_callback_wakes [of C W s u now c t q f other cpu s' r] 1 by blast
  ultimately show ?case by blast
qed

end
