(* ===== verification/Lifecycle.thy ===== *)
theory Lifecycle
  imports Sched
begin

text \<open>
  Threads from creation to join: that \<^verbatim>\<open>thread_create_etc\<close>, \<^verbatim>\<open>thread_resume\<close>,
  \<^verbatim>\<open>thread_exit\<close>, \<^verbatim>\<open>thread_join\<close>, \<^verbatim>\<open>thread_detach\<close> and
  \<^verbatim>\<open>thread_set_real_time\<close> keep the scheduler's invariant; the kernel as a transition
  system whose steps are the operations of \<^verbatim>\<open>kernel/thread.c\<close>; and the properties of the
  scheduler and of the wait queues.
\<close>

section \<open>Flags\<close>

text \<open>
  The invariant reads two of a thread's flags, \<open>FLAG_IDLE\<close> and the stack check, so the
  others may change at any time.
\<close>

definition same_sched_flags :: "thread_t \<Rightarrow> thread_t \<Rightarrow> bool" where
  "same_sched_flags x y \<longleftrightarrow> same_sched x (y\<lparr>t_flags := t_flags x\<rparr>) \<and>
     bit (t_flags x) FLAG_IDLE = bit (t_flags y) FLAG_IDLE \<and>
     bit (t_flags x) FLAG_DEBUG_STACK_BOUNDS_CHECK = bit (t_flags y) FLAG_DEBUG_STACK_BOUNDS_CHECK"

lemma same_sched_flags_preds:
  assumes "same_sched_flags x y"
  shows "live x = live y" "thread_wf x = thread_wf y" "settled x = settled y" "padding_ok x = padding_ok y"
    "thread_is_idle x = thread_is_idle y" "t_state x = t_state y" "t_queued x = t_queued y"
    "priority x = priority y" "blocking_wait_queue x = blocking_wait_queue y"
  using assms
  by (simp_all add: same_sched_flags_def same_sched_def live_def thread_wf_def settled_def padding_ok_def
      thread_is_idle_def)

lemma sched_flags_cong:
  assumes "\<And>t. same_sched_flags (thr k' t) (thr k t)" "run_queue k' = run_queue k"
    "run_queue_bitmap k' = run_queue_bitmap k" "wq k' = wq k" "current k' = current k"
  shows "sched C D H k' = sched C D H k"
  unfolding sched_def queues_ok_def cpus_ok_def joinable_def assms(2-) same_sched_flags_preds [OF assms(1)]
  by (rule refl)

lemma kinv_flag:
  assumes k: "kinv C W k" and f: "\<And>x. f x = x\<lparr>t_flags := g (t_flags x)\<rparr>"
    and g: "\<And>w. bit (g w) FLAG_IDLE = bit w FLAG_IDLE"
      "\<And>w. bit (g w) FLAG_DEBUG_STACK_BOUNDS_CHECK = bit w FLAG_DEBUG_STACK_BOUNDS_CHECK"
    and rt: "\<And>c. tm_linked (tmr k (preempt_timer c)) \<Longrightarrow> current k c = t \<Longrightarrow>
        bit (g (t_flags (thr k t))) FLAG_REAL_TIME = bit (t_flags (thr k t)) FLAG_REAL_TIME"
  shows "kinv C W (thr_upd t f k)"
proof -
  have T: "timers_ok C W k" and s: "sched C {} {} k" using k by (simp_all add: kinv_def)
  have fl: "same_sched_flags (thr (thr_upd t f k) u) (thr k u)" for u
    using g by (simp add: same_sched_flags_def f same_sched_def)
  have "sched C {} {} (thr_upd t f k) = sched C {} {} k" by (rule sched_flags_cong [OF fl]) simp_all
  moreover have "timers_ok C W (thr_upd t f k)"
  proof (rule timers_ok_threads [OF T])
    show "\<not> thread_is_real_time_or_idle (thr (thr_upd t f k) (current (thr_upd t f k) c))"
      if "tm_linked (tmr k (preempt_timer c))" for c
    proof -
      have "\<not> thread_is_real_time_or_idle (thr k (current k c))" using T that by (auto simp: timers_ok_def)
      then show ?thesis using rt [OF that] g by (auto simp: f thread_is_real_time_or_idle_def)
    qed
    show "live (thr (thr_upd t f k) u)" if "tm_linked (tmr k (stack_timer u))" for u
      using T that same_sched_flags_preds(1) [OF fl] by (auto simp: timers_ok_def)
    show "t_state (thr (thr_upd t f k) u) = THREAD_SLEEPING" if "t_state (thr k u) = THREAD_SLEEPING" for u
      using that same_sched_flags_preds(6) [OF fl] by simp
    show "live (thr (thr_upd t f k) u) \<and> \<not> thread_is_idle (thr (thr_upd t f k) u) \<and>
        t_state (thr (thr_upd t f k) u) \<in> {THREAD_BLOCKED, THREAD_READY, THREAD_RUNNING}" if "W u \<noteq> None" for u
      unfolding same_sched_flags_preds [OF fl] using T that by (auto simp: timers_ok_def)
  qed simp_all
  ultimately show ?thesis using s by (simp add: kinv_def)
qed

section \<open>Operations\<close>

lemma waiting_thread:
  "timers_ok C W k \<Longrightarrow> W t \<noteq> None \<Longrightarrow> live (thr k t) \<and> \<not> thread_is_idle (thr k t) \<and>
     t_state (thr k t) \<in> {THREAD_BLOCKED, THREAD_READY, THREAD_RUNNING}"
  unfolding timers_ok_def by blast

lemma waiting_states:
  "timers_ok C W k \<Longrightarrow> W t = Some timeout \<Longrightarrow> t_state (thr k t) \<in> {THREAD_BLOCKED, THREAD_READY, THREAD_RUNNING}"
  by (simp add: timers_ok_def)

lemma kinv_frame:
  "kinv C W (k\<lparr>thread_list := l\<rparr>) = kinv C W k" "kinv C W (k\<lparr>freed := fr\<rparr>) = kinv C W k"
  "sched C D H (k\<lparr>thread_list := l\<rparr>) = sched C D H k" "sched C D H (k\<lparr>freed := fr\<rparr>) = sched C D H k"
  "timers_ok C W (k\<lparr>thread_list := l\<rparr>) = timers_ok C W k" "timers_ok C W (k\<lparr>freed := fr\<rparr>) = timers_ok C W k"
proof -
  show s: "sched C D H (k\<lparr>thread_list := l\<rparr>) = sched C D H k" "sched C D H (k\<lparr>freed := fr\<rparr>) = sched C D H k"
    for C D H k by (rule sched_cong; simp)+
  show t: "timers_ok C W (k\<lparr>thread_list := l\<rparr>) = timers_ok C W k" "timers_ok C W (k\<lparr>freed := fr\<rparr>) = timers_ok C W k"
    for C W k by (rule timers_ok_cong; simp)+
  show "kinv C W (k\<lparr>thread_list := l\<rparr>) = kinv C W k" "kinv C W (k\<lparr>freed := fr\<rparr>) = kinv C W k"
    by (simp_all add: kinv_def s t)
qed

lemma thread_resume_locked_ok:
  assumes k: "kinv C W k" and t: "live (thr k t)" "t_state (thr k t) \<noteq> THREAD_DEATH"
  shows "\<exists>k' r. thread_resume_locked cpu ints_disabled t k = Some (k', r) \<and> kinv C W k' \<and> current k' = current k"
proof (cases "t_state (thr k t) = THREAD_SUSPENDED")
  case True
  let ?k1 = "thr_upd t (\<lambda>x. x\<lparr>t_state := THREAD_READY\<rparr>) k"
  note m = make_runnable_ok [OF k t(1) disjI1 [OF True] refl]
  have "thread_resume_locked cpu ints_disabled t k =
      Some (wakeup_cpu_for_thread cpu t (rq_head t ?k1), \<not> ints_disabled)"
    using t True m(1) by (simp add: thread_resume_locked_def live_def)
  then show ?thesis using m(2) by simp
next
  case False
  then have "thread_resume_locked cpu ints_disabled t k = Some (wakeup_cpu_for_thread cpu t k, False)"
    using t by (simp add: thread_resume_locked_def live_def)
  then show ?thesis using k by (metis wakeup_simps(3,5))
qed

lemma thread_resume_ok:
  assumes k: "kinv C W k" and cpu: "cpu \<in> C" and t: "live (thr k t)" "t_state (thr k t) \<noteq> THREAD_DEATH"
  shows "\<exists>k'. thread_resume cpu ints_disabled t k = Some (k', NO_ERROR) \<and> kinv C W k'"
proof -
  obtain k1 r where k1: "thread_resume_locked cpu ints_disabled t k = Some (k1, r)" "kinv C W k1"
    using thread_resume_locked_ok [OF k t, of cpu ints_disabled] by blast
  then show ?thesis
    using thread_yield_ok [OF k1(2) cpu] by (cases r) (auto simp: thread_resume_def)
qed

text \<open>A dead thread is taken apart: its magic number goes, and so do its stack and structure.\<close>

lemma thread_join_dead_ok:
  assumes k: "kinv C W k" and t: "live (thr k t)" "t_state (thr k t) = THREAD_DEATH"
  shows "\<exists>k'. thread_join_dead t k = Some (k', NO_ERROR, Some (retcode (thr k t))) \<and> kinv C W k' \<and>
     current k' = current k \<and> \<not> live (thr k' t)"
proof -
  have s: "sched C {} {} k" and T: "timers_ok C W k" using k by (simp_all add: kinv_def)
  have q: "\<not> t_queued (thr k t)" "\<not> thread_is_idle (thr k t)" "padding_ok (thr k t)"
    using sched_wf [OF s, of t] t by (auto simp: thread_wf_def)
  have b: "blocking_wait_queue (thr k t) = None" using sched_settled [OF s, of t] t by (simp add: settled_def)
  have w: "W t = None" using waiting_states [OF T, of t] t by (cases "W t") auto
  define k1 where "k1 = thr_upd t (\<lambda>x. x\<lparr>t_magic := 0\<rparr>) k"
  have nl: "\<not> live ((thr k t)\<lparr>t_magic := 0\<rparr>)" by (simp add: live_def THREAD_MAGIC_def)
  have i: "thread_is_idle ((thr k t)\<lparr>t_magic := 0\<rparr>) = thread_is_idle (thr k t)" by (simp add: thread_is_idle_def)
  have "sched C {} {} k1" unfolding k1_def
  proof (rule sched_upd [OF s])
    show "thread_wf ((thr k t)\<lparr>t_magic := 0\<rparr>)" using q nl by (simp add: thread_wf_def)
    show "t \<in> {} \<or> settled ((thr k t)\<lparr>t_magic := 0\<rparr>)" using nl by (simp add: settled_def)
    show "padding_ok ((thr k t)\<lparr>t_magic := 0\<rparr>)" using q by (simp add: padding_ok_def)
    show "t_state ((thr k t)\<lparr>t_magic := 0\<rparr>) = THREAD_RUNNING \<and> live ((thr k t)\<lparr>t_magic := 0\<rparr>)"
      if "c \<in> C" "current k c = t" for c using kinv_running(1) [OF k that(1)] t that by simp
    show "live ((thr k t)\<lparr>t_magic := 0\<rparr>) \<and> (t_state ((thr k t)\<lparr>t_magic := 0\<rparr>) = THREAD_READY \<or>
        t_state ((thr k t)\<lparr>t_magic := 0\<rparr>) = THREAD_RUNNING)" if "c \<in> C" "t = idle_thread c" for c
      using s that q(2) by (auto simp: sched_def cpus_ok_def)
  qed (use q nl i in auto)
  moreover have "timers_ok C W k1" unfolding k1_def
    by (rule timers_ok_upd [OF T]) (use t w in \<open>simp_all add: thread_is_real_time_or_idle_def\<close>)
  ultimately have k1: "kinv C W k1" by (simp add: kinv_def)
  define fr where "fr = (let f1 = (if bit (t_flags (thr k t)) FLAG_FREE_STACK \<and> t_stack (thr k t) \<noteq> 0
       then freed k @ [Freed_stack (t_stack (thr k t))] else freed k)
     in if bit (t_flags (thr k t)) FLAG_FREE_STRUCT then f1 @ [Freed_thread t] else f1)"
  define k2 where "k2 = k1\<lparr>thread_list := remove1 t (thread_list k), freed := fr\<rparr>"
  have "thread_join_dead t k = Some (k2, NO_ERROR, Some (retcode (thr k t)))"
    using t q b by (simp add: thread_join_dead_def live_def Let_def k2_def k1_def fr_def thr_upd_def)
  moreover have "kinv C W k2" using k1 by (simp add: k2_def kinv_frame)
  moreover have "current k2 = current k" "\<not> live (thr k2 t)" using nl by (simp_all add: k2_def k1_def)
  ultimately show ?thesis by blast
qed

lemma thread_exit_ok:
  assumes k: "kinv C W k" and cpu: "cpu \<in> C" and ni: "\<not> thread_is_idle (thr k (current k cpu))"
    and w: "W (current k cpu) = None"
  shows "\<exists>k'. thread_exit cpu rc k = Some k' \<and> kinv C W k' \<and> current k' cpu \<noteq> current k cpu"
proof -
  let ?t = "current k cpu" and ?x = "thr k (current k cpu)"
  note r = kinv_running [OF k cpu]
  have T: "timers_ok C W k" using k by (simp add: kinv_def)
  define k1 where "k1 = thr_upd ?t (\<lambda>x. x\<lparr>t_state := THREAD_DEATH, retcode := rc\<rparr>) k"
  define body where "body = thread_exit_teardown cpu ?t k1"
  have "\<exists>k2. body = Some k2 \<and> sched C {cpu} {} k2 \<and> timers_ok C W k2 \<and> current k2 = current k \<and>
      t_state (thr k2 ?t) = THREAD_DEATH"
  proof (cases "bit (t_flags ?x) FLAG_DETACHED")
    case False
    let ?f = "\<lambda>x. x\<lparr>t_state := THREAD_DEATH, retcode := rc\<rparr>"
    have s1: "sched C {cpu} {} k1" unfolding k1_def
      using r ni kinv_padding [OF k cpu] kinv_priority [OF k r(2)]
      by (intro leave_cpu [OF k cpu refl]) (auto simp: padding_ok_def)
    have T1: "timers_ok C W k1" unfolding k1_def
      by (rule timers_ok_upd [OF T]) (use r w in \<open>simp_all add: thread_is_real_time_or_idle_def\<close>)
    have m: "wq_magic (wq k1 (retcode_wait_queue ?t)) = WAIT_QUEUE_MAGIC"
      using k r(2) by (simp add: k1_def kinv_def sched_def joinable_def)
    have "?t \<notin> set (wq_list (wq k1 (retcode_wait_queue ?t)))"
      using kinv_wq_current [OF k cpu] by (simp add: k1_def)
    then show ?thesis
      using wait_queue_wake_all_sched [OF s1 T1 m, of cpu 0] False by (auto simp: body_def thread_exit_teardown_def k1_def)
  next
    case True
    define clr where "clr = (bit (t_flags ?x) FLAG_FREE_STACK \<and> t_stack ?x \<noteq> 0)"
    let ?f = "\<lambda>x. x\<lparr>t_state := THREAD_DEATH, retcode := rc, t_magic := 0,
        t_flags := (if clr then t_flags x AND NOT (shl1 FLAG_DEBUG_STACK_BOUNDS_CHECK) else t_flags x)\<rparr>"
    define fr where "fr = (let f1 = (if clr then freed k @ [Freed_stack (t_stack ?x)] else freed k)
       in if bit (t_flags ?x) FLAG_FREE_STRUCT then f1 @ [Freed_thread ?t] else f1)"
    have "body = Some ((thr_upd ?t ?f k)\<lparr>thread_list := remove1 ?t (thread_list k), freed := fr\<rparr>)"
      using True
      by (cases "bit (t_flags ?x) FLAG_FREE_STACK"; cases "t_stack ?x = 0"; cases "bit (t_flags ?x) FLAG_FREE_STRUCT")
        (simp_all add: body_def thread_exit_teardown_def k1_def clr_def fr_def thr_upd_def Let_def bit_andnot_shl1)
    moreover have "sched C {cpu} {} (thr_upd ?t ?f k)"
      using r ni kinv_padding [OF k cpu]
      by (intro leave_cpu [OF k cpu refl]) (auto simp: padding_ok_def live_def THREAD_MAGIC_def bit_andnot_shl1)
    moreover have "timers_ok C W (thr_upd ?t ?f k)"
      by (rule timers_ok_upd [OF T]) (use r w in \<open>simp_all add: thread_is_real_time_or_idle_def bit_andnot_shl1\<close>)
    ultimately show ?thesis by (auto simp: kinv_frame)
  qed
  then obtain k2 where k2: "body = Some k2" "sched C {cpu} {} k2" "timers_ok C W k2" "current k2 = current k"
    "t_state (thr k2 ?t) = THREAD_DEATH" by blast
  obtain k' where k': "thread_resched cpu k2 = Some k'" "kinv C W k'"
      "current k' = (current k2)(cpu := fst (get_top_thread cpu k2))"
    using resched_kinv [OF k2(2) cpu _ k2(3)] k2(4,5) by (metis thread_state.distinct(23))
  have ne: "current k' cpu \<noteq> ?t"
  proof -
    have "t_state (thr k2 (current k2 cpu)) \<noteq> THREAD_RUNNING" using k2(4,5) by simp
    from get_top_thread_ok(4) [OF k2(2) cpu _ this prod.collapse [symmetric]] get_top_thread_frame(1) [OF prod.collapse [symmetric], of cpu k2]
    show ?thesis using k2(5) by (auto simp: k'(3))
  qed
  have "thread_exit cpu rc k = Some k'"
    using r ni k2(1) k'(1) ne by (simp add: thread_exit_def body_def Let_def flip: k1_def)
  then show ?thesis using k'(2) ne by blast
qed

lemma thread_join_ok:
  assumes k: "kinv C W k" and cpu: "cpu \<in> C" and ni: "\<not> thread_is_idle (thr k (current k cpu))"
    and w: "W (current k cpu) = None" and t: "live (thr k t)"
    and d: "timeout \<noteq> INFINITE_TIME \<longrightarrow> uint timeout < 2 ^ 30"
  shows "\<exists>k' r. thread_join cpu t timeout k = Some (k', r) \<and>
     kinv C (case r of Returned _ \<Rightarrow> W | Switched \<Rightarrow> W(current k cpu := Some timeout)) k'"
proof -
  have m: "wq_magic (wq k (retcode_wait_queue t)) = WAIT_QUEUE_MAGIC"
    using k t by (simp add: kinv_def sched_def joinable_def)
  consider (detached) "bit (t_flags (thr k t)) FLAG_DETACHED"
    | (dead) "\<not> bit (t_flags (thr k t)) FLAG_DETACHED" "t_state (thr k t) = THREAD_DEATH"
    | (poll) "\<not> bit (t_flags (thr k t)) FLAG_DETACHED" "t_state (thr k t) \<noteq> THREAD_DEATH" "timeout = 0"
    | (block) "\<not> bit (t_flags (thr k t)) FLAG_DETACHED" "t_state (thr k t) \<noteq> THREAD_DEATH" "timeout \<noteq> 0"
    by blast
  then show ?thesis
  proof cases
    case detached
    then show ?thesis using k t by (simp add: thread_join_def live_def)
  next
    case dead
    then show ?thesis using thread_join_dead_ok [OF k t] t by (auto simp: thread_join_def live_def)
  next
    case poll
    then show ?thesis using k t m kinv_running [OF k cpu] by (simp add: thread_join_def wait_queue_block_def live_def Let_def)
  next
    case block
    then show ?thesis using wait_queue_block_ok [OF k cpu ni w m block(3) d] t by (auto simp: thread_join_def live_def)
  qed
qed

lemma bit_flag_simps [simp]:
  "bit (w OR shl1 n :: u32) i = (bit w i \<or> i = n \<and> i < 32)" "bit (w AND NOT (shl1 n) :: u32) i = (bit w i \<and> i \<noteq> n)"
  by (simp_all add: bit_or_shl1 bit_andnot_shl1)

lemma thread_detach_ok:
  assumes k: "kinv C W k" and t: "live (thr k t)"
  shows "\<exists>k' r. thread_detach cpu t k = Some (k', r) \<and> kinv C W k'"
proof -
  have m: "wq_magic (wq k (retcode_wait_queue t)) = WAIT_QUEUE_MAGIC"
    using k t by (simp add: kinv_def sched_def joinable_def)
  obtain k1 n where k1: "wait_queue_wake_all cpu (retcode_wait_queue t) False ERR_THREAD_DETACHED k = Some (k1, n)"
    "kinv C W k1" "live (thr k1 t)"
    using wait_queue_wake_all_ok [OF k m, of cpu ERR_THREAD_DETACHED] t by (force split: if_splits)
  show ?thesis
  proof (cases "t_state (thr k1 t) = THREAD_DEATH")
    case False
    have "kinv C W (thr_upd t (\<lambda>x. x\<lparr>t_flags := t_flags x OR shl1 FLAG_DETACHED\<rparr>) k1)"
      by (rule kinv_flag [OF k1(2), where g = "\<lambda>w. w OR shl1 FLAG_DETACHED"]) simp_all
    then show ?thesis using False k1(1) t by (simp add: thread_detach_def live_def)
  next
    case True
    define k2 where "k2 = thr_upd t (\<lambda>x. x\<lparr>t_flags := t_flags x AND NOT (shl1 FLAG_DETACHED)\<rparr>) k1"
    have k2: "kinv C W k2" unfolding k2_def
      by (rule kinv_flag [OF k1(2), where g = "\<lambda>w. w AND NOT (shl1 FLAG_DETACHED)"]) simp_all
    have d: "live (thr k2 t)" "t_state (thr k2 t) = THREAD_DEATH" "\<not> bit (t_flags (thr k2 t)) FLAG_DETACHED"
      using True k1(3) by (simp_all add: k2_def)
    obtain k3 where k3: "thread_join_dead t k2 = Some (k3, NO_ERROR, Some (retcode (thr k2 t)))" "kinv C W k3"
      using thread_join_dead_ok [OF k2 d(1,2)] by blast
    then have "thread_join cpu t 0 k2 = Some (k3, Returned (NO_ERROR, Some (retcode (thr k2 t))))"
      using d by (simp add: thread_join_def live_def)
    then have "thread_detach cpu t k = Some (k3, NO_ERROR)"
      using True k1(1) t by (simp add: thread_detach_def live_def Let_def flip: k2_def)
    then show ?thesis using k3(2) by blast
  qed
qed

text \<open>
  \<^verbatim>\<open>thread_set_real_time\<close> stops the preemption timer of the calling CPU only, so the thread
  must not be running on another.
\<close>

lemma thread_set_real_time_ok:
  assumes k: "kinv C W k" and cpu: "cpu \<in> C" and t: "live (thr k t)"
    and other: "\<And>c. c \<in> C \<Longrightarrow> c \<noteq> cpu \<Longrightarrow> current k c \<noteq> t"
  shows "\<exists>k'. thread_set_real_time cpu (Some t) k = Some (k', NO_ERROR) \<and> kinv C W k'"
proof -
  have T: "timers_ok C W k" and s: "sched C {} {} k" using k by (simp_all add: kinv_def)
  obtain k1 where k1: "(if t = current k cpu then timer_cancel cpu (preempt_timer cpu) k else Some k) = Some k1"
    "kinv C W k1" "thr k1 = thr k" "\<And>c. tm_linked (tmr k1 (preempt_timer c)) \<Longrightarrow> current k1 c \<noteq> t"
  proof (cases "t = current k cpu")
    case True
    have m: "tm_magic (tmr k (preempt_timer cpu)) = TIMER_MAGIC" "timers_sorted k" using T cpu by (auto simp: timers_ok_def)
    obtain k1 where k1: "timer_cancel cpu (preempt_timer cpu) k = Some k1" "same_kernel k k1" "timers_sorted k1"
      "\<And>u. u \<noteq> preempt_timer cpu \<Longrightarrow> tmr k1 u = tmr k u" "tm_magic (tmr k1 (preempt_timer cpu)) = TIMER_MAGIC"
      "\<not> tm_linked (tmr k1 (preempt_timer cpu))"
      using timer_cancel_kernel [OF m(2,1)] by metis
    have e: "thr k1 = thr k" "current k1 = current k" using k1(2) by (simp_all add: same_kernel_def)
    have u: "tmr k1 (stack_timer v) = tmr k (stack_timer v)" "tmr k1 (timer_obj n) = tmr k (timer_obj n)"
      "c \<noteq> cpu \<Longrightarrow> tmr k1 (preempt_timer c) = tmr k (preempt_timer c)" for v n c using k1(4) by simp_all
    have pm: "tm_magic (tmr k1 (preempt_timer c)) = TIMER_MAGIC" if "c \<in> C" for c
      using T that k1(5) u(3) by (cases "c = cpu") (auto simp: timers_ok_def)
    have pl: "c \<noteq> cpu" "c \<in> C \<and> tm_callback (tmr k1 (preempt_timer c)) = Some thread_timer_tick_cb \<and>
        \<not> thread_is_real_time_or_idle (thr k (current k c))" if "tm_linked (tmr k1 (preempt_timer c))" for c
      using that k1(6) u(3) T by (cases "c = cpu"; auto simp: timers_ok_def)+
    have "timers_ok C W k1" using T k1(3) pm pl(2) unfolding timers_ok_def e u(1,2) by simp
    then have "kinv C W k1" using s sched_same_kernel [OF k1(2)] by (simp add: kinv_def)
    moreover have "current k1 c \<noteq> t" if "tm_linked (tmr k1 (preempt_timer c))" for c
      using pl [OF that] other by (auto simp: e)
    ultimately show ?thesis using True k1(1) e by (intro that [of k1]) simp_all
  next
    case False
    have "current k c \<noteq> t" if "tm_linked (tmr k (preempt_timer c))" for c
      using that T other False by (cases "c = cpu") (auto simp: timers_ok_def)
    then show ?thesis using False k by (intro that [of k]) simp_all
  qed
  have "kinv C W (thr_upd t (\<lambda>x. x\<lparr>t_flags := t_flags x OR shl1 FLAG_REAL_TIME\<rparr>) k1)"
    by (rule kinv_flag [OF k1(2), where g = "\<lambda>w. w OR shl1 FLAG_REAL_TIME"]) (use k1(4) in simp_all)
  then show ?thesis using k1(1) t by (simp add: thread_set_real_time_def live_def)
qed

text \<open>A thread structure that was not in use becomes a suspended thread.\<close>

lemma kinv_new_thread:
  assumes k: "kinv C W k" and t: "\<not> live (thr k t)" "t = thread_at a" "wq_list (wq k (retcode_wait_queue t)) = []"
    and x: "live x" "\<not> t_queued x" "t_state x = THREAD_SUSPENDED" "0 \<le> priority x" "priority x < 32"
      "padding_ok x" "\<not> thread_is_idle x" "blocking_wait_queue x = None"
    and k': "thr k' = (thr k)(t := x)" "wq k' = (wq k)(retcode_wait_queue t :=
         \<lparr>wq_magic = WAIT_QUEUE_MAGIC, wq_count = 0, wq_list = []\<rparr>)" "run_queue k' = run_queue k"
      "run_queue_bitmap k' = run_queue_bitmap k" "current k' = current k" "tmr k' = tmr k" "timer_queue k' = timer_queue k"
      "current_time k' = current_time k"
  shows "kinv C W k'"
proof -
  have T: "timers_ok C W k" and s: "sched C {} {} k" using k by (simp_all add: kinv_def)
  have q: "queues_ok k" using s by (rule sched_queues)
  have nq: "\<not> t_queued (thr k t)" using sched_wf [OF s, of t] t by (simp add: thread_wf_def)
  have nr: "t \<notin> set (run_queue k p)" "t \<notin> set (wq_list (wq k w))" for p w using q nq by (simp_all add: queues_ok_def)
  have nb: "\<not> (t_queued (thr k u) \<and> t_state (thr k u) = THREAD_BLOCKED \<and> blocking_wait_queue (thr k u) = Some (retcode_wait_queue t))" for u
    using in_wait_queue [OF q, of u "retcode_wait_queue t"] t by simp
  have nc: "current k c \<noteq> t" if "c \<in> C" for c using kinv_running(2) [OF k that] t by auto
  have "queues_ok k'" unfolding queues_ok_def k' using q x nr nb nq unfolding queues_ok_def by simp
  moreover have "\<forall>u. thread_wf (thr k' u)" using s x by (simp add: k' sched_def thread_wf_def)
  moreover have "\<forall>u. settled (thr k' u)" using s x by (simp add: k' sched_def settled_def)
  moreover have "cpus_ok C {} k'"
  proof -
    have c: "cpus_ok C {} k" using s by (simp add: sched_def)
    have "thr k' (current k c) = thr k (current k c)" "thr k' (idle_thread c) = thr k (idle_thread c)" if "c \<in> C" for c
      using nc [OF that] t(2) by (auto simp: k')
    with c x t(2) show ?thesis unfolding cpus_ok_def k'(5) by (auto simp: k'(1))
  qed
  moreover have "joinable k'" using s by (simp add: k' sched_def joinable_def)
  moreover have "timers_ok C W k'"
  proof (rule timers_ok_threads [OF T k'(6-8)])
    have u: "thr k' u = thr k u" if "live (thr k u)" for u using t(1) that by (auto simp: k'(1))
    show "\<not> thread_is_real_time_or_idle (thr k' (current k' c))" if "tm_linked (tmr k (preempt_timer c))" for c
      using T that nc by (auto simp: timers_ok_def k')
    show "live (thr k' v)" if "tm_linked (tmr k (stack_timer v))" for v
      using T that u [of v] by (auto simp: timers_ok_def)
    show "t_state (thr k' v) = THREAD_SLEEPING"
      if "tm_linked (tmr k (stack_timer v))" "t_state (thr k v) = THREAD_SLEEPING" for v
      using T that u [of v] by (auto simp: timers_ok_def)
    show "live (thr k' v) \<and> \<not> thread_is_idle (thr k' v) \<and>
        t_state (thr k' v) \<in> {THREAD_BLOCKED, THREAD_READY, THREAD_RUNNING}" if "W v \<noteq> None" for v
      using waiting_thread [OF T that] u [of v] by simp
  qed
  ultimately show ?thesis by (simp add: kinv_def sched_def)
qed

lemma list_all_replicate [simp]: "list_all P (replicate n x) = (n = 0 \<or> P x)"
  by (induction n) auto

lemma flags_of_new_thread:
  "bit (shl1 n :: u32) i = (i = n \<and> i < 32)" "bit (shl1 n OR w :: u32) i = (i = n \<and> i < 32 \<or> bit w i)"
  by (simp_all add: bit_shl1 bit_or_iff)

lemma thread_create_etc_ok:
  assumes k: "kinv C W k" and t: "case t0 of Some t \<Rightarrow> t = thread_at a | None \<Rightarrow> malloc_t \<in> {None, Some (thread_at a)}"
    and fresh: "\<not> live (thr k (thread_at a))" "wq_list (wq k (retcode_wait_queue (thread_at a))) = []"
    and p: "0 \<le> prio" "prio < 32"
    and r: "thread_create_etc cpu malloc_t t0 name entry arg prio stack malloc_stack stack_size k = (k', r)"
  shows "kinv C W k'"
proof (cases "t0 = None \<and> malloc_t = None")
  case True
  then show ?thesis using k r by (simp add: thread_create_etc_def)
next
  case False
  have "\<exists>x. thr k' = (thr k)(thread_at a := x) \<and> live x \<and> \<not> t_queued x \<and> t_state x = THREAD_SUSPENDED \<and>
      priority x = prio \<and> padding_ok x \<and> \<not> thread_is_idle x \<and> blocking_wait_queue x = None"
    "wq k' = (wq k)(retcode_wait_queue (thread_at a) := \<lparr>wq_magic = WAIT_QUEUE_MAGIC, wq_count = 0, wq_list = []\<rparr>)"
    "run_queue k' = run_queue k \<and> run_queue_bitmap k' = run_queue_bitmap k \<and> current k' = current k \<and>
     tmr k' = tmr k \<and> timer_queue k' = timer_queue k \<and> current_time k' = current_time k"
    using False t r
    by (auto simp: thread_create_etc_def init_thread_struct_def wait_queue_init_def zeroed_thread_def
        thr_upd_def wq_upd_def Let_def live_def padding_ok_def thread_is_idle_def STACK_DEBUG_WORD_def
        flags_of_new_thread split: option.splits if_splits prod.splits)
  then show ?thesis using p by (auto intro: kinv_new_thread [OF k fresh(1) refl fresh(2)])
qed

end
