(* ===== verification/Kernel.thy ===== *)
theory Kernel
  imports Lifecycle
begin

text \<open>
  The kernel as a transition system: booting the first CPU and bringing up the others, the
  operations of \<^verbatim>\<open>kernel/thread.c\<close> and the timer interrupt as labelled steps, the
  conditions under which a caller may use each, and the properties of every reachable state.
\<close>

section \<open>Booting\<close>

text \<open>The state in which \<^verbatim>\<open>thread_init_early\<close> is entered: zeroed memory, empty timer queues.\<close>

definition zeroed_timer :: timer_t where
  "zeroed_timer = \<lparr>tm_magic = 0, tm_linked = False, scheduled_time = 0, periodic_time = 0,
     tm_callback = None, tm_arg = None\<rparr>"

definition bss :: kstate where
  "bss = \<lparr>tmr = (\<lambda>_. zeroed_timer), timer_queue = (\<lambda>_. []), hw_timer = (\<lambda>_. None), current_time = 0,
     thr = (\<lambda>_. zeroed_thread), thread_list = [], run_queue = (\<lambda>_. []), run_queue_bitmap = 0,
     wq = (\<lambda>_. \<lparr>wq_magic = 0, wq_count = 0, wq_list = []\<rparr>), current = (\<lambda>_. idle_thread 0),
     cpu_aspace = (\<lambda>_. 0), mp_active_cpus = 0, mp_idle_cpus = 0, mp_realtime_cpus = 0,
     ipis_sent = [], freed = []\<rparr>"

lemma bss_simps [simp]:
  "tmr bss = (\<lambda>_. zeroed_timer)" "timer_queue bss = (\<lambda>_. [])" "thr bss = (\<lambda>_. zeroed_thread)"
  "run_queue bss = (\<lambda>_. [])" "run_queue_bitmap bss = 0" "wq bss = (\<lambda>_. \<lparr>wq_magic = 0, wq_count = 0, wq_list = []\<rparr>)"
  by (simp_all add: bss_def)

definition boot :: "nat \<Rightarrow> kstate option" where
  "boot SMP_MAX_CPUS = thread_become_idle 0 (thread_init SMP_MAX_CPUS (timer_init (thread_init_early bss)))"

lemma fold_timer_initialize:
  "tmr (fold (\<lambda>i. timer_initialize (preempt_timer i)) is k) t =
     (if \<exists>i\<in>set is. t = preempt_timer i
      then \<lparr>tm_magic = TIMER_MAGIC, tm_linked = False, scheduled_time = 0, periodic_time = 0,
            tm_callback = None, tm_arg = None\<rparr> else tmr k t)"
  by (induction "is" arbitrary: k) (auto simp: timer_initialize_def timer_upd_def)

lemma thread_init_frame:
  "\<exists>m. thread_init n k = k\<lparr>tmr := m\<rparr>"
proof -
  have "\<exists>m. fold (\<lambda>i. timer_initialize (preempt_timer i)) is k = k\<lparr>tmr := m\<rparr>" for "is" k
  proof (induction "is" arbitrary: k)
    case Nil
    then show ?case by (intro exI [of _ "tmr k"]) simp
  next
    case (Cons i "is")
    then obtain m where "fold (\<lambda>i. timer_initialize (preempt_timer i)) is (timer_initialize (preempt_timer i) k) =
        (timer_initialize (preempt_timer i) k)\<lparr>tmr := m\<rparr>" by blast
    moreover have "(timer_initialize (preempt_timer i) k)\<lparr>tmr := m\<rparr> = k\<lparr>tmr := m\<rparr>"
      by (simp add: timer_initialize_def timer_upd_def)
    ultimately show ?case by (intro exI [of _ m]) simp
  qed
  then show ?thesis by (simp add: thread_init_def)
qed

text \<open>The bootstrap thread just before its first yield.\<close>

definition boot_thread :: thread_t where
  "boot_thread = zeroed_thread\<lparr>t_magic := THREAD_MAGIC, pinned_cpu := 0, t_name := name_copy (idle_name 0),
     priority := IDLE_PRIORITY, t_state := THREAD_RUNNING, t_flags := shl1 FLAG_DETACHED OR shl1 FLAG_IDLE\<rparr>"

lemma boot_inv:
  assumes n: "0 < n"
    and k: "thr k = (\<lambda>_. zeroed_thread)(idle_thread 0 := boot_thread)" "run_queue k = (\<lambda>_. [])" "run_queue_bitmap k = 0"
      "\<And>w. wq_list (wq k w) = [] \<and> wq_count (wq k w) = 0" "wq_magic (wq k (retcode_wait_queue (idle_thread 0))) = WAIT_QUEUE_MAGIC"
      "current k 0 = idle_thread 0" "timer_queue k = (\<lambda>_. [])" "\<And>t. \<not> tm_linked (tmr k t)"
      "tm_magic (tmr k (preempt_timer 0)) = TIMER_MAGIC"
  shows "kinv {0} (\<lambda>_. None) k"
proof -
  have z: "\<not> live zeroed_thread" "\<not> t_queued zeroed_thread" "t_state zeroed_thread = THREAD_SUSPENDED"
    by (simp_all add: zeroed_thread_def live_def THREAD_MAGIC_def)
  have b: "live boot_thread" "\<not> t_queued boot_thread" "t_state boot_thread = THREAD_RUNNING" "priority boot_thread = 0"
    "thread_is_idle boot_thread" "padding_ok boot_thread" "blocking_wait_queue boot_thread = None"
    by (simp_all add: boot_thread_def zeroed_thread_def live_def padding_ok_def thread_is_idle_def bit_or_iff bit_shl1)
  have t: "thr k u = (if u = idle_thread 0 then boot_thread else zeroed_thread)" for u using k(1) by simp
  have "queues_ok k" unfolding queues_ok_def k(2,3) t using k(4) z b by simp
  moreover have "thread_wf (thr k u)" "settled (thr k u)" for u
    using z b by (simp_all add: t thread_wf_def settled_def)
  moreover have "cpus_ok {0} {} k" unfolding cpus_ok_def t using z b k(6) by simp
  moreover have "joinable k" unfolding joinable_def t using z b k(5) by simp
  moreover have "timers_ok {0} (\<lambda>_. None) k"
    unfolding timers_ok_def timers_sorted_def timer_inv_def sorted_queue_def k(7) using k(8,9) by simp
  ultimately show ?thesis by (simp add: kinv_def sched_def)
qed

lemma boot_kinv:
  assumes n: "0 < n"
  shows "\<exists>k. boot n = Some k \<and> kinv {0} (\<lambda>_. None) k"
proof -
  define k0 where "k0 = timer_init (thread_init_early bss)"
  have e: "thread_init_early bss = bss\<lparr>
      thr := (\<lambda>_. zeroed_thread)(idle_thread 0 := zeroed_thread\<lparr>t_magic := THREAD_MAGIC, pinned_cpu := 0,
        t_name := name_copy ''bootstrap'', priority := HIGHEST_PRIORITY, t_state := THREAD_RUNNING,
        t_flags := shl1 FLAG_DETACHED, curr_cpu := 0\<rparr>),
      wq := (wq bss)(retcode_wait_queue (idle_thread 0) := \<lparr>wq_magic = WAIT_QUEUE_MAGIC, wq_count = 0, wq_list = []\<rparr>),
      thread_list := [idle_thread 0], run_queue := (\<lambda>_. []), current := (current bss)(0 := idle_thread 0)\<rparr>"
    by (simp add: thread_init_early_def init_thread_struct_def wait_queue_init_def thr_upd_def wq_upd_def Let_def
        bss_def fun_eq_iff)
  obtain m where m: "thread_init n k0 = k0\<lparr>tmr := m\<rparr>" using thread_init_frame by blast
  have m0: "tmr (thread_init n k0) t = (if \<exists>i<n. t = preempt_timer i
      then \<lparr>tm_magic = TIMER_MAGIC, tm_linked = False, scheduled_time = 0, periodic_time = 0,
            tm_callback = None, tm_arg = None\<rparr> else tmr k0 t)" for t
    unfolding thread_init_def fold_timer_initialize by auto
  have f0: "tmr k0 = (\<lambda>_. zeroed_timer)" "timer_queue k0 = (\<lambda>_. [])" "run_queue k0 = (\<lambda>_. [])" "run_queue_bitmap k0 = 0"
    "wq k0 = (wq bss)(retcode_wait_queue (idle_thread 0) := \<lparr>wq_magic = WAIT_QUEUE_MAGIC, wq_count = 0, wq_list = []\<rparr>)"
    "current k0 0 = idle_thread 0"
    "thr k0 = (\<lambda>_. zeroed_thread)(idle_thread 0 := zeroed_thread\<lparr>t_magic := THREAD_MAGIC, pinned_cpu := 0,
        t_name := name_copy ''bootstrap'', priority := HIGHEST_PRIORITY, t_state := THREAD_RUNNING,
        t_flags := shl1 FLAG_DETACHED, curr_cpu := 0\<rparr>)"
    by (simp_all add: k0_def timer_init_def e)
  define kb where "kb = mp_set_cpu_idle 0 (mp_set_curr_cpu_active 0 True (thr_upd (idle_thread 0)
      (\<lambda>x. x\<lparr>priority := IDLE_PRIORITY, t_flags := t_flags x OR shl1 FLAG_IDLE, pinned_cpu := int 0\<rparr>)
      (thread_set_name 0 (idle_name 0) (thread_init n k0))))"
  have cur: "current (thread_init n k0) 0 = idle_thread 0" by (simp add: m f0)
  have "kinv {0} (\<lambda>_. None) kb"
  proof (rule boot_inv [OF n])
    show "thr kb = (\<lambda>_. zeroed_thread)(idle_thread 0 := boot_thread)"
      by (simp add: kb_def thread_set_name_def thr_upd_def mp_set_cpu_idle_def mp_set_curr_cpu_active_def m f0
          boot_thread_def zeroed_thread_def)
    show "\<not> tm_linked (tmr kb t)" for t
      using m0 [of t] f0(1)
      by (simp add: kb_def thread_set_name_def mp_set_cpu_idle_def mp_set_curr_cpu_active_def zeroed_timer_def)
    show "tm_magic (tmr kb (preempt_timer 0)) = TIMER_MAGIC"
      using m0 [of "preempt_timer 0"] n
      by (simp add: kb_def thread_set_name_def mp_set_cpu_idle_def mp_set_curr_cpu_active_def)
  qed (simp_all add: kb_def thread_set_name_def mp_set_cpu_idle_def mp_set_curr_cpu_active_def m f0)
  moreover have "boot n = thread_yield 0 kb"
    using cur by (simp add: boot_def thread_become_idle_def Let_def kb_def k0_def thread_set_name_def)
  ultimately show ?thesis using thread_yield_ok [of "{0}" "\<lambda>_. None" kb 0] by simp
qed

text \<open>
  Another CPU comes up: its idle thread is made on a CPU that runs, and the new CPU then
  takes it as its current thread and starts scheduling.
\<close>

definition bring_up :: "nat \<Rightarrow> kstate \<Rightarrow> kstate option" where
  "bring_up cpu k = do {
     k \<leftarrow> thread_secondary_cpu_init_early cpu (thread_create_secondary_cpu_idle_thread cpu k);
     thread_secondary_cpu_entry cpu k
   }"

lemma kinv_new_cpu:
  assumes k: "kinv C W k" and c: "cpu \<notin> C" and t: "t = idle_thread cpu" "\<not> live (thr k t)"
      "wq_list (wq k (retcode_wait_queue t)) = []" and m: "tm_magic (tmr k (preempt_timer cpu)) = TIMER_MAGIC"
    and x: "live x" "\<not> t_queued x" "t_state x = THREAD_RUNNING" "0 \<le> priority x" "priority x < 32"
      "padding_ok x" "thread_is_idle x" "blocking_wait_queue x = None"
    and k': "thr k' = (thr k)(t := x)" "wq k' = (wq k)(retcode_wait_queue t :=
         \<lparr>wq_magic = WAIT_QUEUE_MAGIC, wq_count = 0, wq_list = []\<rparr>)" "run_queue k' = run_queue k"
      "run_queue_bitmap k' = run_queue_bitmap k" "current k' = (current k)(cpu := t)" "tmr k' = tmr k"
      "timer_queue k' = timer_queue k" "current_time k' = current_time k"
  shows "kinv (insert cpu C) W k'"
proof -
  have T: "timers_ok C W k" and s: "sched C {} {} k" using k by (simp_all add: kinv_def)
  have q: "queues_ok k" using s by (rule sched_queues)
  have nq: "\<not> t_queued (thr k t)" using sched_wf [OF s, of t] t by (simp add: thread_wf_def)
  have nr: "t \<notin> set (run_queue k p)" "t \<notin> set (wq_list (wq k w))" for p w using q nq by (simp_all add: queues_ok_def)
  have nb: "\<not> (t_queued (thr k u) \<and> t_state (thr k u) = THREAD_BLOCKED \<and> blocking_wait_queue (thr k u) = Some (retcode_wait_queue t))" for u
    using in_wait_queue [OF q, of u "retcode_wait_queue t"] t by simp
  have nc: "current k c \<noteq> t" if "c \<in> C" for c using kinv_running(2) [OF k that] t by auto
  have "queues_ok k'" unfolding queues_ok_def k' using q x nr nb nq unfolding queues_ok_def by simp
  moreover have "\<forall>u. thread_wf (thr k' u)" using s x by (simp add: k' sched_def thread_wf_def)
  moreover have "\<forall>u. settled (thr k' u)" using s x by (simp add: k' sched_def settled_def)
  moreover have "cpus_ok (insert cpu C) {} k'"
  proof -
    have cu: "current k' c = current k c" "thr k' (current k c) = thr k (current k c)"
      "thr k' (idle_thread c) = thr k (idle_thread c)" if "c \<in> C" for c
      using nc [OF that] that c t(1) by (auto simp: k')
    have cc: "current k' cpu = t" "thr k' t = x" by (simp_all add: k')
    have ok: "cpus_ok C {} k" using s by (simp add: sched_def)
    have inj: "inj_on (current k') (insert cpu C)"
      using ok nc cu(1) cc(1) c by (auto simp: cpus_ok_def inj_on_def)
    have run: "(\<exists>d\<in>insert cpu C. current k' d = u) \<or> (\<exists>d. d \<notin> insert cpu C \<and> u = idle_thread d)"
      if "live (thr k' u)" "t_state (thr k' u) = THREAD_RUNNING" for u
    proof (cases "u = t")
      case True
      then show ?thesis using cc by blast
    next
      case False
      then have "live (thr k u)" "t_state (thr k u) = THREAD_RUNNING" using that by (simp_all add: k')
      then have "(\<exists>d\<in>C. current k d = u) \<or> (\<exists>d. d \<notin> C \<and> u = idle_thread d)" using ok by (simp add: cpus_ok_def)
      then show ?thesis using cu(1) False t(1) by auto
    qed
    have idl: "thread_is_idle (thr k' u) = (\<exists>d. u = idle_thread d)" if "live (thr k' u)" for u
      using ok that x(7) t(1) by (cases "u = t") (auto simp: cpus_ok_def k')
    have own: "d' = d" if "d \<in> insert cpu C" "current k' d = idle_thread d'" for d d'
      using ok that cu(1) cc(1) t(1) by (auto simp: cpus_ok_def)
    show ?thesis unfolding cpus_ok_def
      using inj run idl own ok cu cc x t(1) by (simp add: cpus_ok_def)
  qed
  moreover have "joinable k'" using s by (simp add: k' sched_def joinable_def)
  moreover have "timers_ok (insert cpu C) W k'"
  proof -
    have "timers_ok C W k'"
    proof (rule timers_ok_threads [OF T k'(6-8)])
      have u: "thr k' u = thr k u" if "live (thr k u)" for u using t(2) that by (auto simp: k'(1))
      show "\<not> thread_is_real_time_or_idle (thr k' (current k' d))" if "tm_linked (tmr k (preempt_timer d))" for d
      proof -
        have "d \<in> C" using T that by (auto simp: timers_ok_def)
        then show ?thesis using T that nc c by (auto simp: timers_ok_def k')
      qed
      show "live (thr k' v)" if "tm_linked (tmr k (stack_timer v))" for v
        using T that u [of v] by (auto simp: timers_ok_def)
      show "t_state (thr k' v) = THREAD_SLEEPING"
        if "tm_linked (tmr k (stack_timer v))" "t_state (thr k v) = THREAD_SLEEPING" for v
        using T that u [of v] by (auto simp: timers_ok_def)
      show "live (thr k' v) \<and> \<not> thread_is_idle (thr k' v) \<and>
          t_state (thr k' v) \<in> {THREAD_BLOCKED, THREAD_READY, THREAD_RUNNING}" if "W v \<noteq> None" for v
        using waiting_thread [OF T that] u [of v] by simp
    qed
    then show ?thesis using m unfolding timers_ok_def k'(6) by auto
  qed
  ultimately show ?thesis by (simp add: kinv_def sched_def)
qed

lemma bring_up_ok:
  assumes k: "kinv C W k" and c: "cpu \<notin> C" and t: "\<not> live (thr k (idle_thread cpu))"
      "wq_list (wq k (retcode_wait_queue (idle_thread cpu))) = []"
    and m: "tm_magic (tmr k (preempt_timer cpu)) = TIMER_MAGIC"
  shows "\<exists>k'. bring_up cpu k = Some k' \<and> kinv (insert cpu C) W k'"
proof -
  let ?t = "idle_thread cpu"
  define k1 where "k1 = (thread_create_secondary_cpu_idle_thread cpu k)\<lparr>current := (current k)(cpu := ?t)\<rparr>"
  define x where "x = zeroed_thread\<lparr>t_magic := THREAD_MAGIC, t_name := name_copy (idle_name cpu),
    t_state := THREAD_RUNNING, t_flags := shl1 FLAG_DETACHED OR shl1 FLAG_IDLE, curr_cpu := int cpu, pinned_cpu := int cpu\<rparr>"
  define k2 where "k2 = mp_set_cpu_idle cpu (mp_set_curr_cpu_active cpu True
      (thr_upd ?t (\<lambda>x. x\<lparr>priority := IDLE_PRIORITY\<rparr>) k1))"
  have f: "t_state (thr (thread_create_secondary_cpu_idle_thread cpu k) ?t) = THREAD_RUNNING"
    "bit (t_flags (thr (thread_create_secondary_cpu_idle_thread cpu k) ?t)) FLAG_IDLE"
    "current (thread_create_secondary_cpu_idle_thread cpu k) = current k"
    by (simp_all add: thread_create_secondary_cpu_idle_thread_def init_thread_struct_def wait_queue_init_def Let_def
        bit_or_iff bit_shl1)
  have "bring_up cpu k = thread_secondary_cpu_entry cpu k1"
    using f by (simp add: bring_up_def thread_secondary_cpu_init_early_def k1_def Let_def)
  also have "\<dots> = thread_yield cpu k2"
    using f by (simp add: thread_secondary_cpu_entry_def Let_def k2_def k1_def)
  finally have b: "bring_up cpu k = thread_yield cpu k2" .
  have "kinv (insert cpu C) W k2"
  proof (rule kinv_new_cpu [OF k c refl t m])
    show "thr k2 = (thr k)(?t := x)"
      by (simp add: k2_def k1_def x_def thread_create_secondary_cpu_idle_thread_def init_thread_struct_def
          wait_queue_init_def thr_upd_def wq_upd_def Let_def mp_set_cpu_idle_def mp_set_curr_cpu_active_def zeroed_thread_def)
    show "wq k2 = (wq k)(retcode_wait_queue ?t := \<lparr>wq_magic = WAIT_QUEUE_MAGIC, wq_count = 0, wq_list = []\<rparr>)"
      by (simp add: k2_def k1_def thread_create_secondary_cpu_idle_thread_def init_thread_struct_def
          wait_queue_init_def thr_upd_def wq_upd_def Let_def mp_set_cpu_idle_def mp_set_curr_cpu_active_def)
  qed (simp_all add: x_def zeroed_thread_def live_def padding_ok_def thread_is_idle_def bit_or_iff bit_shl1
      k2_def k1_def thread_create_secondary_cpu_idle_thread_def init_thread_struct_def wait_queue_init_def
      Let_def mp_set_cpu_idle_def mp_set_curr_cpu_active_def)
  then show ?thesis using thread_yield_ok [of "insert cpu C" W k2 cpu] b by simp
qed

section \<open>Operations as steps\<close>

text \<open>
  The operations another part of the kernel or an interrupt may start, with the CPU they run
  on. \<open>Block_return\<close> is a thread's way out of \<^verbatim>\<open>wait_queue_block\<close> after it was switched
  back to; \<open>Tick\<close> is the timer interrupt and \<open>Advance\<close> the passing of time.
\<close>

datatype kop =
    Yield nat
  | Preempt nat
  | Set_priority nat int
  | Sleep nat nusa_time_t
  | Wq_init nat
  | Block nat wq_id nusa_time_t
  | Block_return nat
  | Wake_one nat wq_id bool status_t
  | Wake_all nat wq_id bool status_t
  | Wq_destroy nat nat bool
  | Create nat nat string int
  | Resume nat bool thread_id
  | Set_real_time nat thread_id
  | Join nat thread_id nusa_time_t
  | Detach nat thread_id
  | Exit nat int
  | Tick nat
  | Advance nusa_time_t

text \<open>No timer of another module is set in these runs, so its callback is never asked for.\<close>

definition no_other :: "nat \<Rightarrow> kstate callback_fn" where
  "no_other n f t now arg k = None"

fun exec :: "kop \<Rightarrow> waiting \<times> kstate \<Rightarrow> (waiting \<times> kstate) option" where
  "exec (Yield cpu) (W, k) = map_option (Pair W) (thread_yield cpu k)"
| "exec (Preempt cpu) (W, k) = map_option (Pair W) (thread_preempt cpu k)"
| "exec (Set_priority cpu p) (W, k) = map_option (Pair W) (thread_set_priority cpu p k)"
| "exec (Sleep cpu delay) (W, k) = map_option (Pair W) (thread_sleep cpu delay k)"
| "exec (Wq_init n) (W, k) = Some (W, wait_queue_init (wait_queue_at n) k)"
| "exec (Block cpu w timeout) (W, k) = map_option
     (\<lambda>(k', r). (case r of Returned _ \<Rightarrow> W | Switched \<Rightarrow> W(current k cpu := Some timeout), k'))
     (wait_queue_block cpu w timeout k)"
| "exec (Block_return cpu) (W, k) =
     (case W (current k cpu) of
        None \<Rightarrow> None
      | Some timeout \<Rightarrow> map_option (\<lambda>(k', r). (W(current k cpu := None), k')) (wait_queue_block_return cpu timeout k))"
| "exec (Wake_one cpu w reschedule e) (W, k) = map_option (\<lambda>(k', n). (W, k')) (wait_queue_wake_one cpu w reschedule e k)"
| "exec (Wake_all cpu w reschedule e) (W, k) = map_option (\<lambda>(k', n). (W, k')) (wait_queue_wake_all cpu w reschedule e k)"
| "exec (Wq_destroy cpu n reschedule) (W, k) = map_option (Pair W) (wait_queue_destroy cpu (wait_queue_at n) reschedule k)"
| "exec (Create cpu a name prio) (W, k) =
     Some (W, fst (thread_create cpu (Some (thread_at a)) name 0 0 prio (Some a) 4096 k))"
| "exec (Resume cpu ints_disabled t) (W, k) = map_option (\<lambda>(k', r). (W, k')) (thread_resume cpu ints_disabled t k)"
| "exec (Set_real_time cpu t) (W, k) = map_option (\<lambda>(k', r). (W, k')) (thread_set_real_time cpu (Some t) k)"
| "exec (Join cpu t timeout) (W, k) = map_option
     (\<lambda>(k', r). (case r of Returned _ \<Rightarrow> W | Switched \<Rightarrow> W(current k cpu := Some timeout), k'))
     (thread_join cpu t timeout k)"
| "exec (Detach cpu t) (W, k) = map_option (\<lambda>(k', r). (W, k')) (thread_detach cpu t k)"
| "exec (Exit cpu rc) (W, k) = map_option (Pair W) (thread_exit cpu rc k)"
| "exec (Tick cpu) (W, k) = map_option (\<lambda>(k', r). (W, k'))
     (timer_tick (Suc (2 * length (timer_queue k cpu))) (kernel_callback no_other cpu) cpu (current_time k) k)"
| "exec (Advance now) (W, k) = Some (W, k\<lparr>current_time := now\<rparr>)"

text \<open>
  What a caller must keep to. \<open>caller C W k cpu\<close>: the CPU runs and its thread is not inside
  \<^verbatim>\<open>wait_queue_block\<close>. A thread that blocks or asks for an immediate reschedule is not an
  idle thread, wait queues are initialised, thread pointers are live, timeouts are below
  \<open>2 ^ 30\<close> or infinite, priorities are in range, a thread is flagged real-time only by
  itself or while it runs nowhere, and a timer interrupt is never later than \<open>2 ^ 30\<close>
  milliseconds.
\<close>

definition caller :: "nat set \<Rightarrow> waiting \<Rightarrow> kstate \<Rightarrow> nat \<Rightarrow> bool" where
  "caller C W k cpu \<longleftrightarrow> cpu \<in> C \<and> W (current k cpu) = None"

definition blockable :: "nat set \<Rightarrow> waiting \<Rightarrow> kstate \<Rightarrow> nat \<Rightarrow> bool" where
  "blockable C W k cpu \<longleftrightarrow> caller C W k cpu \<and> \<not> thread_is_idle (thr k (current k cpu))"

definition timeout_ok :: "nusa_time_t \<Rightarrow> bool" where
  "timeout_ok timeout \<longleftrightarrow> timeout = INFINITE_TIME \<or> uint timeout < 2 ^ 30"

fun enabled :: "nat set \<Rightarrow> kop \<Rightarrow> waiting \<times> kstate \<Rightarrow> bool" where
  "enabled C (Yield cpu) (W, k) = caller C W k cpu"
| "enabled C (Preempt cpu) (W, k) = (cpu \<in> C)"
| "enabled C (Set_priority cpu p) (W, k) = blockable C W k cpu"
| "enabled C (Sleep cpu delay) (W, k) = (blockable C W k cpu \<and> uint delay < 2 ^ 30)"
| "enabled C (Wq_init n) (W, k) = (wq_list (wq k (wait_queue_at n)) = [])"
| "enabled C (Block cpu w timeout) (W, k) =
     (blockable C W k cpu \<and> wq_magic (wq k w) = WAIT_QUEUE_MAGIC \<and> timeout_ok timeout)"
| "enabled C (Block_return cpu) (W, k) = (cpu \<in> C \<and> W (current k cpu) \<noteq> None)"
| "enabled C (Wake_one cpu w reschedule e) (W, k) =
     (wq_magic (wq k w) = WAIT_QUEUE_MAGIC \<and> (reschedule \<longrightarrow> blockable C W k cpu))"
| "enabled C (Wake_all cpu w reschedule e) (W, k) =
     (wq_magic (wq k w) = WAIT_QUEUE_MAGIC \<and> (reschedule \<longrightarrow> blockable C W k cpu))"
| "enabled C (Wq_destroy cpu n reschedule) (W, k) =
     (wq_magic (wq k (wait_queue_at n)) = WAIT_QUEUE_MAGIC \<and> (reschedule \<longrightarrow> blockable C W k cpu))"
| "enabled C (Create cpu a name prio) (W, k) =
     (\<not> live (thr k (thread_at a)) \<and> wq_list (wq k (retcode_wait_queue (thread_at a))) = [] \<and> 0 \<le> prio \<and> prio < 32)"
| "enabled C (Resume cpu ints_disabled t) (W, k) =
     (caller C W k cpu \<and> live (thr k t) \<and> t_state (thr k t) \<noteq> THREAD_DEATH)"
| "enabled C (Set_real_time cpu t) (W, k) =
     (cpu \<in> C \<and> live (thr k t) \<and> (t = current k cpu \<or> t_state (thr k t) \<noteq> THREAD_RUNNING))"
| "enabled C (Join cpu t timeout) (W, k) = (blockable C W k cpu \<and> live (thr k t) \<and> timeout_ok timeout)"
| "enabled C (Detach cpu t) (W, k) = live (thr k t)"
| "enabled C (Exit cpu rc) (W, k) = blockable C W k cpu"
| "enabled C (Tick cpu) (W, k) = (cpu \<in> C)"
| "enabled C (Advance now) (W, k) =
     (- (2 ^ 30) < sint (now - current_time k) \<and> sint (now - current_time k) < 2 ^ 30 \<and>
      (\<forall>c. \<forall>t\<in>set (timer_queue k c). in_window now (tmr k t)))"

definition can_bring_up :: "nat set \<Rightarrow> nat \<Rightarrow> kstate \<Rightarrow> bool" where
  "can_bring_up C cpu k \<longleftrightarrow> cpu \<notin> C \<and> \<not> live (thr k (idle_thread cpu)) \<and>
     wq_list (wq k (retcode_wait_queue (idle_thread cpu))) = [] \<and> tm_magic (tmr k (preempt_timer cpu)) = TIMER_MAGIC"

text \<open>
  The states the kernel reaches: after booting the first of \<open>n\<close> CPUs, by enabled operations
  on the running CPUs and by bringing up another CPU, whose idle thread does not exist yet.
\<close>

inductive kreach :: "nat \<Rightarrow> nat set \<Rightarrow> waiting \<Rightarrow> kstate \<Rightarrow> bool" for n where
  booted: "boot n = Some k \<Longrightarrow> kreach n {0} (\<lambda>_. None) k"
| step: "kreach n C W k \<Longrightarrow> enabled C op (W, k) \<Longrightarrow> exec op (W, k) = Some (W', k') \<Longrightarrow> kreach n C W' k'"
| up: "kreach n C W k \<Longrightarrow> can_bring_up C cpu k \<Longrightarrow> bring_up cpu k = Some k' \<Longrightarrow> kreach n (insert cpu C) W k'"

lemma kinv_wait_queue_init:
  assumes k: "kinv C W k" and w: "wq_list (wq k (wait_queue_at n)) = []"
  shows "kinv C W (wait_queue_init (wait_queue_at n) k)"
proof -
  have q: "queues_ok k" using k by (simp add: kinv_def sched_def)
  have "wait_queue_init (wait_queue_at n) k = wq_upd (wait_queue_at n) (\<lambda>x. x\<lparr>wq_magic := WAIT_QUEUE_MAGIC\<rparr>) k"
  proof -
    have "(wq k (wait_queue_at n))\<lparr>wq_magic := WAIT_QUEUE_MAGIC\<rparr> = \<lparr>wq_magic = WAIT_QUEUE_MAGIC, wq_count = 0, wq_list = []\<rparr>"
      using wq_count_length [OF q, of "wait_queue_at n"] w by (cases "wq k (wait_queue_at n)") simp
    then show ?thesis by (simp add: wait_queue_init_def wq_upd_def)
  qed
  then show ?thesis using kinv_wq_magic [OF k w] by simp
qed

lemma kinv_time:
  assumes "kinv C W k" and "\<forall>c. sorted_queue now c k"
  shows "kinv C W (k\<lparr>current_time := now\<rparr>)"
proof -
  have "sched C {} {} (k\<lparr>current_time := now\<rparr>) = sched C {} {} k" by (rule sched_cong) simp_all
  moreover have "timers_ok C W (k\<lparr>current_time := now\<rparr>)"
  proof -
    have a: "timer_inv (k\<lparr>current_time := now\<rparr>) = timer_inv k" by (simp add: timer_inv_def)
    have b: "sorted_queue m c (k\<lparr>current_time := now\<rparr>) = sorted_queue m c k" for m c by (simp add: sorted_queue_def)
    show ?thesis using assms unfolding kinv_def timers_ok_def timers_sorted_def by (simp add: a b)
  qed
  ultimately show ?thesis using assms(1) by (simp add: kinv_def)
qed

lemma kinv_hw: "kinv C W (k\<lparr>hw_timer := h\<rparr>) = kinv C W k"
proof -
  have "sched C {} {} (k\<lparr>hw_timer := h\<rparr>) = sched C {} {} k" by (rule sched_cong) simp_all
  moreover have "timers_ok C W (k\<lparr>hw_timer := h\<rparr>) = timers_ok C W k" by (rule timers_ok_cong) simp_all
  ultimately show ?thesis by (simp add: kinv_def)
qed

lemma kinv_sorted: "kinv C W k \<Longrightarrow> timer_inv k \<and> sorted_queue (current_time k) c k"
  by (simp add: kinv_def timers_ok_def timers_sorted_def)

lemma timer_tick_kinv:
  assumes "kinv C W k"
  shows "\<exists>k' r. timer_tick (Suc (2 * length (timer_queue k cpu))) (kernel_callback other cpu) cpu (current_time k) k =
      Some (k', r) \<and> kinv C W k' \<and> tick_post cpu (current_time k) k k' \<and>
      (\<forall>t q. timer_queue k' cpu = t # q \<longrightarrow> hw_timer k' cpu = Some (scheduled_time (tmr k' t) - current_time k))"
proof -
  obtain k' k1 r where k': "timer_tick (Suc (2 * length (timer_queue k cpu))) (kernel_callback other cpu) cpu (current_time k) k =
      Some (k', r)" "tick_post cpu (current_time k) k k'" "kinv C W k1" "k' = k1\<lparr>hw_timer := hw_timer k'\<rparr>"
      "\<forall>t q. timer_queue k' cpu = t # q \<longrightarrow> hw_timer k' cpu = Some (scheduled_time (tmr k' t) - current_time k)"
    using kernel_timers.tick_returns [of C W k "current_time k" cpu "Suc (2 * length (timer_queue k cpu))" other cpu]
      kinv_sorted [OF assms, of cpu] assms by auto
  then have "kinv C W k'" using kinv_hw [where k = k1 and h = "hw_timer k'"] by simp
  then show ?thesis using k' by blast
qed

lemma wake_one_ok:
  assumes k: "kinv C W k" and m: "wq_magic (wq k w) = WAIT_QUEUE_MAGIC" and re: "reschedule \<longrightarrow> blockable C W k cpu"
  shows "\<exists>k' n. wait_queue_wake_one cpu w reschedule e k = Some (k', n) \<and> kinv C W k'"
proof (cases "wq_list (wq k w)")
  case Nil
  then show ?thesis using k m by (simp add: wait_queue_wake_one_def)
next
  case (Cons t ts)
  show ?thesis
  proof (cases reschedule)
    case True
    then show ?thesis
      using wait_queue_wake_one_resched_ok [OF k _ _ m Cons, of cpu e] re by (auto simp: blockable_def caller_def)
  next
    case False
    then show ?thesis using wait_queue_wake_one_eq(2) [OF k m Cons, of e] by (simp add: wait_queue_wake_one_eq(1) [OF k m Cons])
  qed
qed

lemma wake_all_ok:
  assumes k: "kinv C W k" and m: "wq_magic (wq k w) = WAIT_QUEUE_MAGIC" and re: "reschedule \<longrightarrow> blockable C W k cpu"
  shows "\<exists>k' n. wait_queue_wake_all cpu w reschedule e k = Some (k', n) \<and> kinv C W k'"
  using wait_queue_wake_all_ok [OF k m, of cpu e] wait_queue_wake_all_resched_ok [OF k _ _ m, of cpu e] re
  by (cases reschedule) (auto simp: blockable_def caller_def)

lemma block_ok:
  assumes k: "kinv C W k" and b: "blockable C W k cpu" and m: "wq_magic (wq k w) = WAIT_QUEUE_MAGIC" and t: "timeout_ok timeout"
  shows "\<exists>k' r. wait_queue_block cpu w timeout k = Some (k', r) \<and>
     kinv C (case r of Returned _ \<Rightarrow> W | Switched \<Rightarrow> W(current k cpu := Some timeout)) k'"
proof (cases "timeout = 0")
  case True
  have "cpu \<in> C" using b by (simp add: blockable_def caller_def)
  then have "wait_queue_block cpu w timeout k = Some (k, Returned ERR_TIMED_OUT)"
    using True m kinv_running(1) [OF k] by (simp add: wait_queue_block_def Let_def)
  then show ?thesis using k by simp
next
  case False
  then show ?thesis
    using wait_queue_block_ok [OF k _ _ _ m False, of cpu] b t by (auto simp: blockable_def caller_def timeout_ok_def)
qed

lemma exec_kinv:
  assumes k: "kinv C W k" and e: "enabled C op (W, k)"
  shows "\<exists>W' k'. exec op (W, k) = Some (W', k') \<and> kinv C W' k'"
proof (cases op)
  case (Yield cpu)
  with e have "cpu \<in> C" by (simp add: caller_def)
  then show ?thesis using thread_yield_ok [OF k, of cpu] unfolding Yield by fastforce
next
  case (Preempt cpu)
  with e have "cpu \<in> C" by simp
  then show ?thesis using thread_preempt_ok [OF k, of cpu] unfolding Preempt by fastforce
next
  case (Set_priority cpu p)
  with e have "cpu \<in> C" "\<not> thread_is_idle (thr k (current k cpu))" by (simp_all add: blockable_def caller_def)
  from thread_set_priority_ok [OF k this, of p] show ?thesis unfolding Set_priority by fastforce
next
  case (Sleep cpu delay)
  with e have "cpu \<in> C" "\<not> thread_is_idle (thr k (current k cpu))" "W (current k cpu) = None" "uint delay < 2 ^ 30"
    by (simp_all add: blockable_def caller_def)
  from thread_sleep_ok [OF k this] show ?thesis unfolding Sleep by fastforce
next
  case (Wq_init n)
  then show ?thesis using kinv_wait_queue_init [OF k, of n] e by simp
next
  case (Block cpu w timeout)
  with e have "blockable C W k cpu" "wq_magic (wq k w) = WAIT_QUEUE_MAGIC" "timeout_ok timeout" by simp_all
  from block_ok [OF k this] show ?thesis unfolding Block by fastforce
next
  case (Block_return cpu)
  with e obtain timeout where w: "W (current k cpu) = Some timeout" and c: "cpu \<in> C" by auto
  from wait_queue_block_return_ok [OF k c w] show ?thesis unfolding Block_return by (fastforce simp: w)
next
  case (Wake_one cpu w reschedule e')
  with e have "wq_magic (wq k w) = WAIT_QUEUE_MAGIC" "reschedule \<longrightarrow> blockable C W k cpu" by simp_all
  from wake_one_ok [OF k this, of e'] show ?thesis unfolding Wake_one by fastforce
next
  case (Wake_all cpu w reschedule e')
  with e have "wq_magic (wq k w) = WAIT_QUEUE_MAGIC" "reschedule \<longrightarrow> blockable C W k cpu" by simp_all
  from wake_all_ok [OF k this, of e'] show ?thesis unfolding Wake_all by fastforce
next
  case (Wq_destroy cpu n reschedule)
  with e have "wq_magic (wq k (wait_queue_at n)) = WAIT_QUEUE_MAGIC"
    "reschedule \<longrightarrow> cpu \<in> C \<and> \<not> thread_is_idle (thr k (current k cpu))" by (simp_all add: blockable_def caller_def)
  from wait_queue_destroy_ok [OF k this refl] show ?thesis unfolding Wq_destroy by fastforce
next
  case (Create cpu a name prio)
  obtain k' r where r: "thread_create_etc cpu (Some (thread_at a)) None name 0 0 prio None (Some a) 4096 k = (k', r)" by fastforce
  have "kinv C W k'"
    by (rule thread_create_etc_ok [OF k _ _ _ _ _ r, where a = a]) (use e Create in simp_all)
  then show ?thesis using r unfolding Create by (simp add: thread_create_def)
next
  case (Resume cpu ints_disabled t)
  with e have "cpu \<in> C" "live (thr k t)" "t_state (thr k t) \<noteq> THREAD_DEATH" by (simp_all add: caller_def)
  from thread_resume_ok [OF k this, of ints_disabled] show ?thesis unfolding Resume by fastforce
next
  case (Set_real_time cpu t)
  with e have c: "cpu \<in> C" "live (thr k t)" and r: "t = current k cpu \<or> t_state (thr k t) \<noteq> THREAD_RUNNING" by simp_all
  have "current k c \<noteq> t" if "c \<in> C" "c \<noteq> cpu" for c
    using kinv_running(1) [OF k that(1)] other_current [OF k that(1) c(1) that(2)] r by auto
  from thread_set_real_time_ok [OF k c this] show ?thesis unfolding Set_real_time by fastforce
next
  case (Join cpu t timeout)
  with e have "cpu \<in> C" "\<not> thread_is_idle (thr k (current k cpu))" "W (current k cpu) = None" "live (thr k t)"
    "timeout \<noteq> INFINITE_TIME \<longrightarrow> uint timeout < 2 ^ 30" by (auto simp: blockable_def caller_def timeout_ok_def)
  from thread_join_ok [OF k this] show ?thesis unfolding Join by fastforce
next
  case (Detach cpu t)
  with e have "live (thr k t)" by simp
  from thread_detach_ok [OF k this, of cpu] show ?thesis unfolding Detach by fastforce
next
  case (Exit cpu rc)
  with e have "cpu \<in> C" "\<not> thread_is_idle (thr k (current k cpu))" "W (current k cpu) = None"
    by (simp_all add: blockable_def caller_def)
  from thread_exit_ok [OF k this, of rc] show ?thesis unfolding Exit by fastforce
next
  case (Tick cpu)
  obtain k' r where "timer_tick (Suc (2 * length (timer_queue k cpu))) (kernel_callback no_other cpu) cpu (current_time k) k =
      Some (k', r)" "kinv C W k'" using timer_tick_kinv [OF k, of cpu no_other] by blast
  then show ?thesis unfolding Tick by simp
next
  case (Advance now)
  with e have a: "- (2 ^ 30) < sint (now - current_time k)" "sint (now - current_time k) < 2 ^ 30"
    "\<And>c t. t \<in> set (timer_queue k c) \<Longrightarrow> in_window now (tmr k t)" by auto
  have "sorted_queue now c k" for c
    using kinv_sorted [OF k, of c] a sorted_queue_advance by blast
  then show ?thesis using kinv_time [OF k] unfolding Advance by simp
qed

lemma kreach_kinv:
  assumes "0 < n" and "kreach n C W k"
  shows "kinv C W k"
  using assms(2)
proof (induction rule: kreach.induct)
  case (booted k)
  then show ?case using boot_kinv [OF assms(1)] by simp
next
  case (step C W k op W' k')
  then show ?case using exec_kinv [of C W k op] by simp
next
  case (up C W k cpu k')
  then show ?case using bring_up_ok [of C W k cpu] by (simp add: can_bring_up_def)
qed

section \<open>Properties of the running kernel\<close>


lemma boot_2:
  "\<exists>k. boot 2 = Some k \<and> can_bring_up {0} 1 k \<and> current k 0 = idle_thread 0 \<and> timer_queue k 0 = []"
proof -
  have "map_option (\<lambda>k. (can_bring_up {0} 1 k, current k 0, timer_queue k 0)) (boot 2) = Some (True, idle_thread 0, [])"
    by code_simp
  then show ?thesis by auto
qed


text \<open>
  C2: In every state the kernel reaches the scheduler's data structures agree with each
  other: distinct CPUs run distinct live threads that are in state RUNNING; a live thread that
  is not an idle thread is READY exactly when it stands, once, on the run queue of its priority and on no other;
  the bitmap has exactly the bits of the non-empty run queues; a thread stands on a wait
  queue exactly when it is BLOCKED there, and the queue's count is its length.
\<close>

theorem scheduler_consistent:
  assumes "0 < n" and "kreach n C W k"
  shows "inj_on (current k) C \<and>
    (\<forall>c\<in>C. live (thr k (current k c)) \<and> t_state (thr k (current k c)) = THREAD_RUNNING) \<and>
    (\<forall>t p. live (thr k t) \<longrightarrow>
       (t \<in> set (run_queue k p) \<longleftrightarrow>
          \<not> thread_is_idle (thr k t) \<and> t_state (thr k t) = THREAD_READY \<and> priority (thr k t) = int p)) \<and>
    (\<forall>p. distinct (run_queue k p) \<and> (bit (run_queue_bitmap k) p \<longleftrightarrow> run_queue k p \<noteq> [])) \<and>
    (\<forall>t w. live (thr k t) \<longrightarrow>
       (t \<in> set (wq_list (wq k w)) \<longleftrightarrow> t_state (thr k t) = THREAD_BLOCKED \<and> blocking_wait_queue (thr k t) = Some w)) \<and>
    (\<forall>w. distinct (wq_list (wq k w)) \<and> wq_count (wq k w) = int (length (wq_list (wq k w))))"
proof -
  have "kinv C W k" using assms by (rule kreach_kinv)
  then have q: "queues_ok k" and c: "cpus_ok C {} k" and w: "\<And>t. settled (thr k t)" "\<And>t. thread_wf (thr k t)"
    by (simp_all add: kinv_def sched_def)
  have a: "t_queued (thr k t) \<longleftrightarrow> \<not> thread_is_idle (thr k t)" if "live (thr k t)" "t_state (thr k t) = THREAD_READY" for t
    using w [of t] that by (auto simp: settled_def thread_wf_def)
  have b: "t_queued (thr k t)" if "live (thr k t)" "t_state (thr k t) = THREAD_BLOCKED" for t
    using w [of t] that by (simp add: settled_def)
  show ?thesis
    using q c a b unfolding queues_ok_def cpus_ok_def by blast
qed

theorem scheduler_consistent_witness:
  "\<exists>k. boot 2 = Some k \<and> live (thr k (idle_thread 0)) \<and> t_state (thr k (idle_thread 0)) = THREAD_RUNNING"
proof -
  obtain k where k: "boot 2 = Some k" "current k 0 = idle_thread 0" using boot_2 by blast
  have "kreach 2 {0} (\<lambda>_. None) k" using k(1) by (rule kreach.booted)
  from scheduler_consistent [OF _ this] show ?thesis using k by auto
qed

end
