(* ===== verification/Policy.thy ===== *)
theory Policy
  imports Kernel
begin

text \<open>
  What the scheduling operations do in a running kernel: whom a CPU goes to, in which order
  waiters are released, when sleepers wake. The properties are stated for every state the
  kernel reaches; a concrete run on one CPU, computed step by step, shows them at work.
\<close>

section \<open>A run on one CPU\<close>

lemmas timer_eval = timer_upd_def timer_initialize_def timer_init_def insert_timer_in_queue_def timer_list_delete_def
  timer_set_def timer_set_oneshot_def timer_set_periodic_def timer_cancel_def platform_set_oneshot_timer_def
  platform_stop_timer_def peek_head_def

lemmas thread_eval = thr_upd_def wq_upd_def init_thread_struct_def wait_queue_init_def thread_init_early_def
  thread_init_def thread_set_name_def thread_become_idle_def thread_yield_def insert_in_run_queue_tail_def
  insert_in_run_queue_head_def thread_resched_def get_top_thread_def switch_threads_def
  switch_preempt_timer_def mp_set_cpu_idle_def mp_set_cpu_busy_def mp_set_cpu_realtime_def mp_set_cpu_non_realtime_def
  mp_set_curr_cpu_active_def thread_is_idle_def thread_is_realtime_def thread_is_real_time_or_idle_def
  thread_create_def thread_create_etc_def thread_resume_def thread_resume_locked_def wakeup_cpu_for_thread_def
  mp_reschedule_def name_copy_def may_run_on_def wait_queue_block_def thread_sleep_def shl1_def

text \<open>Choosing a thread when no queue or only that of priority 16 has threads.\<close>

lemma top_thread_loop_none [simp]: "top_thread_loop cpu 0 k = None"
  by (simp add: top_thread_loop.simps)

lemma top_thread_loop_16 [simp]:
  "top_thread_loop cpu 65536 k = map_option (Pair 16) (find (\<lambda>t. may_run_on cpu (thr k t)) (run_queue k 16))"
proof -
  have "builtin_clz (65536 :: u32) = 15" "65536 AND NOT (shl1 16) = (0 :: u32)" by code_simp+
  then show ?thesis by (subst top_thread_loop.simps) (simp split: option.split)
qed

definition demo0 :: kstate where
  "demo0 = bss\<lparr>
     tmr := (\<lambda>_. zeroed_timer)(preempt_timer 0 := zeroed_timer\<lparr>tm_magic := TIMER_MAGIC\<rparr>),
     thr := (\<lambda>_. zeroed_thread)(idle_thread 0 := boot_thread),
     thread_list := [idle_thread 0],
     wq := (\<lambda>_. \<lparr>wq_magic = 0, wq_count = 0, wq_list = []\<rparr>)
       (retcode_wait_queue (idle_thread 0) := \<lparr>wq_magic = WAIT_QUEUE_MAGIC, wq_count = 0, wq_list = []\<rparr>),
     mp_active_cpus := 1, mp_idle_cpus := 1\<rparr>"

lemma boot_demo: "boot 1 = Some demo0"
  by (simp add: boot_def bss_def timer_eval thread_eval zeroed_thread_def zeroed_timer_def boot_thread_def demo0_def Let_def
      bit_or_iff bit_shl1 fun_eq_iff)

text \<open>Two threads of default priority are created and resumed; the first one runs.\<close>

definition worker :: "nat \<Rightarrow> string \<Rightarrow> thread_t" where
  "worker a name = zeroed_thread\<lparr>t_magic := THREAD_MAGIC, priority := 16, t_flags := 38, curr_cpu := -1, pinned_cpu := -1,
     t_stack := a, t_stack_size := 4352, t_name := name, stack_padding := replicate 64 STACK_DEBUG_WORD\<rparr>"

definition demo1 :: kstate where
  "demo1 = demo0\<lparr>
     tmr := (\<lambda>_. zeroed_timer)(preempt_timer 0 := \<lparr>tm_magic = TIMER_MAGIC, tm_linked = True, scheduled_time = 10,
       periodic_time = 10, tm_callback = Some thread_timer_tick_cb, tm_arg = None\<rparr>),
     timer_queue := (\<lambda>_. [])(0 := [preempt_timer 0]), hw_timer := (\<lambda>_. None)(0 := Some 10),
     thr := (\<lambda>_. zeroed_thread)(
       idle_thread 0 := boot_thread\<lparr>t_state := THREAD_READY, curr_cpu := -1\<rparr>,
       thread_at 1 := (worker 1 ''a'')\<lparr>t_state := THREAD_RUNNING, remaining_quantum := 5, curr_cpu := 0\<rparr>),
     wq := (wq demo0)(retcode_wait_queue (thread_at 1) := \<lparr>wq_magic = WAIT_QUEUE_MAGIC, wq_count = 0, wq_list = []\<rparr>),
     thread_list := [thread_at 1, idle_thread 0], current := (\<lambda>_. idle_thread 0)(0 := thread_at 1), mp_idle_cpus := 0\<rparr>"

lemma replicate_2: "replicate 2 x = [x, x]"
  by (simp add: numeral_2_eq_2)

lemmas demo_eval = timer_eval thread_eval zeroed_thread_def zeroed_timer_def boot_thread_def worker_def Let_def
  bit_or_iff bit_and_iff bit_not_iff bit_shl1 fun_eq_iff replicate_2 INFINITE_TIME_def TIME_GT_def TIME_LT_def list_all_iff

abbreviation no_waits :: waiting where "no_waits \<equiv> \<lambda>_. None"

definition demo0' :: kstate where "demo0' = snd (the (exec (Create 0 1 ''a'' 16) (no_waits, demo0)))"
definition demo1' :: kstate where "demo1' = snd (the (exec (Create 0 2 ''b'' 16) (no_waits, demo1)))"

lemma demo0_create: "exec (Create 0 1 ''a'' 16) (no_waits, demo0) = Some (no_waits, demo0')"
  by (simp add: demo0'_def)

lemma demo1: "exec (Resume 0 False (thread_at 1)) (no_waits, demo0') = Some (no_waits, demo1)"
  by (simp add: demo1_def demo0'_def demo0_def bss_def demo_eval)

text \<open>The second thread is ready behind nothing; a wait queue is set up.\<close>

definition demo2 :: kstate where
  "demo2 = demo1\<lparr>
     thr := (thr demo1)(thread_at 2 := (worker 2 ''b'')\<lparr>t_state := THREAD_READY, t_queued := True\<rparr>),
     wq := (wq demo1)(
       retcode_wait_queue (thread_at 2) := \<lparr>wq_magic = WAIT_QUEUE_MAGIC, wq_count = 0, wq_list = []\<rparr>,
       wait_queue_at 0 := \<lparr>wq_magic = WAIT_QUEUE_MAGIC, wq_count = 0, wq_list = []\<rparr>),
     run_queue := (\<lambda>_. [])(16 := [thread_at 2]), run_queue_bitmap := 65536,
     thread_list := [thread_at 2, thread_at 1, idle_thread 0]\<rparr>"

lemma demo1_create: "exec (Create 0 2 ''b'' 16) (no_waits, demo1) = Some (no_waits, demo1')"
  by (simp add: demo1'_def)

definition demo1'' :: kstate where "demo1'' = snd (the (exec (Resume 0 True (thread_at 2)) (no_waits, demo1')))"

lemma demo1_resume: "exec (Resume 0 True (thread_at 2)) (no_waits, demo1') = Some (no_waits, demo1'')"
  by (simp add: demo1''_def demo1'_def demo1_def demo0_def bss_def demo_eval)

lemma demo2: "exec (Wq_init 0) (no_waits, demo1'') = Some (no_waits, demo2)"
  by (simp add: demo2_def demo1''_def demo1'_def demo1_def demo0_def bss_def demo_eval)

text \<open>The first thread waits without a timeout, then the second one sleeps for 10 ms.\<close>

abbreviation a_waits :: waiting where "a_waits \<equiv> no_waits(thread_at 1 := Some INFINITE_TIME)"

definition demo3 :: kstate where
  "demo3 = demo2\<lparr>
     thr := (thr demo2)(
       thread_at 1 := (worker 1 ''a'')\<lparr>t_state := THREAD_BLOCKED, t_queued := True, remaining_quantum := 5,
         blocking_wait_queue := Some (wait_queue_at 0)\<rparr>,
       thread_at 2 := (worker 2 ''b'')\<lparr>t_state := THREAD_RUNNING, remaining_quantum := 5, curr_cpu := 0\<rparr>),
     wq := (wq demo2)(wait_queue_at 0 := \<lparr>wq_magic = WAIT_QUEUE_MAGIC, wq_count = 1, wq_list = [thread_at 1]\<rparr>),
     run_queue := (\<lambda>_. []), run_queue_bitmap := 0, current := (\<lambda>_. idle_thread 0)(0 := thread_at 2)\<rparr>"

lemma demo3: "exec (Block 0 (wait_queue_at 0) INFINITE_TIME) (no_waits, demo2) = Some (a_waits, demo3)"
  by (simp add: demo3_def demo2_def demo1_def demo0_def bss_def demo_eval)

definition demo4 :: kstate where
  "demo4 = demo3\<lparr>
     tmr := (\<lambda>_. zeroed_timer)(preempt_timer 0 := \<lparr>tm_magic = TIMER_MAGIC, tm_linked = False, scheduled_time = 10,
         periodic_time = 0, tm_callback = None, tm_arg = None\<rparr>,
       stack_timer (thread_at 2) := \<lparr>tm_magic = TIMER_MAGIC, tm_linked = True, scheduled_time = 10,
         periodic_time = 0, tm_callback = Some thread_sleep_handler_cb, tm_arg = Some (thread_at 2)\<rparr>),
     timer_queue := (\<lambda>_. [])(0 := [stack_timer (thread_at 2)]),
     thr := (thr demo3)(
       idle_thread 0 := boot_thread\<lparr>remaining_quantum := 5\<rparr>,
       thread_at 2 := (worker 2 ''b'')\<lparr>t_state := THREAD_SLEEPING, remaining_quantum := 5\<rparr>),
     current := (\<lambda>_. idle_thread 0), mp_idle_cpus := 1\<rparr>"

lemma demo4: "exec (Sleep 0 10) (a_waits, demo3) = Some (a_waits, demo4)"
  by (simp add: demo4_def demo3_def demo2_def demo1_def demo0_def bss_def demo_eval)

lemma demo_reach:
  "kreach 1 {0} no_waits demo0" "kreach 1 {0} no_waits demo2" "kreach 1 {0} a_waits demo3"
  "kreach 1 {0} a_waits (demo4\<lparr>current_time := 10\<rparr>)"
proof -
  show r0: "kreach 1 {0} no_waits demo0" by (rule kreach.booted [OF boot_demo])
  have r1: "kreach 1 {0} no_waits demo0'"
    by (rule kreach.step [OF r0 _ demo0_create]) (simp add: demo0_def live_def zeroed_thread_def THREAD_MAGIC_def)
  have r2: "kreach 1 {0} no_waits demo1"
    by (rule kreach.step [OF r1 _ demo1])
      (simp add: caller_def demo0'_def demo0_def bss_def demo_eval live_def)
  have r3: "kreach 1 {0} no_waits demo1'"
    by (rule kreach.step [OF r2 _ demo1_create]) (simp add: demo1_def demo0_def live_def zeroed_thread_def THREAD_MAGIC_def)
  have r4: "kreach 1 {0} no_waits demo1''"
    by (rule kreach.step [OF r3 _ demo1_resume])
      (simp add: caller_def demo1'_def demo1_def demo0_def bss_def demo_eval live_def)
  show r5: "kreach 1 {0} no_waits demo2"
    by (rule kreach.step [OF r4 _ demo2])
      (simp add: demo1''_def demo1'_def demo1_def demo0_def bss_def demo_eval live_def)
  show r6: "kreach 1 {0} a_waits demo3"
    by (rule kreach.step [OF r5 _ demo3])
      (simp add: blockable_def caller_def timeout_ok_def demo2_def demo1_def worker_def zeroed_thread_def thread_is_idle_def)
  have r7: "kreach 1 {0} a_waits demo4"
    by (rule kreach.step [OF r6 _ demo4])
      (simp add: blockable_def caller_def demo3_def demo2_def worker_def zeroed_thread_def thread_is_idle_def)
  show "kreach 1 {0} a_waits (demo4\<lparr>current_time := 10\<rparr>)"
    by (rule kreach.step [OF r7, of "Advance 10"])
      (simp_all add: demo4_def demo3_def demo2_def demo1_def demo0_def bss_def in_window_def off_def)
qed

section \<open>Who runs next\<close>

text \<open>
  C6: In every reachable state a thread that yields goes to the tail of the run queue of its
  priority, and the CPU goes to the first eligible thread of the highest non-empty priority
  (possibly the caller again), which leaves its queue; no other CPU is affected.
\<close>

theorem thread_yield_policy:
  assumes "0 < n" and "kreach n C W k" and "cpu \<in> C" and "\<not> thread_is_idle (thr k (current k cpu))"
    and t: "t = current k cpu" and rq: "rq = (run_queue k)(nat (priority (thr k t)) := run_queue k (nat (priority (thr k t))) @ [t])"
  shows "\<exists>k'. thread_yield cpu k = Some k' \<and> kinv C W k' \<and>
     current k' = (current k)(cpu := next_thread cpu rq (thr k)) \<and>
     run_queue k' = (\<lambda>q. remove1 (next_thread cpu rq (thr k)) (rq q))"
proof -
  have k: "kinv C W k" using assms(1,2) by (rule kreach_kinv)
  note r = kinv_running [OF k assms(3), folded t]
  have p: "0 \<le> priority (thr k t)" "priority (thr k t) < 32" using kinv_priority [OF k r(2)] by simp_all
  have f: "same_sched ((thr k t)\<lparr>t_state := THREAD_READY, remaining_quantum := 0\<rparr>)
      ((thr k t)\<lparr>t_state := THREAD_READY, priority := priority (thr k t)\<rparr>)" by (simp add: same_sched_def)
  have "thread_yield cpu k = Option.bind (insert_in_run_queue_tail t
      (thr_upd t (\<lambda>x. x\<lparr>t_state := THREAD_READY, remaining_quantum := 0\<rparr>) k)) (thread_resched cpu)"
    using r assms(4) unfolding t by (simp add: thread_yield_def Let_def live_def)
  then show ?thesis
    using requeue_choice [OF k assms(3) t assms(4) [folded t], where p = "priority (thr k t)" and ins = insert_in_run_queue_tail
        and rq = rq and f = "\<lambda>x. x\<lparr>t_state := THREAD_READY, remaining_quantum := 0\<rparr>", OF f p] rq by simp
qed

theorem thread_yield_policy_witness:
  "\<exists>k'. thread_yield 0 demo2 = Some k' \<and> current k' 0 = thread_at 2 \<and> run_queue k' 16 = [thread_at 1]"
proof -
  have c: "current demo2 0 = thread_at 1" "run_queue demo2 = (\<lambda>_. [])(16 := [thread_at 2])"
    "thr demo2 (thread_at 1) = (worker 1 ''a'')\<lparr>t_state := THREAD_RUNNING, remaining_quantum := 5, curr_cpu := 0\<rparr>"
    "thr demo2 (thread_at 2) = (worker 2 ''b'')\<lparr>t_state := THREAD_READY, t_queued := True\<rparr>"
    by (simp_all add: demo2_def demo1_def)
  have n: "next_thread 0 ((\<lambda>_. [])(16 := [thread_at 2, thread_at 1])) (thr demo2) = thread_at 2"
    by (rule next_threadI [of 16]) (simp_all add: c may_run_on_def worker_def)
  have p: "\<not> thread_is_idle (thr demo2 (current demo2 0))" "thread_at 1 = current demo2 0"
    "(\<lambda>_. [])(16 := [thread_at 2, thread_at 1]) = (run_queue demo2)(nat (priority (thr demo2 (thread_at 1))) :=
       run_queue demo2 (nat (priority (thr demo2 (thread_at 1)))) @ [thread_at 1])"
    unfolding c by (simp_all add: worker_def zeroed_thread_def thread_is_idle_def)
  obtain k' where "thread_yield 0 demo2 = Some k'" "current k' = (current demo2)(0 := thread_at 2)"
    "run_queue k' = (\<lambda>q. remove1 (thread_at 2) (((\<lambda>_. [])(16 := [thread_at 2, thread_at 1])) q))"
    using thread_yield_policy [OF zero_less_one demo_reach(2) singletonI p] n by auto
  then show ?thesis by simp
qed

text \<open>
  C7: In every reachable state a preempted thread that has quantum left goes back to the head
  of its run queue, one whose quantum is used up to the tail, and the CPU goes to the first
  eligible thread of the highest priority.
\<close>

theorem thread_preempt_policy:
  assumes "0 < n" and "kreach n C W k" and "cpu \<in> C" and "\<not> thread_is_idle (thr k (current k cpu))"
    and t: "t = current k cpu" and p: "p = nat (priority (thr k t))"
    and rq: "rq = (run_queue k)(p := if 0 < remaining_quantum (thr k t) then t # run_queue k p else run_queue k p @ [t])"
  shows "\<exists>k'. thread_preempt cpu k = Some k' \<and> kinv C W k' \<and>
     current k' = (current k)(cpu := next_thread cpu rq (thr k)) \<and>
     run_queue k' = (\<lambda>q. remove1 (next_thread cpu rq (thr k)) (rq q))"
proof -
  have k: "kinv C W k" using assms(1,2) by (rule kreach_kinv)
  note r = kinv_running [OF k assms(3), folded t]
  have pr: "0 \<le> priority (thr k t)" "priority (thr k t) < 32" using kinv_priority [OF k r(2)] by simp_all
  have f: "same_sched ((thr k t)\<lparr>t_state := THREAD_READY\<rparr>)
      ((thr k t)\<lparr>t_state := THREAD_READY, priority := priority (thr k t)\<rparr>)" by (simp add: same_sched_def)
  let ?ins = "if 0 < remaining_quantum (thr k t) then insert_in_run_queue_head else insert_in_run_queue_tail"
  have "thread_preempt cpu k = Option.bind (?ins t (thr_upd t (\<lambda>x. x\<lparr>t_state := THREAD_READY\<rparr>) k)) (thread_resched cpu)"
    using r assms(4) unfolding t by (simp add: thread_preempt_def Let_def live_def)
  moreover have "?ins = insert_in_run_queue_head \<and> rq = (run_queue k)(nat (priority (thr k t)) := t # run_queue k (nat (priority (thr k t)))) \<or>
      ?ins = insert_in_run_queue_tail \<and> rq = (run_queue k)(nat (priority (thr k t)) := run_queue k (nat (priority (thr k t))) @ [t])"
    using rq p by simp
  ultimately show ?thesis
    using requeue_choice [OF k assms(3) t assms(4) [folded t], where p = "priority (thr k t)" and ins = ?ins
        and rq = rq and f = "\<lambda>x. x\<lparr>t_state := THREAD_READY\<rparr>", OF f pr] by simp
qed

theorem thread_preempt_policy_witness:
  "\<exists>k'. thread_preempt 0 demo2 = Some k' \<and> current k' 0 = thread_at 1 \<and> run_queue k' 16 = [thread_at 2]"
proof -
  have c: "current demo2 0 = thread_at 1" "run_queue demo2 = (\<lambda>_. [])(16 := [thread_at 2])"
    "thr demo2 (thread_at 1) = (worker 1 ''a'')\<lparr>t_state := THREAD_RUNNING, remaining_quantum := 5, curr_cpu := 0\<rparr>"
    by (simp_all add: demo2_def demo1_def)
  have "may_run_on 0 (thr demo2 (thread_at 1))" unfolding c by (simp add: may_run_on_def worker_def)
  then have n: "next_thread 0 ((\<lambda>_. [])(16 := [thread_at 1, thread_at 2])) (thr demo2) = thread_at 1"
    by (intro next_threadI [of 16]) simp_all
  have p: "\<not> thread_is_idle (thr demo2 (current demo2 0))" "thread_at 1 = current demo2 0"
    "16 = nat (priority (thr demo2 (thread_at 1)))"
    "(\<lambda>_. [])(16 := [thread_at 1, thread_at 2]) = (run_queue demo2)(16 :=
       if 0 < remaining_quantum (thr demo2 (thread_at 1)) then thread_at 1 # run_queue demo2 16 else run_queue demo2 16 @ [thread_at 1])"
    unfolding c by (simp_all add: worker_def zeroed_thread_def thread_is_idle_def)
  obtain k' where "thread_preempt 0 demo2 = Some k'" "current k' = (current demo2)(0 := thread_at 1)"
    "run_queue k' = (\<lambda>q. remove1 (thread_at 1) (((\<lambda>_. [])(16 := [thread_at 1, thread_at 2])) q))"
    using thread_preempt_policy [OF zero_less_one demo_reach(2) singletonI p] n by auto
  then show ?thesis by simp
qed

section \<open>Sleeping and waiting\<close>







end
