(* ===== verification/Frames.thy ===== *)
theory Frames
  imports Thread
begin

text \<open>
  Which wait queues and whose wait results an operation of \<^verbatim>\<open>kernel/thread.c\<close> touches, and
  which threads it may add to a wait queue. These
  facts hold in every state, consistent or not: they are read off the code.
\<close>

definition touches :: "wq_id set \<Rightarrow> thread_id set \<Rightarrow> kstate \<Rightarrow> kstate \<Rightarrow> bool" where
  "touches V S k k' \<longleftrightarrow> (\<forall>w. w \<notin> V \<longrightarrow> wq k' w = wq k w) \<and>
     (\<forall>t. t \<notin> S \<longrightarrow> wait_queue_block_ret (thr k' t) = wait_queue_block_ret (thr k t)) \<and>
     (\<forall>w. set (wq_list (wq k' w)) \<subseteq> set (wq_list (wq k w)) \<union> S)"

lemma touches_refl [simp]: "touches V S k k"
  by (simp add: touches_def)

lemma touches_trans: "touches V S k k1 \<Longrightarrow> touches V S k1 k2 \<Longrightarrow> touches V S k k2"
  unfolding touches_def
  apply (intro conjI)
    apply simp
   apply simp
  apply blast
  done

lemma touches_mono: "touches V S k k' \<Longrightarrow> V \<subseteq> V' \<Longrightarrow> S \<subseteq> S' \<Longrightarrow> touches V' S' k k'"
  unfolding touches_def by blast

lemma touches_none: "touches {} {} k k' \<Longrightarrow> touches V S k k'"
  by (erule touches_mono) auto

lemma touches_none_iff: "touches {} {} k k' \<longleftrightarrow>
    wq k' = wq k \<and> (\<forall>t. wait_queue_block_ret (thr k' t) = wait_queue_block_ret (thr k t))"
proof -
  have "wq k' = wq k \<longleftrightarrow> (\<forall>w. wq k' w = wq k w)" by (rule fun_eq_iff)
  then show ?thesis by (auto simp: touches_def)
qed

lemma wq_upd_touches:
  "set (wq_list (g (wq k w))) \<subseteq> set (wq_list (wq k w)) \<union> S \<Longrightarrow> touches {w} S k (wq_upd w g k)"
  by (simp add: touches_def wq_upd_def)

lemma thr_upd_touches: "t \<in> S \<Longrightarrow> touches V S k k1 \<Longrightarrow> touches V S k (thr_upd t f k1)"
  by (auto simp: touches_def thr_upd_def)

section \<open>Timers and run queues\<close>

lemma timer_set_frame: "timer_set cpu t delay period cb arg k = Some k' \<Longrightarrow> wq k' = wq k \<and> thr k' = thr (k :: kstate) \<and> current k' = current k"
  by (auto simp: timer_set_def Let_def insert_timer_in_queue_def timer_upd_def platform_set_oneshot_timer_def split: if_splits)

lemma timer_cancel_frame: "timer_cancel cpu t k = Some k' \<Longrightarrow> wq k' = wq k \<and> thr k' = thr (k :: kstate) \<and> current k' = current k"
  by (auto simp: timer_cancel_def Let_def timer_list_delete_def timer_upd_def platform_set_oneshot_timer_def
      platform_stop_timer_def split: if_splits option.splits)

lemma timer_initialize_frame:
  "wq (timer_initialize t k) = wq k" "thr (timer_initialize t k) = thr (k :: kstate)" "current (timer_initialize t k) = current k"
  by (simp_all add: timer_initialize_def timer_upd_def)

lemma insert_head_frame:
  "insert_in_run_queue_head t k = Some k' \<Longrightarrow> touches {} {} k k' \<and> current k' = current k"
  by (auto simp: insert_in_run_queue_head_def touches_def thr_upd_def Let_def)

lemma insert_tail_frame:
  "insert_in_run_queue_tail t k = Some k' \<Longrightarrow> touches {} {} k k' \<and> current k' = current k"
  by (auto simp: insert_in_run_queue_tail_def touches_def thr_upd_def Let_def)

lemma thr_upd_frame:
  "(\<And>x. wait_queue_block_ret (f x) = wait_queue_block_ret x) \<Longrightarrow> touches {} {} k (thr_upd t f k)"
  by (simp add: touches_def thr_upd_def)

lemma mp_frames [simp]:
  "wq (mp_set_cpu_idle c k) = wq k" "thr (mp_set_cpu_idle c k) = thr k"
  "wq (mp_set_cpu_busy c k) = wq k" "thr (mp_set_cpu_busy c k) = thr k"
  "wq (mp_set_cpu_realtime c k) = wq k" "thr (mp_set_cpu_realtime c k) = thr k"
  "wq (mp_set_cpu_non_realtime c k) = wq k" "thr (mp_set_cpu_non_realtime c k) = thr k"
  "current (mp_set_cpu_idle c k) = current k" "current (mp_set_cpu_busy c k) = current k"
  "current (mp_set_cpu_realtime c k) = current k" "current (mp_set_cpu_non_realtime c k) = current k"
  by (simp_all add: mp_set_cpu_idle_def mp_set_cpu_busy_def mp_set_cpu_realtime_def mp_set_cpu_non_realtime_def)

lemma mp_reschedule_touches: "touches V S k (mp_reschedule cpu target flags k) \<and> current (mp_reschedule cpu target flags k) = current k"
  by (simp add: touches_def mp_reschedule_def Let_def)

lemma wakeup_touches: "touches V S k (wakeup_cpu_for_thread cpu t k) \<and> current (wakeup_cpu_for_thread cpu t k) = current k"
  using mp_reschedule_touches by (simp add: wakeup_cpu_for_thread_def Let_def)

lemma get_top_frame: "get_top_thread cpu k = (t, k') \<Longrightarrow> touches {} {} k k' \<and> current k' = current k"
  by (auto simp: get_top_thread_def touches_def thr_upd_def Let_def split: option.splits prod.splits if_splits)

lemma switch_threads_touches: "touches {} {} k (switch_threads cpu old new k)"
  by (simp add: switch_threads_def touches_def thr_upd_def Let_def)

lemma switch_preempt_frame: "switch_preempt_timer cpu x y k = Some k' \<Longrightarrow> wq k' = wq k \<and> thr k' = thr k"
  by (auto simp: switch_preempt_timer_def timer_set_periodic_def Let_def dest: timer_set_frame timer_cancel_frame split: if_splits)

lemma thread_resched_touches:
  assumes "thread_resched cpu k = Some k'"
  shows "touches {} {} k k'"
proof -
  obtain t k1 where g: "get_top_thread cpu k = (t, k1)" by fastforce
  let ?k2 = "thr_upd t (\<lambda>x. x\<lparr>t_state := THREAD_RUNNING\<rparr>) k1"
  have a: "touches {} {} k ?k2" using get_top_frame [OF g] thr_upd_frame [of "\<lambda>x. x\<lparr>t_state := THREAD_RUNNING\<rparr>" k1 t]
    by (auto intro: touches_trans)
  show ?thesis
  proof (cases "t = current k cpu")
    case True
    then show ?thesis using assms g a by (simp add: thread_resched_def Let_def split: if_splits)
  next
    case False
    let ?k3 = "switch_threads cpu (current k cpu) t ?k2"
    obtain k4 where k4: "switch_preempt_timer cpu (thr ?k3 (current k cpu)) (thr ?k3 t) ?k3 = Some k4"
      "wq k' = wq k4" "thr k' = thr k4"
      using assms g False by (auto simp: thread_resched_def Let_def bind_eq_Some_conv)
    then have "touches {} {} ?k3 k'" using switch_preempt_frame [OF k4(1)] by (simp add: touches_def)
    then show ?thesis using a switch_threads_touches touches_trans by blast
  qed
qed

section \<open>Scheduling operations\<close>

text \<open>Each of these puts the current thread somewhere and reschedules.\<close>

lemma upd_insert_touches:
  assumes "ins = insert_in_run_queue_head \<or> ins = insert_in_run_queue_tail"
    and "\<And>x. wait_queue_block_ret (f x) = wait_queue_block_ret x" and "ins t (thr_upd t f k) = Some k2"
  shows "touches {} {} k k2 \<and> current k2 = current k"
proof -
  have "touches {} {} (thr_upd t f k) k2 \<and> current k2 = current (thr_upd t f k)"
    using assms(1,3) insert_head_frame insert_tail_frame by blast
  moreover have "current (thr_upd t f k) = current k" by (simp add: thr_upd_def)
  ultimately show ?thesis using thr_upd_frame [where f = f, OF assms(2)] touches_trans by metis
qed

lemma requeue_touches:
  assumes "Option.bind (if b then ins t (thr_upd t f k) else Some (thr_upd t f k)) (thread_resched cpu) = Some k'"
    and "ins = insert_in_run_queue_head \<or> ins = insert_in_run_queue_tail"
    and "\<And>x. wait_queue_block_ret (f x) = wait_queue_block_ret x"
  shows "touches {} {} k k'"
proof -
  obtain k2 where k2: "(if b then ins t (thr_upd t f k) else Some (thr_upd t f k)) = Some k2" "thread_resched cpu k2 = Some k'"
    using assms(1) by (auto simp: bind_eq_Some_conv)
  have "touches {} {} k k2"
    using k2(1) upd_insert_touches [OF assms(2,3)] thr_upd_frame [where f = f, OF assms(3)] by (cases b) auto
  then show ?thesis using thread_resched_touches [OF k2(2)] touches_trans by blast
qed

lemma thread_yield_touches: "thread_yield cpu k = Some k' \<Longrightarrow> touches {} {} k k'"
  using requeue_touches [of "\<not> thread_is_idle (thr k (current k cpu))" insert_in_run_queue_tail "current k cpu"
      "\<lambda>x. x\<lparr>t_state := THREAD_READY, remaining_quantum := 0\<rparr>" k cpu k']
  by (simp add: thread_yield_def Let_def DEBUG_ASSERT_bind_if thread_is_idle_def thr_upd_def split: if_splits)

lemma thread_preempt_touches: "thread_preempt cpu k = Some k' \<Longrightarrow> touches {} {} k k'"
  using requeue_touches [of "\<not> thread_is_idle (thr k (current k cpu))"
      "if 0 < remaining_quantum (thr k (current k cpu)) then insert_in_run_queue_head else insert_in_run_queue_tail"
      "current k cpu" "\<lambda>x. x\<lparr>t_state := THREAD_READY\<rparr>" k cpu k']
  by (simp add: thread_preempt_def Let_def DEBUG_ASSERT_bind_if thread_is_idle_def thr_upd_def split: if_splits)

lemma thread_set_priority_touches: "thread_set_priority cpu prio k = Some k' \<Longrightarrow> touches {} {} k k'"
  by (rule requeue_touches [of True insert_in_run_queue_head "current k cpu"
      "\<lambda>x. x\<lparr>priority := (let prio = (if prio \<le> 0 then 0 + 1 else prio) in if prio > 31 then 31 else prio),
         t_state := THREAD_READY\<rparr>" k cpu k'])
    (simp_all add: thread_set_priority_def Let_def)

lemma thread_sleep_touches:
  assumes "thread_sleep cpu delay k = Some k'"
  shows "touches {} {} k k'"
proof -
  obtain k1 where k1: "timer_set_oneshot cpu (stack_timer (current k cpu)) delay thread_sleep_handler_cb (Some (current k cpu))
      (timer_initialize (stack_timer (current k cpu)) k) = Some k1"
    "thread_resched cpu (thr_upd (current k cpu) (\<lambda>x. x\<lparr>t_state := THREAD_SLEEPING\<rparr>) k1) = Some k'"
    using assms by (auto simp: thread_sleep_def Let_def DEBUG_ASSERT_bind_if bind_eq_Some_conv split: if_splits)
  have "touches {} {} k k1"
    using timer_set_frame k1(1) timer_initialize_frame by (auto simp: timer_set_oneshot_def touches_def)
  then show ?thesis
    using thread_resched_touches [OF k1(2)] thr_upd_frame [of "\<lambda>x. x\<lparr>t_state := THREAD_SLEEPING\<rparr>" k1 "current k cpu"]
    by (auto intro: touches_trans)
qed

lemma thread_resume_touches:
  assumes "thread_resume cpu d t k = Some (k', r)"
  shows "touches {} {} k k'"
proof -
  obtain k1 b where k1: "thread_resume_locked cpu d t k = Some (k1, b)" "(if b then thread_yield cpu k1 else Some k1) = Some k'"
    using assms by (auto simp: thread_resume_def bind_eq_Some_conv)
  obtain k2 where k2: "k1 = wakeup_cpu_for_thread cpu t k2"
    "k2 = k \<or> insert_in_run_queue_head t (thr_upd t (\<lambda>x. x\<lparr>t_state := THREAD_READY\<rparr>) k) = Some k2"
    using k1(1) by (auto simp: thread_resume_locked_def DEBUG_ASSERT_bind_if bind_eq_Some_conv split: if_splits)
  have "touches {} {} k k2"
    using k2(2) upd_insert_touches [of insert_in_run_queue_head "\<lambda>x. x\<lparr>t_state := THREAD_READY\<rparr>" t k k2] by auto
  then have "touches {} {} k k1" using k2(1) wakeup_touches touches_trans by blast
  then show ?thesis using k1(2) thread_yield_touches touches_trans by (cases b) auto
qed

lemma thread_set_real_time_touches: "thread_set_real_time cpu t k = Some (k', r) \<Longrightarrow> touches {} {} k k'"
  by (auto simp: thread_set_real_time_def DEBUG_ASSERT_bind_if bind_eq_Some_conv touches_def thr_upd_def
      dest!: timer_cancel_frame split: option.splits if_splits)

section \<open>Wait queues\<close>

lemma wait_queue_block_queue:
  assumes "wait_queue_block cpu w timeout k = Some (k', r)" and False: "timeout \<noteq> 0"
  shows "touches {w} {current k cpu} k k' \<and>
    wq k' w = (wq k w)\<lparr>wq_list := wq_list (wq k w) @ [current k cpu], wq_count := wq_count (wq k w) + 1\<rparr>"
proof -
  let ?t = "current k cpu"
  let ?k1 = "thr_upd ?t (\<lambda>x. x\<lparr>t_queued := True, t_state := THREAD_BLOCKED, blocking_wait_queue := Some w,
      wait_queue_block_ret := NO_ERROR\<rparr>) (wq_upd w (\<lambda>x. x\<lparr>wq_list := wq_list x @ [?t], wq_count := wq_count x + 1\<rparr>) k)"
  obtain k2 where k2: "(if timeout \<noteq> INFINITE_TIME
      then timer_set_oneshot cpu (stack_timer ?t) timeout wait_queue_timeout_handler_cb (Some ?t) (timer_initialize (stack_timer ?t) ?k1)
      else Some ?k1) = Some k2" "thread_resched cpu k2 = Some k'"
    using assms False by (auto simp: wait_queue_block_def Let_def DEBUG_ASSERT_bind_if bind_eq_Some_conv split: if_splits)
  have "touches {w} {?t} k ?k1" by (intro thr_upd_touches wq_upd_touches) auto
  moreover have "touches {} {} ?k1 k2"
    using k2(1) timer_set_frame timer_initialize_frame
    by (cases "timeout = INFINITE_TIME") (auto simp: timer_set_oneshot_def touches_none_iff)
  ultimately have a: "touches {w} {?t} k ?k1" "touches {} {} ?k1 k'"
    using thread_resched_touches [OF k2(2)] touches_trans by blast+
  then have "touches {w} {?t} k k'" by (meson touches_none touches_trans)
  then show ?thesis using a(2) by (simp add: touches_none_iff thr_upd_def wq_upd_def)
qed

lemma wait_queue_block_touches:
  assumes "wait_queue_block cpu w timeout k = Some (k', r)"
  shows "touches {w} {current k cpu} k k'"
proof (cases "timeout = 0")
  case True
  then show ?thesis using assms by (simp add: wait_queue_block_def Let_def DEBUG_ASSERT_bind_if split: if_splits)
qed (use wait_queue_block_queue [OF assms] in blast)

lemma wait_queue_block_return_touches:
  "wait_queue_block_return cpu timeout k = Some (k', r) \<Longrightarrow> touches {} {} k k'"
  by (auto simp: wait_queue_block_return_def Let_def bind_eq_Some_conv touches_def dest!: timer_cancel_frame split: if_splits)

lemma wait_queue_wake_one_queue:
  assumes "wait_queue_wake_one cpu w reschedule e k = Some (k', n)" and Cons: "wq_list (wq k w) = t # ts"
  shows "touches {w} {t} k k' \<and> wq k' w = (wq k w)\<lparr>wq_list := ts, wq_count := wq_count (wq k w) - 1\<rparr> \<and>
    wait_queue_block_ret (thr k' t) = e"
proof -
  let ?k1 = "thr_upd t (\<lambda>x. x\<lparr>t_state := THREAD_READY, wait_queue_block_ret := e, blocking_wait_queue := None\<rparr>)
      (thr_upd t (\<lambda>x. x\<lparr>t_queued := False\<rparr>) (wq_upd w (\<lambda>x. x\<lparr>wq_list := ts, wq_count := wq_count x - 1\<rparr>) k))"
  obtain k2 k3 where k2: "(if reschedule then insert_in_run_queue_head (current ?k1 cpu)
        (thr_upd (current ?k1 cpu) (\<lambda>x. x\<lparr>t_state := THREAD_READY\<rparr>) ?k1) else Some ?k1) = Some k2"
    "insert_in_run_queue_head t k2 = Some k3"
    "(if reschedule then thread_resched cpu (wakeup_cpu_for_thread cpu t k3) else Some (wakeup_cpu_for_thread cpu t k3)) = Some k'"
    using assms Cons by (auto simp: wait_queue_wake_one_def Let_def bind_eq_Some_conv)
  have "touches {w} {t} k ?k1" using Cons by (intro thr_upd_touches wq_upd_touches) auto
  moreover have "touches {} {} ?k1 k2"
    using k2(1) upd_insert_touches [of insert_in_run_queue_head "\<lambda>x. x\<lparr>t_state := THREAD_READY\<rparr>" "current ?k1 cpu" ?k1 k2]
    by (cases reschedule) auto
  moreover have "touches {} {} k2 k3" using insert_head_frame [OF k2(2)] by blast
  moreover have "touches {} {} k3 k'"
    using k2(3) wakeup_touches [of "{}" "{}" k3 cpu t] thread_resched_touches touches_trans by (cases reschedule) auto
  ultimately have a: "touches {w} {t} k ?k1" "touches {} {} ?k1 k'" by (meson touches_trans)+
  then have "touches {w} {t} k k'" by (meson touches_none touches_trans)
  then show ?thesis using a(2) by (simp add: touches_none_iff thr_upd_def wq_upd_def)
qed

lemma wait_queue_wake_one_touches:
  assumes "wait_queue_wake_one cpu w reschedule e k = Some (k', n)"
  shows "touches {w} (set (wq_list (wq k w))) k k'"
proof (cases "wq_list (wq k w)")
  case Nil
  then show ?thesis using assms by (auto simp: wait_queue_wake_one_def DEBUG_ASSERT_bind_if split: if_splits)
next
  case (Cons t ts)
  then show ?thesis using wait_queue_wake_one_queue [OF assms Cons] by (auto elim: touches_mono)
qed

lemma wake_all_loop_touches:
  "wake_all_loop w e ts m k = Some (k', m') \<Longrightarrow> touches {w} (set ts) k k' \<and> current k' = current k"
proof (induction ts arbitrary: m k)
  case Nil
  then show ?case by simp
next
  case (Cons t ts)
  let ?k1 = "thr_upd t (\<lambda>x. x\<lparr>t_state := THREAD_READY, wait_queue_block_ret := e, blocking_wait_queue := None\<rparr>)
      (thr_upd t (\<lambda>x. x\<lparr>t_queued := False\<rparr>) (wq_upd w (\<lambda>x. x\<lparr>wq_list := butlast (wq_list x), wq_count := wq_count x - 1\<rparr>) k))"
  obtain k2 m2 where k2: "insert_in_run_queue_head t ?k1 = Some k2" "wake_all_loop w e ts m2 k2 = Some (k', m')"
    using Cons.prems unfolding wake_all_loop.simps Let_def bind_eq_Some_conv by blast
  have a: "touches {w} (set (t # ts)) k ?k1" by (intro thr_upd_touches wq_upd_touches) (auto dest: in_set_butlastD)
  have a2: "current ?k1 = current k" by (simp add: thr_upd_def wq_upd_def)
  have "touches {} {} ?k1 k2 \<and> current k2 = current ?k1" using k2(1) by (rule insert_head_frame)
  then have b: "touches {w} (set (t # ts)) ?k1 k2" "current k2 = current ?k1" using touches_none by blast+
  have "touches {w} (set ts) k2 k' \<and> current k' = current k2" using k2(2) by (rule Cons.IH)
  then have c: "touches {w} (set (t # ts)) k2 k'" "current k' = current k2" by (auto elim: touches_mono)
  show ?case using touches_trans [OF touches_trans [OF a b(1)] c(1)] a2 b(2) c(2) by (simp only: simp_thms)
qed

lemma wait_queue_wake_all_touches:
  assumes "wait_queue_wake_all cpu w reschedule e k = Some (k', n)"
  shows "touches {w} (set (wq_list (wq k w))) k k'"
proof -
  let ?S = "set (wq_list (wq k w))"
  obtain k1 k2 m where k1: "(if reschedule \<and> wq_count (wq k w) > 0 then insert_in_run_queue_head (current k cpu)
        (thr_upd (current k cpu) (\<lambda>x. x\<lparr>t_state := THREAD_READY\<rparr>) k) else Some k) = Some k1"
    "wake_all_loop w e (rev (wq_list (wq k1 w))) 0 k1 = Some (k2, m)"
    "(if int (length (rev (wq_list (wq k1 w)))) > 0 then
       (let k = mp_reschedule cpu m 0 k2 in if reschedule then thread_resched cpu k else Some k) else Some k2) = Some k'"
    using assms by (auto simp: wait_queue_wake_all_def Let_def DEBUG_ASSERT_bind_if bind_eq_Some_conv split: if_splits)
  have a: "touches {} {} k k1"
    using k1(1) upd_insert_touches [of insert_in_run_queue_head "\<lambda>x. x\<lparr>t_state := THREAD_READY\<rparr>" "current k cpu" k k1]
    by (auto split: if_splits)
  then have w: "wq k1 = wq k" by (simp add: touches_none_iff)
  have b: "touches {w} ?S k1 k2" using wake_all_loop_touches [OF k1(2)] by (simp add: w)
  have c: "touches {} {} k2 k'"
    using k1(3) mp_reschedule_touches [of "{}" "{}" k2 cpu m 0] thread_resched_touches touches_trans
    by (auto simp: Let_def split: if_splits)
  show ?thesis using a b c by (meson touches_none touches_trans)
qed

lemma wait_queue_destroy_touches:
  assumes "wait_queue_destroy cpu w reschedule k = Some k'"
  shows "touches {w} (set (wq_list (wq k w))) k k'"
proof -
  obtain k1 n where k1: "wait_queue_wake_all cpu w reschedule ERR_OBJECT_DESTROYED k = Some (k1, n)"
    "k' = wq_upd w (\<lambda>x. x\<lparr>wq_magic := 0\<rparr>) k1"
    using assms by (auto simp: wait_queue_destroy_def bind_eq_Some_conv)
  have "touches {w} (set (wq_list (wq k w))) k1 k'" by (simp add: k1(2) touches_def wq_upd_def)
  then show ?thesis using wait_queue_wake_all_touches [OF k1(1)] touches_trans by blast
qed

text \<open>A timed-out or interrupted wait: the thread leaves its queue with the given result.\<close>

lemma thread_unblock_touches:
  assumes "thread_unblock_from_wait_queue cpu t e k = Some (k', r)"
  shows "k' = k \<or> (\<exists>v. t_state (thr k t) = THREAD_BLOCKED \<and> blocking_wait_queue (thr k t) = Some v \<and> touches {v} {t} k k' \<and>
    wq k' v = (wq k v)\<lparr>wq_list := remove1 t (wq_list (wq k v)), wq_count := wq_count (wq k v) - 1\<rparr> \<and>
    wait_queue_block_ret (thr k' t) = e)"
proof (cases "t_state (thr k t) = THREAD_BLOCKED")
  case False
  then show ?thesis using assms by (simp add: thread_unblock_from_wait_queue_def)
next
  case True
  obtain v where v: "blocking_wait_queue (thr k t) = Some v"
    using assms True by (auto simp: thread_unblock_from_wait_queue_def split: option.splits)
  let ?k1 = "thr_upd t (\<lambda>x. x\<lparr>t_queued := False, blocking_wait_queue := None, t_state := THREAD_READY, wait_queue_block_ret := e\<rparr>)
      (wq_upd v (\<lambda>x. x\<lparr>wq_list := remove1 t (wq_list x), wq_count := wq_count x - 1\<rparr>) k)"
  obtain k2 where k2: "insert_in_run_queue_head t ?k1 = Some k2" "k' = wakeup_cpu_for_thread cpu t k2"
    using assms True v by (auto simp: thread_unblock_from_wait_queue_def Let_def bind_eq_Some_conv)
  have t1: "touches {} {} ?k1 k'"
    using insert_head_frame [OF k2(1)] wakeup_touches [of "{}" "{}" k2 cpu t] touches_trans unfolding k2(2) by blast
  then have e: "wq k' = wq ?k1" "\<And>u. wait_queue_block_ret (thr k' u) = wait_queue_block_ret (thr ?k1 u)"
    by (simp_all add: touches_none_iff)
  have "touches {v} {t} k ?k1" by (intro thr_upd_touches wq_upd_touches) (auto dest: notin_set_remove1)
  then have "touches {v} {t} k k'" using touches_none [OF t1] touches_trans by blast
  moreover have "wq k' v = (wq k v)\<lparr>wq_list := remove1 t (wq_list (wq k v)), wq_count := wq_count (wq k v) - 1\<rparr>"
    "wait_queue_block_ret (thr k' t) = e"
    unfolding e by (simp_all add: thr_upd_def wq_upd_def)
  ultimately show ?thesis using True v by blast
qed

section \<open>Creation and termination\<close>

lemma thread_create_etc_touches:
  assumes "thread_create_etc cpu m t0 name entry arg prio stack ms sz k = (k', r)"
    and "case t0 of Some u \<Rightarrow> u = t | None \<Rightarrow> m \<in> {None, Some t}"
  shows "touches {retcode_wait_queue t} {t} k k'"
proof -
  have u: "touches {retcode_wait_queue t} {t} k (thr_upd t f k1)" "touches {retcode_wait_queue t} {t} k (wq_upd (retcode_wait_queue t) (\<lambda>_. \<lparr>wq_magic = mg, wq_count = 0, wq_list = []\<rparr>) k1)"
      "touches {retcode_wait_queue t} {t} k (k1\<lparr>freed := fr\<rparr>)" "touches {retcode_wait_queue t} {t} k (k1\<lparr>thread_list := l\<rparr>)"
    if "touches {retcode_wait_queue t} {t} k k1" for f mg k1 fr l
    using that by (simp_all add: touches_def thr_upd_def wq_upd_def subset_insertI)
  show ?thesis
    using assms
    by (auto simp: thread_create_etc_def init_thread_struct_def wait_queue_init_def Let_def
        split: option.splits if_splits intro!: u)
qed

lemma thread_join_dead_touches: "thread_join_dead t k = Some (k', r) \<Longrightarrow> touches {} {} k k'"
  by (auto simp: thread_join_dead_def Let_def touches_def thr_upd_def split: if_splits)

lemma thread_join_touches:
  assumes "thread_join cpu t timeout k = Some (k', r)"
  shows "touches {retcode_wait_queue t} {current k cpu} k k'"
  using assms wait_queue_block_touches [of cpu "retcode_wait_queue t" timeout k k'] touches_none [OF thread_join_dead_touches, of t k k']
  by (auto simp: thread_join_def bind_eq_Some_conv split: if_splits)

lemma thread_detach_touches:
  assumes "thread_detach cpu t k = Some (k', r)" and "set (wq_list (wq k (retcode_wait_queue t))) \<subseteq> S"
  shows "touches {retcode_wait_queue t} S k k'"
proof -
  obtain k1 n where k1: "wait_queue_wake_all cpu (retcode_wait_queue t) False ERR_THREAD_DETACHED k = Some (k1, n)"
    using assms(1) by (auto simp: thread_detach_def bind_eq_Some_conv)
  have a: "touches {retcode_wait_queue t} S k k1"
    using wait_queue_wake_all_touches [OF k1] assms(2) by (auto elim: touches_mono)
  let ?k2 = "thr_upd t (\<lambda>x. x\<lparr>t_flags := t_flags x AND NOT (shl1 FLAG_DETACHED)\<rparr>) k1"
  show ?thesis
  proof (cases "t_state (thr k1 t) = THREAD_DEATH")
    case False
    then have "k' = thr_upd t (\<lambda>x. x\<lparr>t_flags := t_flags x OR shl1 FLAG_DETACHED\<rparr>) k1"
      using assms(1) k1 by (simp add: thread_detach_def)
    then show ?thesis using a by (simp add: touches_def thr_upd_def)
  next
    case True
    have d: "Option.bind (thread_join cpu t 0 ?k2) (\<lambda>(k, r). case r of Returned (err, _) \<Rightarrow> Some (k, err) | Switched \<Rightarrow> None) = Some (k', r)"
      using assms(1) k1 True by (simp add: thread_detach_def Let_def)
    then obtain k3 o1 where j3: "thread_join cpu t 0 ?k2 = Some (k3, o1)" by (cases "thread_join cpu t 0 ?k2") auto
    then have j: "thread_join cpu t 0 ?k2 = Some (k', o1)" using d by (cases o1) auto
    have "t_state (thr ?k2 t) = THREAD_DEATH" using True by (simp add: thr_upd_def)
    then have "k' = ?k2 \<or> (\<exists>q. thread_join_dead t ?k2 = Some (k', q))"
      using j by (cases "thread_join_dead t ?k2") (auto simp: thread_join_def split: if_splits)
    then have "touches {} {} ?k2 k'" by (elim disjE exE) (simp_all only: touches_refl thread_join_dead_touches)
    then have b: "touches {retcode_wait_queue t} S ?k2 k'" by (rule touches_none)
    have "touches {retcode_wait_queue t} S k1 ?k2" by (simp add: touches_def thr_upd_def)
    from touches_trans [OF touches_trans [OF a this] b] show ?thesis .
  qed
qed

lemma thread_exit_touches:
  assumes "thread_exit cpu rc k = Some k'" and t: "t = current k cpu"
  shows "touches {retcode_wait_queue t} (set (wq_list (wq k (retcode_wait_queue t)))) k k'"
proof -
  let ?S = "set (wq_list (wq k (retcode_wait_queue t)))"
  define k1 where "k1 = thr_upd t (\<lambda>x. x\<lparr>t_state := THREAD_DEATH, retcode := rc\<rparr>) k"
  obtain k2 where k2: "thread_exit_teardown cpu t k1 = Some k2" "thread_resched cpu k2 = Some k'"
    using assms by (auto simp: thread_exit_def Let_def bind_eq_Some_conv k1_def)
  have "touches {retcode_wait_queue t} ?S k1 k2"
  proof (cases "bit (t_flags (thr k1 t)) FLAG_DETACHED")
    case True
    have u: "touches {retcode_wait_queue t} ?S k1 (thr_upd t f k)"
      if "touches {retcode_wait_queue t} ?S k1 k" "\<And>x. wait_queue_block_ret (f x) = wait_queue_block_ret x" for f k
      using that by (simp add: touches_def thr_upd_def)
    have v: "touches {retcode_wait_queue t} ?S k1 (k\<lparr>freed := fr\<rparr>)" "touches {retcode_wait_queue t} ?S k1 (k\<lparr>thread_list := l\<rparr>)"
      if "touches {retcode_wait_queue t} ?S k1 k" for k fr l
      using that by (simp_all add: touches_def)
    show ?thesis
      using k2(1) True by (auto simp: thread_exit_teardown_def Let_def split: if_splits intro!: u v touches_refl)
  next
    case False
    then obtain n where "wait_queue_wake_all cpu (retcode_wait_queue t) False 0 k1 = Some (k2, n)"
      using k2(1) by (auto simp: thread_exit_teardown_def)
    from wait_queue_wake_all_touches [OF this] show ?thesis by (simp add: k1_def thr_upd_def)
  qed
  moreover have "touches {retcode_wait_queue t} ?S k k1" by (simp add: k1_def touches_def thr_upd_def)
  moreover have "touches {retcode_wait_queue t} ?S k2 k'" using thread_resched_touches [OF k2(2)] by (rule touches_none)
  ultimately show ?thesis by (meson touches_trans)
qed

end
