(* ===== verification/Sync.thy ===== *)
theory Sync
  imports Kernel Frames
begin

text \<open>
  Events, mutexes and semaphores (\<^verbatim>\<open>kernel/event.c\<close>, \<^verbatim>\<open>kernel/mutex.c\<close>,
  \<^verbatim>\<open>kernel/semaphore.c\<close>) on top of the wait queues. An object is known by its address, and
  the wait queue it embeds by the same address. The three sorts of objects and the state of
  the scheduler make up \<open>sstate\<close>. A call that blocks ends with \<open>Switched\<close>; what the code does
  when the thread is switched back to is the corresponding \<open>_return\<close> function.
\<close>

section \<open>Objects\<close>

abbreviation (input) EVENT_MAGIC :: u32 where "EVENT_MAGIC \<equiv> 0x65766E74"
abbreviation (input) MUTEX_MAGIC :: u32 where "MUTEX_MAGIC \<equiv> 0x6D757478"
abbreviation (input) SEMAPHORE_MAGIC :: u32 where "SEMAPHORE_MAGIC \<equiv> 0x73656D61"
abbreviation (input) EVENT_FLAG_AUTOUNSIGNAL :: nat where "EVENT_FLAG_AUTOUNSIGNAL \<equiv> 0"

record event_t =
  ev_magic :: u32
  ev_signaled :: bool
  ev_flags :: u32

record mutex_t =
  mx_magic :: u32
  mx_count :: int
  mx_holder :: "thread_id option"

record semaphore_t =
  sem_magic :: u32
  sem_count :: int

record sstate =
  kern :: kstate
  ev :: "addr \<Rightarrow> event_t"
  mx :: "addr \<Rightarrow> mutex_t"
  sem :: "addr \<Rightarrow> semaphore_t"

definition ev_upd :: "addr \<Rightarrow> (event_t \<Rightarrow> event_t) \<Rightarrow> sstate \<Rightarrow> sstate" where
  "ev_upd e f s = s\<lparr>ev := (ev s)(e := f (ev s e))\<rparr>"

definition mx_upd :: "addr \<Rightarrow> (mutex_t \<Rightarrow> mutex_t) \<Rightarrow> sstate \<Rightarrow> sstate" where
  "mx_upd m f s = s\<lparr>mx := (mx s)(m := f (mx s m))\<rparr>"

definition sem_upd :: "addr \<Rightarrow> (semaphore_t \<Rightarrow> semaphore_t) \<Rightarrow> sstate \<Rightarrow> sstate" where
  "sem_upd a f s = s\<lparr>sem := (sem s)(a := f (sem s a))\<rparr>"

definition this_thread :: "nat \<Rightarrow> sstate \<Rightarrow> thread_id" where
  "this_thread cpu s = current (kern s) cpu"

section \<open>Events\<close>

definition event_init :: "addr \<Rightarrow> bool \<Rightarrow> u32 \<Rightarrow> sstate \<Rightarrow> sstate" where
  "event_init e initial flags s =
     (ev_upd e (\<lambda>_. \<lparr>ev_magic = EVENT_MAGIC, ev_signaled = initial, ev_flags = flags\<rparr>) s)
       \<lparr>kern := wait_queue_init (wait_queue_at e) (kern s)\<rparr>"

definition event_initialized :: "addr \<Rightarrow> sstate \<Rightarrow> bool" where
  "event_initialized e s \<longleftrightarrow> ev_magic (ev s e) = EVENT_MAGIC"

definition event_destroy :: "nat \<Rightarrow> addr \<Rightarrow> sstate \<Rightarrow> sstate option" where
  "event_destroy cpu e s = do {
     DEBUG_ASSERT (ev_magic (ev s e) = EVENT_MAGIC);
     let s = ev_upd e (\<lambda>_. \<lparr>ev_magic = 0, ev_signaled = False, ev_flags = 0\<rparr>) s;
     k \<leftarrow> wait_queue_destroy cpu (wait_queue_at e) True (kern s);
     Some (s\<lparr>kern := k\<rparr>)
   }"

definition event_wait_timeout :: "nat \<Rightarrow> addr \<Rightarrow> nusa_time_t \<Rightarrow> sstate \<Rightarrow> (sstate \<times> status_t outcome) option" where
  "event_wait_timeout cpu e timeout s = do {
     DEBUG_ASSERT (ev_magic (ev s e) = EVENT_MAGIC);
     if ev_signaled (ev s e) then
       Some (if bit (ev_flags (ev s e)) EVENT_FLAG_AUTOUNSIGNAL
             then ev_upd e (\<lambda>x. x\<lparr>ev_signaled := False\<rparr>) s else s, Returned NO_ERROR)
     else do {
       (k, r) \<leftarrow> wait_queue_block cpu (wait_queue_at e) timeout (kern s);
       Some (s\<lparr>kern := k\<rparr>, r)
     }
   }"

definition event_wait_return :: "nat \<Rightarrow> nusa_time_t \<Rightarrow> sstate \<Rightarrow> (sstate \<times> status_t) option" where
  "event_wait_return cpu timeout s = do {
     (k, r) \<leftarrow> wait_queue_block_return cpu timeout (kern s);
     Some (s\<lparr>kern := k\<rparr>, r)
   }"

definition event_wait :: "nat \<Rightarrow> addr \<Rightarrow> sstate \<Rightarrow> (sstate \<times> status_t outcome) option" where
  "event_wait cpu e s = event_wait_timeout cpu e INFINITE_TIME s"

definition event_signal :: "nat \<Rightarrow> addr \<Rightarrow> bool \<Rightarrow> sstate \<Rightarrow> (sstate \<times> int) option" where
  "event_signal cpu e reschedule s = do {
     DEBUG_ASSERT (ev_magic (ev s e) = EVENT_MAGIC);
     if \<not> ev_signaled (ev s e) then
       if bit (ev_flags (ev s e)) EVENT_FLAG_AUTOUNSIGNAL then do {
         (k, ret) \<leftarrow> wait_queue_wake_one cpu (wait_queue_at e) reschedule NO_ERROR (kern s);
         let s = s\<lparr>kern := k\<rparr>;
         Some (if ret \<le> 0 then ev_upd e (\<lambda>x. x\<lparr>ev_signaled := True\<rparr>) s else s, ret)
       }
       else do {
         let s = ev_upd e (\<lambda>x. x\<lparr>ev_signaled := True\<rparr>) s;
         (k, ret) \<leftarrow> wait_queue_wake_all cpu (wait_queue_at e) reschedule NO_ERROR (kern s);
         Some (s\<lparr>kern := k\<rparr>, ret)
       }
     else Some (s, 0)
   }"

definition event_unsignal :: "addr \<Rightarrow> sstate \<Rightarrow> (sstate \<times> status_t) option" where
  "event_unsignal e s = do {
     DEBUG_ASSERT (ev_magic (ev s e) = EVENT_MAGIC);
     Some (ev_upd e (\<lambda>x. x\<lparr>ev_signaled := False\<rparr>) s, NO_ERROR)
   }"

section \<open>Mutexes\<close>

definition mutex_init :: "addr \<Rightarrow> sstate \<Rightarrow> sstate" where
  "mutex_init m s =
     (mx_upd m (\<lambda>_. \<lparr>mx_magic = MUTEX_MAGIC, mx_count = 0, mx_holder = None\<rparr>) s)
       \<lparr>kern := wait_queue_init (wait_queue_at m) (kern s)\<rparr>"

definition mutex_destroy :: "nat \<Rightarrow> addr \<Rightarrow> sstate \<Rightarrow> sstate option" where
  "mutex_destroy cpu m s = do {
     DEBUG_ASSERT (mx_magic (mx s m) = MUTEX_MAGIC);
     DEBUG_ASSERT (\<not> (mx_holder (mx s m) \<noteq> None \<and> Some (this_thread cpu s) \<noteq> mx_holder (mx s m)));
     let s = mx_upd m (\<lambda>x. x\<lparr>mx_magic := 0, mx_count := 0\<rparr>) s;
     k \<leftarrow> wait_queue_destroy cpu (wait_queue_at m) True (kern s);
     Some (s\<lparr>kern := k\<rparr>)
   }"

text \<open>The part after \<^verbatim>\<open>wait_queue_block\<close>: back out after a timeout, else become the holder.\<close>

definition mutex_acquired :: "nat \<Rightarrow> addr \<Rightarrow> status_t \<Rightarrow> sstate \<Rightarrow> sstate \<times> status_t" where
  "mutex_acquired cpu m ret s =
     (if ret < NO_ERROR
      then (if ret = ERR_TIMED_OUT then mx_upd m (\<lambda>x. x\<lparr>mx_count := mx_count x - 1\<rparr>) s else s, ret)
      else (mx_upd m (\<lambda>x. x\<lparr>mx_holder := Some (this_thread cpu s)\<rparr>) s, ret))"

definition mutex_acquire_timeout :: "nat \<Rightarrow> addr \<Rightarrow> nusa_time_t \<Rightarrow> sstate \<Rightarrow> (sstate \<times> status_t outcome) option" where
  "mutex_acquire_timeout cpu m timeout s = do {
     DEBUG_ASSERT (mx_magic (mx s m) = MUTEX_MAGIC);
     DEBUG_ASSERT (Some (this_thread cpu s) \<noteq> mx_holder (mx s m));
     let s = mx_upd m (\<lambda>x. x\<lparr>mx_count := mx_count x + 1\<rparr>) s;
     if mx_count (mx s m) > 1 then do {
       (k, r) \<leftarrow> wait_queue_block cpu (wait_queue_at m) timeout (kern s);
       let s = s\<lparr>kern := k\<rparr>;
       Some (case r of
               Switched \<Rightarrow> (s, Switched)
             | Returned ret \<Rightarrow> (case mutex_acquired cpu m ret s of (s, ret) \<Rightarrow> (s, Returned ret)))
     }
     else Some (case mutex_acquired cpu m NO_ERROR s of (s, ret) \<Rightarrow> (s, Returned ret))
   }"

definition mutex_acquire_return :: "nat \<Rightarrow> addr \<Rightarrow> nusa_time_t \<Rightarrow> sstate \<Rightarrow> (sstate \<times> status_t) option" where
  "mutex_acquire_return cpu m timeout s = do {
     (k, ret) \<leftarrow> wait_queue_block_return cpu timeout (kern s);
     Some (mutex_acquired cpu m ret (s\<lparr>kern := k\<rparr>))
   }"

definition mutex_acquire :: "nat \<Rightarrow> addr \<Rightarrow> sstate \<Rightarrow> (sstate \<times> status_t outcome) option" where
  "mutex_acquire cpu m s = mutex_acquire_timeout cpu m INFINITE_TIME s"

definition mutex_release :: "nat \<Rightarrow> addr \<Rightarrow> sstate \<Rightarrow> (sstate \<times> status_t) option" where
  "mutex_release cpu m s = do {
     DEBUG_ASSERT (mx_magic (mx s m) = MUTEX_MAGIC);
     DEBUG_ASSERT (Some (this_thread cpu s) = mx_holder (mx s m));
     let s = mx_upd m (\<lambda>x. x\<lparr>mx_holder := None, mx_count := mx_count x - 1\<rparr>) s;
     if mx_count (mx s m) \<ge> 1 then do {
       (k, _) \<leftarrow> wait_queue_wake_one cpu (wait_queue_at m) True NO_ERROR (kern s);
       Some (s\<lparr>kern := k\<rparr>, NO_ERROR)
     }
     else Some (s, NO_ERROR)
   }"

definition is_mutex_held :: "nat \<Rightarrow> addr \<Rightarrow> sstate \<Rightarrow> bool" where
  "is_mutex_held cpu m s \<longleftrightarrow> mx_holder (mx s m) = Some (this_thread cpu s)"

section \<open>Semaphores\<close>

definition sem_init :: "addr \<Rightarrow> int \<Rightarrow> sstate \<Rightarrow> sstate" where
  "sem_init a initial_count s =
     (sem_upd a (\<lambda>_. \<lparr>sem_magic = SEMAPHORE_MAGIC, sem_count = initial_count\<rparr>) s)
       \<lparr>kern := wait_queue_init (wait_queue_at a) (kern s)\<rparr>"

definition sem_destroy :: "nat \<Rightarrow> addr \<Rightarrow> sstate \<Rightarrow> sstate option" where
  "sem_destroy cpu a s = do {
     let s = sem_upd a (\<lambda>x. x\<lparr>sem_count := 0\<rparr>) s;
     k \<leftarrow> wait_queue_destroy cpu (wait_queue_at a) True (kern s);
     Some (s\<lparr>kern := k\<rparr>)
   }"

definition sem_post :: "nat \<Rightarrow> addr \<Rightarrow> bool \<Rightarrow> sstate \<Rightarrow> (sstate \<times> int) option" where
  "sem_post cpu a resched s = do {
     let s = sem_upd a (\<lambda>x. x\<lparr>sem_count := sem_count x + 1\<rparr>) s;
     if sem_count (sem s a) \<le> 0 then do {
       (k, ret) \<leftarrow> wait_queue_wake_one cpu (wait_queue_at a) resched NO_ERROR (kern s);
       Some (s\<lparr>kern := k\<rparr>, ret)
     }
     else Some (s, 0)
   }"

definition sem_wait :: "nat \<Rightarrow> addr \<Rightarrow> sstate \<Rightarrow> (sstate \<times> status_t outcome) option" where
  "sem_wait cpu a s = do {
     let s = sem_upd a (\<lambda>x. x\<lparr>sem_count := sem_count x - 1\<rparr>) s;
     if sem_count (sem s a) < 0 then do {
       (k, r) \<leftarrow> wait_queue_block cpu (wait_queue_at a) INFINITE_TIME (kern s);
       Some (s\<lparr>kern := k\<rparr>, r)
     }
     else Some (s, Returned NO_ERROR)
   }"

definition sem_trywait :: "addr \<Rightarrow> sstate \<Rightarrow> sstate \<times> status_t" where
  "sem_trywait a s =
     (if sem_count (sem s a) \<le> 0 then (s, ERR_NOT_READY)
      else (sem_upd a (\<lambda>x. x\<lparr>sem_count := sem_count x - 1\<rparr>) s, NO_ERROR))"

text \<open>The part of \<^verbatim>\<open>sem_timedwait\<close> after \<^verbatim>\<open>wait_queue_block\<close>.\<close>

definition sem_timedwaited :: "addr \<Rightarrow> status_t \<Rightarrow> sstate \<Rightarrow> sstate" where
  "sem_timedwaited a ret s =
     (if ret < NO_ERROR
      then if ret = ERR_TIMED_OUT then sem_upd a (\<lambda>x. x\<lparr>sem_count := sem_count x + 1\<rparr>) s else s
      else s)"

definition sem_timedwait :: "nat \<Rightarrow> addr \<Rightarrow> nusa_time_t \<Rightarrow> sstate \<Rightarrow> (sstate \<times> status_t outcome) option" where
  "sem_timedwait cpu a timeout s = do {
     let s = sem_upd a (\<lambda>x. x\<lparr>sem_count := sem_count x - 1\<rparr>) s;
     if sem_count (sem s a) < 0 then do {
       (k, r) \<leftarrow> wait_queue_block cpu (wait_queue_at a) timeout (kern s);
       let s = s\<lparr>kern := k\<rparr>;
       Some (case r of Switched \<Rightarrow> s | Returned ret \<Rightarrow> sem_timedwaited a ret s, r)
     }
     else Some (s, Returned NO_ERROR)
   }"

definition sem_timedwait_return :: "nat \<Rightarrow> addr \<Rightarrow> nusa_time_t \<Rightarrow> sstate \<Rightarrow> (sstate \<times> status_t) option" where
  "sem_timedwait_return cpu a timeout s = do {
     (k, ret) \<leftarrow> wait_queue_block_return cpu timeout (kern s);
     Some (sem_timedwaited a ret (s\<lparr>kern := k\<rparr>), ret)
   }"

end
