(* ===== verification/Mutexes.thy ===== *)
theory Mutexes
  imports Sync Policy
begin

text \<open>
  Mutual exclusion. A mutex is used by threads on all CPUs while the rest of the kernel runs:
  the scheduler, timer interrupts that time waits out, CPU bring-up, and every other object
  that has a wait queue. The theory defines these runs and proves what the mutex promises in
  all of them.
\<close>

section \<open>Timeouts\<close>

text \<open>
  What a timer interrupt does to the wait queues: some threads whose wait has a limit leave
  their queue with \<^verbatim>\<open>ERR_TIMED_OUT\<close>, the others stay as they are.
\<close>

definition timed :: "waiting \<Rightarrow> thread_id \<Rightarrow> kstate \<Rightarrow> kstate \<Rightarrow> bool" where
  "timed W t k k' \<longleftrightarrow>
     (\<forall>w. t \<in> set (wq_list (wq k' w)) \<longleftrightarrow> t \<in> set (wq_list (wq k w))) \<and>
       wait_queue_block_ret (thr k' t) = wait_queue_block_ret (thr k t) \<or>
     (\<exists>w. t \<in> set (wq_list (wq k w))) \<and> (\<forall>w. t \<notin> set (wq_list (wq k' w))) \<and>
       wait_queue_block_ret (thr k' t) = ERR_TIMED_OUT \<and> W t \<noteq> Some INFINITE_TIME"

definition timeouts :: "waiting \<Rightarrow> kstate \<Rightarrow> kstate \<Rightarrow> bool" where
  "timeouts W k k' \<longleftrightarrow> (\<forall>w. wq_magic (wq k' w) = wq_magic (wq k w)) \<and> (\<forall>t. timed W t k k')"

lemma timeouts_same:
  "wq k' = wq k \<Longrightarrow> (\<And>t. wait_queue_block_ret (thr k' t) = wait_queue_block_ret (thr k t)) \<Longrightarrow> timeouts W k k'"
  by (simp add: timeouts_def timed_def)

lemma timed_trans: "timed W t k k1 \<Longrightarrow> timed W t k1 k2 \<Longrightarrow> timed W t k k2"
  unfolding timed_def by metis

lemma timeouts_trans:
  assumes "timeouts W k k1" and "timeouts W k1 k2"
  shows "timeouts W k k2"
proof -
  have "timed W t k k2" for t using assms timed_trans [of W t k k1 k2] by (simp add: timeouts_def)
  then show ?thesis using assms by (simp add: timeouts_def)
qed

lemma unblock_timeouts:
  assumes k: "kinv C W k" and r: "thread_unblock_from_wait_queue cpu t ERR_TIMED_OUT k = Some (k', r)"
    and W: "W t \<noteq> Some INFINITE_TIME" and l: "live (thr k t)"
  shows "timeouts W k k'"
proof (cases "k' = k")
  case True
  then show ?thesis by (simp add: timeouts_same)
next
  case False
  then obtain v where v: "t_state (thr k t) = THREAD_BLOCKED" "blocking_wait_queue (thr k t) = Some v" "touches {v} {t} k k'"
      "wq k' v = (wq k v)\<lparr>wq_list := remove1 t (wq_list (wq k v)), wq_count := wq_count (wq k v) - 1\<rparr>"
      "wait_queue_block_ret (thr k' t) = ERR_TIMED_OUT"
    using thread_unblock_touches [OF r] by blast
  have q: "queues_ok k" and st: "settled (thr k t)" using k by (simp_all add: kinv_def sched_def)
  have d: "distinct (wq_list (wq k v))" using wq_distinct [OF q] .
  have iv: "t \<in> set (wq_list (wq k w)) \<longleftrightarrow> w = v" for w
    using in_wait_queue [OF q, of t w] v(1,2) st l by (auto simp: settled_def)
  have o: "wq k' w = wq k w" if "w \<noteq> v" for w using v(3) that by (simp add: touches_def)
  have s: "set (wq_list (wq k' w)) = set (wq_list (wq k w)) - {t}" for w
    using o [of w] v(4) d iv [of w] by (cases "w = v") auto
  have m: "wq_magic (wq k' w) = wq_magic (wq k w)" for w using o [of w] v(4) by (cases "w = v") auto
  have ret: "wait_queue_block_ret (thr k' u) = wait_queue_block_ret (thr k u)" if "u \<noteq> t" for u
    using v(3) that by (simp add: touches_def)
  have "timed W u k k'" for u
  proof (cases "u = t")
    case True
    then show ?thesis using v(5) W iv by (simp add: timed_def s)
  next
    case False
    then show ?thesis using ret by (simp add: timed_def s)
  qed
  then show ?thesis using m by (simp add: timeouts_def)
qed

lemma kernel_callback_timeouts:
  assumes k: "kinv C W k" and now: "current_time k = now" and q: "timer_queue k c = t # q"
    and f: "tm_callback (tmr k t) = Some f"
    and r: "kernel_callback other cpu f t now (tm_arg (tmr k t)) (timer_list_delete t k) = Some (k', r)"
  shows "timeouts W k (after_fire c now t k')"
proof -
  let ?k = "timer_list_delete t k"
  have T: "timers_ok C W k" using k by (simp add: kinv_def)
  then have "timer_inv k" by (simp add: timers_ok_def timers_sorted_def)
  then have l: "tm_linked (tmr k t)" using timer_inv_linked q by (metis list.set_intros(1))
  have e: "thr ?k = thr k" "wq ?k = wq k" by (simp_all add: timer_simps)
  have a: "timeouts W k1 (after_fire c now t k1)" for k1
    by (rule timeouts_same) (simp_all add: after_fire_def requeue_periodic_def timer_simps Let_def)
  have kd: "kinv C W ?k" using k by (rule kinv_timer_list_delete)
  consider (tick) "f = thread_timer_tick_cb"
    | (sleep) v where "f = thread_sleep_handler_cb" "tm_arg (tmr k t) = Some v"
    | (wait) v where "f = wait_queue_timeout_handler_cb" "tm_arg (tmr k t) = Some v" "W v \<noteq> Some INFINITE_TIME" "live (thr k v)"
    using T l f unfolding timers_ok_def by (cases t) auto
  then have "timeouts W ?k k'"
  proof cases
    case tick
    then have "thread_timer_tick cpu ?k = (k', r)" using r by (simp add: kernel_callback_def)
    then show ?thesis by (intro timeouts_same) (auto simp: thread_timer_tick_def Let_def split: if_splits)
  next
    case sleep
    then have "thread_sleep_handler v ?k = Some (k', r)" using r by (simp add: kernel_callback_def)
    then show ?thesis
      by (intro timeouts_same) (auto simp: thread_sleep_handler_def insert_in_run_queue_head_def Let_def split: if_splits)
  next
    case wait
    then have "wait_queue_timeout_handler cpu v ?k = Some (k', r)" using r by (simp add: kernel_callback_def)
    then obtain r' where "thread_unblock_from_wait_queue cpu v ERR_TIMED_OUT ?k = Some (k', r')"
      by (auto simp: wait_queue_timeout_handler_def bind_eq_Some_conv)
    then show ?thesis using unblock_timeouts [OF kd] wait(3,4) e(1) by simp
  qed
  moreover have "timeouts W k ?k" by (rule timeouts_same) (simp_all add: e)
  ultimately show ?thesis using a timeouts_trans by blast
qed

interpretation waiter_timers: quiet_callbacks
  "kernel_callback other cpu" "\<lambda>k. kinv C W k \<and> current_time k = now \<and> timeouts W k0 k" c now
  for other cpu C W k0 c now
proof (unfold_locales, goal_cases)
  case (1 s t q f)
  obtain s' r where "kernel_callback other cpu f t now (tm_arg (tmr s t)) (timer_list_delete t s) = Some (s', r)"
      "kinv C W (after_fire c now t s')" "current_time (after_fire c now t s') = now"
      "tmr s' = tmr (timer_list_delete t s)" "timer_queue s' = timer_queue (timer_list_delete t s)"
    using kernel_callback_quiet [of C W s now c t q f other cpu] 1 by blast
  moreover from this have "timeouts W s (after_fire c now t s')"
    using kernel_callback_timeouts [of C W s now c t q f other cpu s' r] 1 by blast
  ultimately show ?case using 1 timeouts_trans by blast
qed

lemma timer_tick_timeouts:
  assumes k: "kinv C W k"
    and t: "timer_tick (Suc (2 * length (timer_queue k cpu))) (kernel_callback other cpu) cpu (current_time k) k = Some (k', r)"
  shows "timeouts W k k'"
proof -
  have "timeouts W k k" by (simp add: timeouts_same)
  then obtain k1 where k1: "timeouts W k k1" "k' = k1\<lparr>hw_timer := hw_timer k'\<rparr>"
    using waiter_timers.tick_returns [of C W k "current_time k" k cpu "Suc (2 * length (timer_queue k cpu))" other cpu]
      kinv_sorted [OF k, of cpu] k t by auto
  have "wq k' = wq k1" "thr k' = thr k1" by (subst k1(2), simp)+
  then have "timeouts W k1 k'" by (simp add: timeouts_same)
  then show ?thesis using k1(1) timeouts_trans by blast
qed

section \<open>The rest of the kernel, as seen from one wait queue\<close>

text \<open>
  \<open>P\<close> is the set of threads inside \<^verbatim>\<open>wait_queue_block\<close> on the queue \<open>w\<close>: still on it, or
  taken off it and not yet switched back to. An operation that is not addressed to \<open>w\<close>
  can only time some of them out.
\<close>

definition env :: "waiting \<Rightarrow> wq_id \<Rightarrow> thread_id set \<Rightarrow> kstate \<Rightarrow> kstate \<Rightarrow> bool" where
  "env W w P k k' \<longleftrightarrow> wq_magic (wq k' w) = wq_magic (wq k w) \<and>
     set (wq_list (wq k' w)) \<subseteq> set (wq_list (wq k w)) \<and>
     (\<forall>t\<in>P. (\<forall>v. v \<noteq> w \<longrightarrow> t \<notin> set (wq_list (wq k' v))) \<and>
        ((t \<in> set (wq_list (wq k' w)) \<longleftrightarrow> t \<in> set (wq_list (wq k w))) \<and>
           wait_queue_block_ret (thr k' t) = wait_queue_block_ret (thr k t) \<or>
         t \<in> set (wq_list (wq k w)) \<and> t \<notin> set (wq_list (wq k' w)) \<and>
           wait_queue_block_ret (thr k' t) = ERR_TIMED_OUT \<and> W t \<noteq> Some INFINITE_TIME))"

definition only_on :: "wq_id \<Rightarrow> thread_id set \<Rightarrow> kstate \<Rightarrow> bool" where
  "only_on w P k \<longleftrightarrow> (\<forall>t\<in>P. \<forall>v. v \<noteq> w \<longrightarrow> t \<notin> set (wq_list (wq k v)))"

lemma touches_env:
  assumes "touches V S k k'" and "w \<notin> V" and "S \<inter> P = {}" and "only_on w P k"
  shows "env W w P k k'"
proof -
  have q: "wq k' w = wq k w" using assms(1,2) by (simp add: touches_def)
  have "\<forall>v. v \<noteq> w \<longrightarrow> t \<notin> set (wq_list (wq k' v))" "wait_queue_block_ret (thr k' t) = wait_queue_block_ret (thr k t)"
    if "t \<in> P" for t
  proof -
    have "t \<notin> S" using assms(3) that by blast
    then show "\<forall>v. v \<noteq> w \<longrightarrow> t \<notin> set (wq_list (wq k' v))" "wait_queue_block_ret (thr k' t) = wait_queue_block_ret (thr k t)"
      using assms(1,4) that unfolding touches_def only_on_def by blast+
  qed
  then show ?thesis by (simp add: env_def q)
qed

lemma timeouts_env:
  assumes t: "timeouts W k k'" and o: "only_on w P k"
  shows "env W w P k k'"
proof -
  have m: "wq_magic (wq k' w) = wq_magic (wq k w)" using t by (simp add: timeouts_def)
  have s: "u \<in> set (wq_list (wq k v))" if "u \<in> set (wq_list (wq k' v))" for u v
    using t that unfolding timeouts_def timed_def by blast
  have "(u \<in> set (wq_list (wq k' w)) \<longleftrightarrow> u \<in> set (wq_list (wq k w))) \<and>
           wait_queue_block_ret (thr k' u) = wait_queue_block_ret (thr k u) \<or>
         u \<in> set (wq_list (wq k w)) \<and> u \<notin> set (wq_list (wq k' w)) \<and>
           wait_queue_block_ret (thr k' u) = ERR_TIMED_OUT \<and> W u \<noteq> Some INFINITE_TIME" if "u \<in> P" for u
  proof -
    have "timed W u k k'" using t by (simp add: timeouts_def)
    then show ?thesis using o that unfolding timed_def only_on_def by metis
  qed
  moreover have "\<forall>v. v \<noteq> w \<longrightarrow> u \<notin> set (wq_list (wq k' v))" if "u \<in> P" for u
    using o s that unfolding only_on_def by blast
  ultimately show ?thesis using m s by (auto simp: env_def)
qed

text \<open>The operations that are not addressed to \<open>w\<close>.\<close>

fun quiet_for :: "wq_id \<Rightarrow> thread_id set \<Rightarrow> kop \<Rightarrow> kstate \<Rightarrow> bool" where
  "quiet_for w P (Block cpu v timeout) k \<longleftrightarrow> v \<noteq> w"
| "quiet_for w P (Block_return cpu) k \<longleftrightarrow> current k cpu \<notin> P"
| "quiet_for w P (Wake_one cpu v reschedule e) k \<longleftrightarrow> v \<noteq> w"
| "quiet_for w P (Wake_all cpu v reschedule e) k \<longleftrightarrow> v \<noteq> w"
| "quiet_for w P (Wq_init a) k \<longleftrightarrow> wait_queue_at a \<noteq> w"
| "quiet_for w P (Wq_destroy cpu a reschedule) k \<longleftrightarrow> wait_queue_at a \<noteq> w"
| "quiet_for w P _ k \<longleftrightarrow> True"

lemma quiet_env:
  assumes k: "kinv C W k" and en: "enabled C op (W, k)" and ex: "exec op (W, k) = Some (W', k')"
    and q: "quiet_for (wait_queue_at m) P op k" and P: "\<forall>t\<in>P. W t \<noteq> None" and o: "only_on (wait_queue_at m) P k"
  shows "env W (wait_queue_at m) P k k'" and "\<forall>t\<in>P. W' t = W t"
proof -
  let ?w = "wait_queue_at m"
  have live: "live (thr k t)" if "t \<in> P" for t using k P that by (force simp: kinv_def timers_ok_def)
  have cp: "current k cpu \<notin> P" if "W (current k cpu) = None" for cpu using P that by auto
  have qp: "set (wq_list (wq k v)) \<inter> P = {}" if "v \<noteq> ?w" for v using o that by (auto simp: only_on_def)
  note te = touches_env [OF _ _ _ o] and nt = touches_env [OF _ _ _ o, of "{}" "{}", simplified]
  have "env W ?w P k k' \<and> (\<forall>t\<in>P. W' t = W t)"
  proof (cases op)
    case (Yield cpu)
    then show ?thesis using ex nt [OF thread_yield_touches] by auto
  next
    case (Preempt cpu)
    then show ?thesis using ex nt [OF thread_preempt_touches] by auto
  next
    case (Set_priority cpu p)
    then show ?thesis using ex nt [OF thread_set_priority_touches] by auto
  next
    case (Sleep cpu delay)
    then show ?thesis using ex nt [OF thread_sleep_touches] by auto
  next
    case (Wq_init a)
    then have "touches {wait_queue_at a} {} k k'" "W' = W" using ex en
      by (auto simp: wait_queue_init_def intro!: wq_upd_touches)
    then show ?thesis using te [of "{wait_queue_at a}" "{}"] q Wq_init by auto
  next
    case (Block cpu v timeout)
    then obtain r where r: "wait_queue_block cpu v timeout k = Some (k', r)"
        "W' = (case r of Returned _ \<Rightarrow> W | Switched \<Rightarrow> W(current k cpu := Some timeout))"
      using ex by auto
    have n: "current k cpu \<notin> P" using en Block cp by (simp add: blockable_def caller_def)
    show ?thesis
      using te [OF wait_queue_block_touches [OF r(1)]] q Block n r(2) by (auto split: outcome.splits)
  next
    case (Block_return cpu)
    then obtain timeout r where "wait_queue_block_return cpu timeout k = Some (k', r)" "W' = W(current k cpu := None)"
      using ex by (auto split: option.splits)
    then show ?thesis using nt [OF wait_queue_block_return_touches] q Block_return by auto
  next
    case (Wake_one cpu v reschedule e)
    then obtain n where r: "wait_queue_wake_one cpu v reschedule e k = Some (k', n)" "W' = W" using ex by auto
    show ?thesis using te [OF wait_queue_wake_one_touches [OF r(1)]] q Wake_one qp [of v] r(2) by simp
  next
    case (Wake_all cpu v reschedule e)
    then obtain n where r: "wait_queue_wake_all cpu v reschedule e k = Some (k', n)" "W' = W" using ex by auto
    show ?thesis using te [OF wait_queue_wake_all_touches [OF r(1)]] q Wake_all qp [of v] r(2) by simp
  next
    case (Wq_destroy cpu a reschedule)
    then have r: "wait_queue_destroy cpu (wait_queue_at a) reschedule k = Some k'" "W' = W" using ex by auto
    show ?thesis using te [OF wait_queue_destroy_touches [OF r(1)]] q Wq_destroy qp [of "wait_queue_at a"] r(2) by simp
  next
    case (Create cpu a name prio)
    obtain r where r: "thread_create_etc cpu (Some (thread_at a)) None name 0 0 prio None (Some a) 4096 k = (k', r)"
      using ex Create by (cases "thread_create_etc cpu (Some (thread_at a)) None name 0 0 prio None (Some a) 4096 k")
        (auto simp: thread_create_def)
    have "touches {retcode_wait_queue (thread_at a)} {thread_at a} k k'" by (rule thread_create_etc_touches [OF r]) simp
    then show ?thesis
      using te [of "{retcode_wait_queue (thread_at a)}" "{thread_at a}"] live [of "thread_at a"] en ex Create by auto
  next
    case (Resume cpu ints_disabled t)
    then show ?thesis using ex nt [OF thread_resume_touches] by auto
  next
    case (Set_real_time cpu t)
    then show ?thesis using ex nt [OF thread_set_real_time_touches] by auto
  next
    case (Join cpu t timeout)
    then obtain r where r: "thread_join cpu t timeout k = Some (k', r)"
        "W' = (case r of Returned _ \<Rightarrow> W | Switched \<Rightarrow> W(current k cpu := Some timeout))"
      using ex by auto
    have n: "current k cpu \<notin> P" using en Join cp by (simp add: blockable_def caller_def)
    show ?thesis using te [OF thread_join_touches [OF r(1)]] n r(2) by (auto split: outcome.splits)
  next
    case (Detach cpu t)
    then obtain r where r: "thread_detach cpu t k = Some (k', r)" "W' = W" using ex by auto
    show ?thesis
      using te [OF thread_detach_touches [OF r(1) order_refl]] qp [of "retcode_wait_queue t"] r(2) by simp
  next
    case (Exit cpu rc)
    then have r: "thread_exit cpu rc k = Some k'" "W' = W" using ex by auto
    show ?thesis
      using te [OF thread_exit_touches [OF r(1) refl]] qp [of "retcode_wait_queue (current k cpu)"] r(2) by simp
  next
    case (Tick cpu)
    then obtain r where "timer_tick (Suc (2 * length (timer_queue k cpu))) (kernel_callback no_other cpu) cpu (current_time k) k = Some (k', r)"
        "W' = W"
      using ex by auto
    then show ?thesis using timeouts_env [OF timer_tick_timeouts [OF k] o] by blast
  next
    case (Advance now)
    then show ?thesis using ex nt [of k'] by (auto simp: touches_none_iff)
  qed
  then show "env W ?w P k k'" "\<forall>t\<in>P. W' t = W t" by blast+
qed

lemma bring_up_env:
  assumes k: "kinv C W k" and c: "can_bring_up C cpu k" and b: "bring_up cpu k = Some k'"
    and P: "\<forall>t\<in>P. W t \<noteq> None" and o: "only_on (wait_queue_at m) P k"
  shows "env W (wait_queue_at m) P k k'"
proof -
  let ?t = "idle_thread cpu"
  define k1 where "k1 = (thread_create_secondary_cpu_idle_thread cpu k)\<lparr>current := (current (thread_create_secondary_cpu_idle_thread cpu k))(cpu := ?t)\<rparr>"
  have i: "thread_secondary_cpu_entry cpu k1 = Some k'"
    using b by (auto simp: bring_up_def thread_secondary_cpu_init_early_def k1_def Let_def bind_eq_Some_conv)
  have t1: "touches {retcode_wait_queue ?t} {?t} k k1"
    by (simp add: k1_def thread_create_secondary_cpu_idle_thread_def init_thread_struct_def wait_queue_init_def Let_def
        touches_def thr_upd_def wq_upd_def subset_insertI)
  define k2 where "k2 = mp_set_cpu_idle cpu (mp_set_curr_cpu_active cpu True (thr_upd (current k1 cpu) (\<lambda>x. x\<lparr>priority := IDLE_PRIORITY\<rparr>) k1))"
  have "thread_yield cpu k2 = Some k'" using i by (simp add: thread_secondary_cpu_entry_def k2_def Let_def)
  moreover have "touches {} {} k1 k2" by (simp add: k2_def touches_none_iff mp_set_curr_cpu_active_def thr_upd_def)
  ultimately have "touches {retcode_wait_queue ?t} {?t} k k'"
    using t1 thread_yield_touches touches_none touches_trans by blast
  moreover have "?t \<notin> P" using k P c by (force simp: kinv_def timers_ok_def can_bring_up_def)
  ultimately show ?thesis using touches_env [of _ _ k k' "wait_queue_at m" P W] o by simp
qed

section \<open>Runs with a mutex\<close>

text \<open>
  \<open>mreach n m T C W P I s\<close>: a state reached from initialising the mutex at \<open>m\<close> in a running
  kernel. \<open>P\<close> are the threads inside \<^verbatim>\<open>mutex_acquire_timeout\<close> and \<open>I\<close> those whose acquisition
  returned success and that have not called \<^verbatim>\<open>mutex_release\<close> since. \<open>T\<close> are the timeouts callers
  use. Between calls on \<open>m\<close> the kernel and every other object may do what they like, except
  to \<open>m\<close>, its queue and its waiting threads.
\<close>

definition enter :: "status_t \<Rightarrow> thread_id \<Rightarrow> thread_id set \<Rightarrow> thread_id set" where
  "enter ret t I = (if ret < NO_ERROR then I else insert t I)"

inductive mreach :: "nat \<Rightarrow> addr \<Rightarrow> nusa_time_t set \<Rightarrow> nat set \<Rightarrow> waiting \<Rightarrow> thread_id set \<Rightarrow> thread_id set \<Rightarrow> sstate \<Rightarrow> bool"
  for n m T where
  initialised: "kreach n C W (kern s) \<Longrightarrow> wq_list (wq (kern s) (wait_queue_at m)) = [] \<Longrightarrow>
    mreach n m T C W {} {} (mutex_init m s)"
| kernel: "mreach n m T C W P I s \<Longrightarrow> enabled C op (W, kern s) \<Longrightarrow> quiet_for (wait_queue_at m) P op (kern s) \<Longrightarrow>
    exec op (W, kern s) = Some (W', k') \<Longrightarrow> kern s' = k' \<Longrightarrow> mx s' m = mx s m \<Longrightarrow> mreach n m T C W' P I s'"
| cpu_up: "mreach n m T C W P I s \<Longrightarrow> can_bring_up C cpu (kern s) \<Longrightarrow> bring_up cpu (kern s) = Some k' \<Longrightarrow>
    mreach n m T (insert cpu C) W P I (s\<lparr>kern := k'\<rparr>)"
| others: "mreach n m T C W P I s \<Longrightarrow> kern s' = kern s \<Longrightarrow> mx s' m = mx s m \<Longrightarrow> mreach n m T C W P I s'"
| acquired: "mreach n m T C W P I s \<Longrightarrow> blockable C W (kern s) cpu \<Longrightarrow> this_thread cpu s \<notin> I \<Longrightarrow>
    timeout \<in> T \<Longrightarrow> timeout_ok timeout \<Longrightarrow> mutex_acquire_timeout cpu m timeout s = Some (s', Returned ret) \<Longrightarrow>
    mreach n m T C W P (enter ret (this_thread cpu s) I) s'"
| waits: "mreach n m T C W P I s \<Longrightarrow> blockable C W (kern s) cpu \<Longrightarrow> this_thread cpu s \<notin> I \<Longrightarrow>
    timeout \<in> T \<Longrightarrow> timeout_ok timeout \<Longrightarrow> mutex_acquire_timeout cpu m timeout s = Some (s', Switched) \<Longrightarrow>
    mreach n m T C (W(this_thread cpu s := Some timeout)) (insert (this_thread cpu s) P) I s'"
| resumes: "mreach n m T C W P I s \<Longrightarrow> cpu \<in> C \<Longrightarrow> this_thread cpu s \<in> P \<Longrightarrow> W (this_thread cpu s) = Some timeout \<Longrightarrow>
    mutex_acquire_return cpu m timeout s = Some (s', ret) \<Longrightarrow>
    mreach n m T C (W(this_thread cpu s := None)) (P - {this_thread cpu s}) (enter ret (this_thread cpu s) I) s'"
| released: "mreach n m T C W P I s \<Longrightarrow> blockable C W (kern s) cpu \<Longrightarrow> this_thread cpu s \<in> I \<Longrightarrow>
    mutex_release cpu m s = Some (s', ret) \<Longrightarrow> mreach n m T C W P (I - {this_thread cpu s}) s'"

text \<open>Threads the mutex has been handed to that have not been switched back to yet.\<close>

definition granted :: "addr \<Rightarrow> thread_id set \<Rightarrow> kstate \<Rightarrow> thread_id set" where
  "granted m P k = {t \<in> P. t \<notin> set (wq_list (wq k (wait_queue_at m))) \<and> wait_queue_block_ret (thr k t) = NO_ERROR}"

definition waiters_ok :: "addr \<Rightarrow> waiting \<Rightarrow> thread_id set \<Rightarrow> kstate \<Rightarrow> bool" where
  "waiters_ok m W P k \<longleftrightarrow> wq_magic (wq k (wait_queue_at m)) = WAIT_QUEUE_MAGIC \<and> finite P \<and>
     (\<forall>t\<in>P. W t \<noteq> None) \<and> only_on (wait_queue_at m) P k \<and> set (wq_list (wq k (wait_queue_at m))) \<subseteq> P \<and>
     (\<forall>t\<in>P. t \<notin> set (wq_list (wq k (wait_queue_at m))) \<longrightarrow>
        wait_queue_block_ret (thr k t) = NO_ERROR \<or>
        wait_queue_block_ret (thr k t) = ERR_TIMED_OUT \<and> W t \<noteq> Some INFINITE_TIME)"

definition mutex_inv :: "nat set \<Rightarrow> addr \<Rightarrow> waiting \<Rightarrow> thread_id set \<Rightarrow> thread_id set \<Rightarrow> sstate \<Rightarrow> bool" where
  "mutex_inv C m W P I s \<longleftrightarrow> kinv C W (kern s) \<and> waiters_ok m W P (kern s) \<and>
     mx_magic (mx s m) = MUTEX_MAGIC \<and> I = set_option (mx_holder (mx s m)) \<and> P \<inter> I = {} \<and>
     mx_count (mx s m) = int (card P + card I) \<and> card (granted m P (kern s) \<union> I) \<le> 1"

lemma waiters_off_queue:
  "waiters_ok m W P k \<Longrightarrow> t \<in> P \<Longrightarrow> t \<notin> set (wq_list (wq k (wait_queue_at m))) \<Longrightarrow>
     wait_queue_block_ret (thr k t) = NO_ERROR \<or>
     wait_queue_block_ret (thr k t) = ERR_TIMED_OUT \<and> W t \<noteq> Some INFINITE_TIME"
  by (simp add: waiters_ok_def)

lemma env_waiters:
  assumes e: "env W (wait_queue_at m) P k k'" and w: "waiters_ok m W P k" and W': "\<forall>t\<in>P. W' t = W t"
  shows "waiters_ok m W' P k'" and "granted m P k' = granted m P k"
proof -
  let ?q = "set (wq_list (wq k (wait_queue_at m)))" and ?q' = "set (wq_list (wq k' (wait_queue_at m)))"
  have t: "(t \<in> ?q' \<longleftrightarrow> t \<in> ?q) \<and> wait_queue_block_ret (thr k' t) = wait_queue_block_ret (thr k t) \<or>
      t \<in> ?q \<and> t \<notin> ?q' \<and> wait_queue_block_ret (thr k' t) = ERR_TIMED_OUT \<and> W t \<noteq> Some INFINITE_TIME" if "t \<in> P" for t
    using e that unfolding env_def by blast
  have "only_on (wait_queue_at m) P k'" using e unfolding env_def only_on_def by blast
  moreover have "wait_queue_block_ret (thr k' t) = NO_ERROR \<or>
      wait_queue_block_ret (thr k' t) = ERR_TIMED_OUT \<and> W' t \<noteq> Some INFINITE_TIME" if "t \<in> P" "t \<notin> ?q'" for t
    using t [OF that(1)] that w W' unfolding waiters_ok_def by fastforce
  moreover have "wq_magic (wq k' (wait_queue_at m)) = wq_magic (wq k (wait_queue_at m))" "?q' \<subseteq> ?q"
    using e by (simp_all add: env_def)
  ultimately show "waiters_ok m W' P k'" using w W' unfolding waiters_ok_def by auto
  have "t \<notin> ?q' \<and> wait_queue_block_ret (thr k' t) = NO_ERROR \<longleftrightarrow> t \<notin> ?q \<and> wait_queue_block_ret (thr k t) = NO_ERROR"
    if "t \<in> P" for t
    using t [OF that] by auto
  then show "granted m P k' = granted m P k" unfolding granted_def by blast
qed

lemma env_mutex_inv:
  assumes "mutex_inv C m W P I s" and "env W (wait_queue_at m) P (kern s) (kern s')" and "\<forall>t\<in>P. W' t = W t"
    and "kinv C' W' (kern s')" and "mx s' m = mx s m"
  shows "mutex_inv C' m W' P I s'"
  using env_waiters [OF assms(2) _ assms(3)] assms(1,4,5) by (auto simp: mutex_inv_def)

section \<open>Every call keeps the invariant\<close>

lemma mutex_invI:
  assumes "kinv C W (kern s)" and "waiters_ok m W P (kern s)" and "mx_magic (mx s m) = MUTEX_MAGIC"
    and "I = set_option (mx_holder (mx s m))" and "P \<inter> I = {}" and "mx_count (mx s m) = int (card P + card I)"
    and "card (granted m P (kern s) \<union> I) \<le> 1"
  shows "mutex_inv C m W P I s"
  using assms unfolding mutex_inv_def by blast

lemma card_le_1_eq: "card A \<le> 1 \<Longrightarrow> finite A \<Longrightarrow> a \<in> A \<Longrightarrow> A = {a}"
  using card_le_Suc0_iff_eq [of A] by auto

lemma waiters_block:
  assumes w: "waiters_ok m W P k" and b: "wait_queue_block cpu (wait_queue_at m) timeout k = Some (k', r)" "timeout \<noteq> 0"
    and t: "t = current k cpu" "t \<notin> P" and c: "\<And>v. t \<notin> set (wq_list (wq k v))"
  shows "waiters_ok m (W(t := Some timeout)) (insert t P) k'" and "granted m (insert t P) k' = granted m P k"
proof -
  let ?w = "wait_queue_at m"
  have q: "touches {?w} {t} k k'" "wq_list (wq k' ?w) = wq_list (wq k ?w) @ [t]" "wq_magic (wq k' ?w) = wq_magic (wq k ?w)"
    using wait_queue_block_queue [OF b] t(1) by auto
  have o: "wq k' v = wq k v" if "v \<noteq> ?w" for v using q(1) that by (simp add: touches_def)
  have r: "wait_queue_block_ret (thr k' u) = wait_queue_block_ret (thr k u)" if "u \<noteq> t" for u
    using q(1) that by (simp add: touches_def)
  have "only_on ?w (insert t P) k'" using w c o by (auto simp: waiters_ok_def only_on_def)
  moreover have "wait_queue_block_ret (thr k' u) = NO_ERROR \<or>
      wait_queue_block_ret (thr k' u) = ERR_TIMED_OUT \<and> (W(t := Some timeout)) u \<noteq> Some INFINITE_TIME"
    if "u \<in> insert t P" "u \<notin> set (wq_list (wq k' ?w))" for u
    using that r [of u] w q(2) by (auto simp: waiters_ok_def)
  ultimately show "waiters_ok m (W(t := Some timeout)) (insert t P) k'"
    using w q(2,3) unfolding waiters_ok_def by auto
  show "granted m (insert t P) k' = granted m P k"
  proof -
    have "wait_queue_block_ret (thr k' u) = wait_queue_block_ret (thr k u)" if "u \<in> P" for u
      by (rule r) (use t(2) that in auto)
    then show ?thesis using t(2) by (auto simp: granted_def q(2))
  qed
qed

lemma current_not_queued:
  assumes "kinv C W k" and "cpu \<in> C"
  shows "current k cpu \<notin> set (wq_list (wq k v))"
  using kinv_running(1) [OF assms] in_wait_queue [of k "current k cpu" v] assms(1) by (simp add: kinv_def sched_def)

lemma mutex_acquire_inv:
  assumes i: "mutex_inv C m W P I s" and b: "blockable C W (kern s) cpu" and t: "t = this_thread cpu s" "t \<notin> I"
    and to: "timeout_ok timeout"
  shows "P = {} \<and> I = {} \<Longrightarrow> \<exists>s'. mutex_acquire_timeout cpu m timeout s = Some (s', Returned NO_ERROR) \<and>
      mutex_inv C m W P {t} s' \<and> kern s' = kern s"
    and "P \<union> I \<noteq> {} \<Longrightarrow> timeout = 0 \<Longrightarrow> \<exists>s'. mutex_acquire_timeout cpu m timeout s = Some (s', Returned ERR_TIMED_OUT) \<and>
      mutex_inv C m W P I s' \<and> kern s' = kern s"
    and "P \<union> I \<noteq> {} \<Longrightarrow> timeout \<noteq> 0 \<Longrightarrow> \<exists>s'. mutex_acquire_timeout cpu m timeout s = Some (s', Switched) \<and>
      mutex_inv C m (W(t := Some timeout)) (insert t P) I s' \<and> granted m (insert t P) (kern s') = granted m P (kern s)"
proof -
  let ?k = "kern s" and ?w = "wait_queue_at m"
  have k: "kinv C W ?k" and w: "waiters_ok m W P ?k" and mg: "mx_magic (mx s m) = MUTEX_MAGIC"
    and h: "I = set_option (mx_holder (mx s m))" and n: "mx_count (mx s m) = int (card P + card I)"
    and g: "card (granted m P ?k \<union> I) \<le> 1" and d: "P \<inter> I = {}"
    using i unfolding mutex_inv_def by blast+
  have c: "cpu \<in> C" "W t = None" "\<not> thread_is_idle (thr ?k (current ?k cpu))" and tc: "t = current ?k cpu"
    using b t(1) by (simp_all add: blockable_def caller_def this_thread_def)
  have tP: "t \<notin> P" using w c(2) by (auto simp: waiters_ok_def)
  have nh: "Some t \<noteq> mx_holder (mx s m)" using h t(2) by auto
  have fin: "finite P" "finite I" using w h by (simp_all add: waiters_ok_def)
  then have pos: "0 < card P + card I \<longleftrightarrow> P \<union> I \<noteq> {}" by (auto simp: card_gt_0_iff)
  then have cpos: "0 < mx_count (mx s m)" if "P \<union> I \<noteq> {}" using that n by linarith
  have m': "wq_magic (wq ?k ?w) = WAIT_QUEUE_MAGIC" using w by (simp add: waiters_ok_def)
  have run: "t_state (thr ?k (current ?k cpu)) = THREAD_RUNNING" using kinv_running(1) [OF k c(1)] .
  show "\<exists>s'. mutex_acquire_timeout cpu m timeout s = Some (s', Returned NO_ERROR) \<and> mutex_inv C m W P {t} s' \<and> kern s' = kern s"
    if e: "P = {} \<and> I = {}"
    using e mg nh n h k w t(1)
    by (simp add: mutex_acquire_timeout_def mutex_acquired_def mx_upd_def mutex_inv_def granted_def this_thread_def Let_def)
  show "\<exists>s'. mutex_acquire_timeout cpu m timeout s = Some (s', Returned ERR_TIMED_OUT) \<and> mutex_inv C m W P I s' \<and> kern s' = kern s"
    if e: "P \<union> I \<noteq> {}" "timeout = 0"
  proof -
    have "mutex_acquire_timeout cpu m timeout s =
        Some (s\<lparr>mx := (mx s)(m := (mx s m)\<lparr>mx_count := mx_count (mx s m)\<rparr>)\<rparr>, Returned ERR_TIMED_OUT)"
      using e cpos mg nh m' run t(1) tc
      by (simp add: mutex_acquire_timeout_def mutex_acquired_def mx_upd_def this_thread_def wait_queue_block_def Let_def)
    then show ?thesis using i by (auto simp: mutex_inv_def)
  qed
  show "\<exists>s'. mutex_acquire_timeout cpu m timeout s = Some (s', Switched) \<and>
      mutex_inv C m (W(t := Some timeout)) (insert t P) I s' \<and> granted m (insert t P) (kern s') = granted m P (kern s)"
    if e: "P \<union> I \<noteq> {}" "timeout \<noteq> 0"
  proof -
    obtain k' where k': "wait_queue_block cpu ?w timeout ?k = Some (k', Switched)" "kinv C (W(t := Some timeout)) k'"
      using wait_queue_block_ok [OF k c(1,3) _ m' e(2)] c(2) tc to by (auto simp: timeout_ok_def)
    note wb = waiters_block [OF w k'(1) e(2) tc tP current_not_queued [OF k c(1), folded tc]]
    let ?s' = "s\<lparr>mx := (mx s)(m := (mx s m)\<lparr>mx_count := mx_count (mx s m) + 1\<rparr>), kern := k'\<rparr>"
    have "mutex_acquire_timeout cpu m timeout s = Some (?s', Switched)"
      using e cpos mg nh k'(1) t(1) by (simp add: mutex_acquire_timeout_def mx_upd_def Let_def)
    moreover have "mutex_inv C m (W(t := Some timeout)) (insert t P) I ?s'"
      by (rule mutex_invI) (use wb k'(2) mg h n g d tP t(2) fin in simp_all)
    ultimately show ?thesis using wb(2) by auto
  qed
qed

lemma waiters_return:
  assumes w: "waiters_ok m W P k" and s: "touches {} {} k k'" and t: "t \<notin> set (wq_list (wq k (wait_queue_at m)))"
  shows "waiters_ok m (W(t := None)) (P - {t}) k'" and "granted m (P - {t}) k' = granted m P k - {t}"
proof -
  have e: "wq k' = wq k" "\<And>u. wait_queue_block_ret (thr k' u) = wait_queue_block_ret (thr k u)"
    using s by (simp_all add: touches_none_iff)
  show "waiters_ok m (W(t := None)) (P - {t}) k'" using w t unfolding waiters_ok_def only_on_def e by auto
  show "granted m (P - {t}) k' = granted m P k - {t}" unfolding granted_def e by auto
qed

lemma mutex_return_inv:
  assumes i: "mutex_inv C m W P I s" and c: "cpu \<in> C" and t: "t = this_thread cpu s" "t \<in> P" and W: "W t = Some timeout"
  shows "\<exists>s' ret. mutex_acquire_return cpu m timeout s = Some (s', ret) \<and>
      mutex_inv C m (W(t := None)) (P - {t}) (enter ret t I) s' \<and> ret = wait_queue_block_ret (thr (kern s) t)"
proof -
  let ?k = "kern s" and ?w = "wait_queue_at m"
  have k: "kinv C W ?k" and w: "waiters_ok m W P ?k" and mg: "mx_magic (mx s m) = MUTEX_MAGIC"
    and h: "I = set_option (mx_holder (mx s m))" and n: "mx_count (mx s m) = int (card P + card I)"
    and g: "card (granted m P ?k \<union> I) \<le> 1" and d: "P \<inter> I = {}"
    using i unfolding mutex_inv_def by blast+
  have tc: "t = current ?k cpu" using t(1) by (simp add: this_thread_def)
  obtain k' where k': "wait_queue_block_return cpu timeout ?k = Some (k', wait_queue_block_ret (thr ?k t))"
      "kinv C (W(t := None)) k'" "same_kernel ?k k'"
    using wait_queue_block_return_ok [OF k c, of timeout] W unfolding tc by blast
  have nq: "t \<notin> set (wq_list (wq ?k ?w))" using current_not_queued [OF k c] tc by simp
  note wr = waiters_return [OF w wait_queue_block_return_touches [OF k'(1)] nq]
  have cur: "current k' cpu = t" using k'(3) tc by (simp add: same_kernel_def)
  have fin: "finite P" "finite (granted m P ?k)" "finite I" using w h by (auto simp: waiters_ok_def granted_def)
  have ret: "wait_queue_block_ret (thr ?k t) = NO_ERROR \<or> wait_queue_block_ret (thr ?k t) = ERR_TIMED_OUT"
    using waiters_off_queue [OF w t(2) nq] by (elim disjE conjE) simp_all
  have cP: "card P = Suc (card (P - {t}))" using card.remove [OF fin(1) t(2)] .
  have tI: "t \<notin> I" using d t(2) by blast
  show ?thesis
  proof (cases "wait_queue_block_ret (thr ?k t) = NO_ERROR")
    case True
    then have "t \<in> granted m P ?k" using t(2) nq by (simp add: granted_def)
    then have "granted m P ?k \<union> I = {t}" using card_le_1_eq [OF g] fin by simp
    then have gr: "granted m P ?k \<subseteq> {t}" "I = {}" using tI by auto
    let ?s' = "s\<lparr>kern := k', mx := (mx s)(m := (mx s m)\<lparr>mx_holder := Some t\<rparr>)\<rparr>"
    have "mutex_acquire_return cpu m timeout s = Some (?s', NO_ERROR)"
      using k'(1) True cur by (simp add: mutex_acquire_return_def mutex_acquired_def this_thread_def mx_upd_def)
    moreover have "mutex_inv C m (W(t := None)) (P - {t}) {t} ?s'"
    proof (rule mutex_invI)
      show "mx_count (mx ?s' m) = int (card (P - {t}) + card {t})" using n gr(2) cP by simp
      have "granted m (P - {t}) k' = {}" using wr(2) gr(1) by blast
      then show "card (granted m (P - {t}) (kern ?s') \<union> {t}) \<le> 1" by simp
    qed (use wr(1) k'(2) mg in simp_all)
    moreover have "enter NO_ERROR t I = {t}" using gr(2) by (simp add: enter_def)
    ultimately show ?thesis using True by metis
  next
    case False
    then have r: "wait_queue_block_ret (thr ?k t) = ERR_TIMED_OUT" using ret by blast
    let ?s' = "s\<lparr>kern := k', mx := (mx s)(m := (mx s m)\<lparr>mx_count := mx_count (mx s m) - 1\<rparr>)\<rparr>"
    have "mutex_acquire_return cpu m timeout s = Some (?s', ERR_TIMED_OUT)"
      using k'(1) r by (simp add: mutex_acquire_return_def mutex_acquired_def this_thread_def mx_upd_def)
    moreover have "card (granted m (P - {t}) k' \<union> I) \<le> 1"
    proof -
      have "granted m (P - {t}) k' \<union> I \<subseteq> granted m P ?k \<union> I" unfolding wr(2) by blast
      then show ?thesis using card_mono [of "granted m P ?k \<union> I" "granted m (P - {t}) k' \<union> I"] g fin by simp
    qed
    then have "mutex_inv C m (W(t := None)) (P - {t}) I ?s'"
    proof (intro mutex_invI)
      show "mx_count (mx ?s' m) = int (card (P - {t}) + card I)" using n cP by simp
      show "(P - {t}) \<inter> I = {}" using d by blast
    qed (use wr(1) k'(2) mg h in simp_all)
    moreover have "enter ERR_TIMED_OUT t I = I" by (simp add: enter_def)
    ultimately show ?thesis using r by metis
  qed
qed

lemma waiters_wake:
  assumes w: "waiters_ok m W P k" and b: "wait_queue_wake_one cpu (wait_queue_at m) True NO_ERROR k = Some (k', r)"
    and q: "wq_list (wq k (wait_queue_at m)) = u # us" and d: "distinct (u # us)" and g: "granted m P k = {}"
  shows "waiters_ok m W P k'" and "granted m P k' = {u}"
proof -
  let ?w = "wait_queue_at m"
  have t: "touches {?w} {u} k k'" "wq_list (wq k' ?w) = us" "wq_magic (wq k' ?w) = wq_magic (wq k ?w)"
      "wait_queue_block_ret (thr k' u) = NO_ERROR"
    using wait_queue_wake_one_queue [OF b q] by auto
  have o: "wq k' v = wq k v" if "v \<noteq> ?w" for v using t(1) that by (simp add: touches_def)
  have r: "wait_queue_block_ret (thr k' v) = wait_queue_block_ret (thr k v)" if "v \<noteq> u" for v
    using t(1) that by (simp add: touches_def)
  have "only_on ?w P k'" using w o by (auto simp: waiters_ok_def only_on_def)
  moreover have "wait_queue_block_ret (thr k' v) = NO_ERROR \<or>
      wait_queue_block_ret (thr k' v) = ERR_TIMED_OUT \<and> W v \<noteq> Some INFINITE_TIME"
    if "v \<in> P" "v \<notin> set (wq_list (wq k' ?w))" for v
    using that r [of v] w q t(2,4) by (cases "v = u") (auto simp: waiters_ok_def)
  ultimately show "waiters_ok m W P k'" using w q t(2,3) unfolding waiters_ok_def by auto
  have "u \<in> P" using w q by (auto simp: waiters_ok_def)
  moreover have "v \<notin> granted m P k'" if "v \<noteq> u" for v using g that r [OF that] t(2) q by (auto simp: granted_def)
  moreover have "u \<notin> set us" using d by simp
  ultimately show "granted m P k' = {u}" using t(2,4) by (auto simp: granted_def)
qed

lemma mutex_release_inv:
  assumes i: "mutex_inv C m W P I s" and b: "blockable C W (kern s) cpu" and t: "t = this_thread cpu s" "t \<in> I"
  shows "\<exists>s'. mutex_release cpu m s = Some (s', NO_ERROR) \<and> mutex_inv C m W P {} s' \<and> I = {t} \<and>
    (wq_list (wq (kern s) (wait_queue_at m)) \<noteq> [] \<longrightarrow> granted m P (kern s') = {hd (wq_list (wq (kern s) (wait_queue_at m)))})"
proof -
  let ?k = "kern s" and ?w = "wait_queue_at m"
  have k: "kinv C W ?k" and w: "waiters_ok m W P ?k" and mg: "mx_magic (mx s m) = MUTEX_MAGIC"
    and h: "I = set_option (mx_holder (mx s m))" and n: "mx_count (mx s m) = int (card P + card I)"
    and g: "card (granted m P ?k \<union> I) \<le> 1" and d: "P \<inter> I = {}"
    using i unfolding mutex_inv_def by blast+
  have c: "cpu \<in> C" "\<not> thread_is_idle (thr ?k (current ?k cpu))" using b by (simp_all add: blockable_def caller_def)
  have fin: "finite P" "finite (granted m P ?k)" using w by (auto simp: waiters_ok_def granted_def)
  have hd: "mx_holder (mx s m) = Some t" and I: "I = {t}" using h t(2) by (cases "mx_holder (mx s m)"; auto)+
  have "granted m P ?k \<union> I = {t}" using card_le_1_eq [OF g _ UnI2 [OF t(2)]] fin I by simp
  then have g0: "granted m P ?k = {}" using d I by (auto simp: granted_def)
  have m': "wq_magic (wq ?k ?w) = WAIT_QUEUE_MAGIC" and qP: "set (wq_list (wq ?k ?w)) \<subseteq> P" using w by (simp_all add: waiters_ok_def)
  let ?x = "(mx s m)\<lparr>mx_holder := None, mx_count := int (card P)\<rparr>"
  have inv: "mutex_inv C m W P {} (s\<lparr>mx := (mx s)(m := ?x), kern := k'\<rparr>)"
    if "kinv C W k'" "waiters_ok m W P k'" "card (granted m P k') \<le> 1" for k'
    by (rule mutex_invI) (use that mg in simp_all)
  show ?thesis
  proof (cases "wq_list (wq ?k ?w)")
    case Nil
    then have "wait_queue_wake_one cpu ?w True NO_ERROR ?k = Some (?k, 0)" using m' by (simp add: wait_queue_wake_one_def)
    then have "mutex_release cpu m s = Some (s\<lparr>mx := (mx s)(m := ?x), kern := ?k\<rparr>, NO_ERROR)"
      using mg hd n I t(1) by (simp add: mutex_release_def mx_upd_def Let_def)
    then show ?thesis using inv [OF k w] g0 I Nil by simp
  next
    case (Cons u us)
    obtain k' r where k': "wait_queue_wake_one cpu ?w True NO_ERROR ?k = Some (k', r)" "kinv C W k'"
      using wait_queue_wake_one_resched_ok [OF k c m' Cons] by blast
    have "distinct (u # us)" using wq_distinct [of ?k ?w] k Cons by (simp add: kinv_def sched_def)
    note ww = waiters_wake [OF w k'(1) Cons this g0]
    have "card P \<noteq> 0" using qP Cons fin(1) by auto
    then have "mutex_release cpu m s = Some (s\<lparr>mx := (mx s)(m := ?x), kern := k'\<rparr>, NO_ERROR)"
      using mg hd n I t(1) k'(1) by (simp add: mutex_release_def mx_upd_def Let_def)
    then show ?thesis using inv [OF k'(2) ww(1)] ww(2) I Cons by simp
  qed
qed

lemma mreach_inv:
  assumes n: "0 < n" and r: "mreach n m T C W P I s"
  shows "mutex_inv C m W P I s"
  using r
proof (induction rule: mreach.induct)
  case (initialised C W s)
  have "kinv C W (wait_queue_init (wait_queue_at m) (kern s))"
    using kinv_wait_queue_init [OF kreach_kinv [OF n initialised(1)]] initialised(2) by simp
  then show ?case
    by (intro mutex_invI) (simp_all add: mutex_init_def mx_upd_def waiters_ok_def only_on_def granted_def wait_queue_init_def wq_upd_def)
next
  case (kernel C W P I s op W' k' s')
  have k: "kinv C W (kern s)" "waiters_ok m W P (kern s)" using kernel.IH by (simp_all add: mutex_inv_def)
  then have P: "\<forall>t\<in>P. W t \<noteq> None" "only_on (wait_queue_at m) P (kern s)" by (simp_all add: waiters_ok_def)
  have "kinv C W' k'" using exec_kinv [OF k(1) kernel(2)] kernel(4) by simp
  then show ?case
    using env_mutex_inv [OF kernel.IH, of s' W' C] quiet_env [OF k(1) kernel(2,4,3) P] kernel(5,6) by simp
next
  case (cpu_up C W P I s cpu k')
  have k: "kinv C W (kern s)" "waiters_ok m W P (kern s)" using cpu_up.IH by (simp_all add: mutex_inv_def)
  then have P: "\<forall>t\<in>P. W t \<noteq> None" "only_on (wait_queue_at m) P (kern s)" by (simp_all add: waiters_ok_def)
  have "kinv (insert cpu C) W k'" using bring_up_ok [OF k(1), of cpu] cpu_up(2,3) by (simp add: can_bring_up_def)
  then show ?case
    using env_mutex_inv [OF cpu_up.IH, of "s\<lparr>kern := k'\<rparr>" W "insert cpu C"] bring_up_env [OF k(1) cpu_up(2,3) P] by simp
next
  case (others C W P I s s')
  show ?case using others.IH unfolding mutex_inv_def others(2,3) .
next
  case (acquired C W P I s cpu timeout s' ret)
  note a = mutex_acquire_inv [OF acquired.IH acquired(2) refl acquired(3,5)]
  consider "P = {} \<and> I = {}" | "P \<union> I \<noteq> {}" "timeout = 0" | "P \<union> I \<noteq> {}" "timeout \<noteq> 0" by blast
  then show ?case by cases (use a acquired(6) in \<open>auto simp: enter_def\<close>)
next
  case (waits C W P I s cpu timeout s')
  note a = mutex_acquire_inv [OF waits.IH waits(2) refl waits(3,5)]
  consider "P = {} \<and> I = {}" | "P \<union> I \<noteq> {}" "timeout = 0" | "P \<union> I \<noteq> {}" "timeout \<noteq> 0" by blast
  then show ?case by cases (use a waits(6) in \<open>auto simp: fun_upd_def\<close>)
next
  case (resumes C W P I s cpu timeout s' ret)
  then show ?case using mutex_return_inv [OF resumes.IH resumes(2) refl resumes(3,4)] by (auto simp: fun_upd_def)
next
  case (released C W P I s cpu s' ret)
  then show ?case using mutex_release_inv [OF released.IH released(2) refl released(3)] by auto
qed

text \<open>Without finite timeouts a waiting thread always has someone to wait for.\<close>

definition served :: "addr \<Rightarrow> waiting \<Rightarrow> thread_id set \<Rightarrow> thread_id set \<Rightarrow> kstate \<Rightarrow> bool" where
  "served m W P I k \<longleftrightarrow> (\<forall>t\<in>P. W t = Some INFINITE_TIME) \<and> (P \<noteq> {} \<longrightarrow> I \<noteq> {} \<or> granted m P k \<noteq> {})"

lemma mreach_served:
  assumes n: "0 < n" and r: "mreach n m T C W P I s" and T: "T \<subseteq> {0, INFINITE_TIME}"
  shows "served m W P I (kern s)"
  using r
proof (induction rule: mreach.induct)
  case (initialised C W s)
  then show ?case by (simp add: served_def)
next
  case (kernel C W P I s op W' k' s')
  have k: "kinv C W (kern s)" "waiters_ok m W P (kern s)" using mreach_inv [OF n kernel(1)] by (simp_all add: mutex_inv_def)
  then have P: "\<forall>t\<in>P. W t \<noteq> None" "only_on (wait_queue_at m) P (kern s)" by (simp_all add: waiters_ok_def)
  note q = quiet_env [OF k(1) kernel(2,4,3) P]
  show ?case using kernel.IH env_waiters(2) [OF q(1) k(2) q(2)] q(2) kernel(5) by (simp add: served_def)
next
  case (cpu_up C W P I s cpu k')
  have k: "kinv C W (kern s)" "waiters_ok m W P (kern s)" using mreach_inv [OF n cpu_up(1)] by (simp_all add: mutex_inv_def)
  then have P: "\<forall>t\<in>P. W t \<noteq> None" "only_on (wait_queue_at m) P (kern s)" by (simp_all add: waiters_ok_def)
  show ?case using cpu_up.IH env_waiters(2) [OF bring_up_env [OF k(1) cpu_up(2,3) P] k(2), of W] by (simp add: served_def)
next
  case (others C W P I s s')
  then show ?case by simp
next
  case (acquired C W P I s cpu timeout s' ret)
  note a = mutex_acquire_inv [OF mreach_inv [OF n acquired(1)] acquired(2) refl acquired(3,5)]
  consider "P = {} \<and> I = {}" | "P \<union> I \<noteq> {}" "timeout = 0" | "P \<union> I \<noteq> {}" "timeout \<noteq> 0" by blast
  then show ?case by cases (use a acquired(6) acquired.IH in \<open>auto simp: enter_def served_def\<close>)
next
  case (waits C W P I s cpu timeout s')
  note a = mutex_acquire_inv [OF mreach_inv [OF n waits(1)] waits(2) refl waits(3,5)]
  have nz: "timeout = INFINITE_TIME" "P \<union> I \<noteq> {}"
    using a waits(4,6) T by (cases "P \<union> I = {}"; cases "timeout = 0"; auto)+
  then have "timeout \<noteq> 0" by (simp add: INFINITE_TIME_def)
  then have g: "granted m (insert (this_thread cpu s) P) (kern s') = granted m P (kern s)" using a(3) nz(2) waits(6) by auto
  show ?case using waits.IH nz by (auto simp: served_def g)
next
  case (resumes C W P I s cpu timeout s' ret)
  let ?t = "this_thread cpu s"
  note i = mreach_inv [OF n resumes(1)]
  have w: "waiters_ok m W P (kern s)" and k: "kinv C W (kern s)" using i by (simp_all add: mutex_inv_def)
  have nq: "?t \<notin> set (wq_list (wq (kern s) (wait_queue_at m)))"
    using current_not_queued [OF k resumes(2)] by (simp add: this_thread_def)
  have "W ?t = Some INFINITE_TIME" using resumes.IH resumes(3) by (simp add: served_def)
  then have "ret = NO_ERROR"
    using waiters_off_queue [OF w resumes(3) nq] mutex_return_inv [OF i resumes(2) refl resumes(3,4)] resumes(5) by auto
  then show ?case using resumes.IH by (auto simp: served_def enter_def)
next
  case (released C W P I s cpu s' ret)
  note i = mreach_inv [OF n released(1)]
  have w: "waiters_ok m W P (kern s)" using i by (simp add: mutex_inv_def)
  obtain s1 where r: "mutex_release cpu m s = Some (s1, NO_ERROR)" "I = {this_thread cpu s}"
      "wq_list (wq (kern s) (wait_queue_at m)) \<noteq> [] \<longrightarrow> granted m P (kern s1) = {hd (wq_list (wq (kern s) (wait_queue_at m)))}"
    using mutex_release_inv [OF i released(2) refl released(3)] by (elim exE conjE) (rule that)
  have d: "P \<inter> I = {}" "card (granted m P (kern s) \<union> I) \<le> 1" using i unfolding mutex_inv_def by blast+
  have "finite (granted m P (kern s))" "granted m P (kern s) \<subseteq> P" using w by (auto simp: waiters_ok_def granted_def)
  then have "granted m P (kern s) \<union> I = {this_thread cpu s}" using card_le_1_eq [OF d(2)] r(2) by simp
  then have "granted m P (kern s) = {}" using d(1) r(2) \<open>granted m P (kern s) \<subseteq> P\<close> by blast
  moreover have "t \<in> granted m P (kern s)" if "t \<in> P" "t \<notin> set (wq_list (wq (kern s) (wait_queue_at m)))" for t
    using waiters_off_queue [OF w that] that released.IH by (auto simp: granted_def served_def)
  ultimately have "P \<noteq> {} \<longrightarrow> wq_list (wq (kern s) (wait_queue_at m)) \<noteq> []" by auto
  then show ?case using r released(4) released.IH by (auto simp: served_def)
qed

section \<open>What a mutex promises\<close>

text \<open>
  C3: Mutual exclusion: in every run of the kernel with any interleaving of acquisitions with and
  without timeouts, releases, timer interrupts and operations on other objects, at most one
  thread is between a successful acquisition and its release, and the mutex names it as its
  holder; and no call of \<^verbatim>\<open>mutex_acquire_timeout\<close> by a thread that does not hold the mutex or of
  \<^verbatim>\<open>mutex_release\<close> by its holder panics.
\<close>

theorem mutex_mutual_exclusion:
  assumes "0 < n" and "mreach n m T C W P I s"
  shows "I = set_option (mx_holder (mx s m)) \<and> card I \<le> 1 \<and>
    (\<forall>cpu timeout. blockable C W (kern s) cpu \<and> this_thread cpu s \<notin> I \<and> timeout_ok timeout \<longrightarrow>
       mutex_acquire_timeout cpu m timeout s \<noteq> None) \<and>
    (\<forall>cpu timeout. cpu \<in> C \<and> this_thread cpu s \<in> P \<and> W (this_thread cpu s) = Some timeout \<longrightarrow>
       mutex_acquire_return cpu m timeout s \<noteq> None) \<and>
    (\<forall>cpu. blockable C W (kern s) cpu \<and> this_thread cpu s \<in> I \<longrightarrow> mutex_release cpu m s \<noteq> None)"
proof -
  have i: "mutex_inv C m W P I s" using assms by (rule mreach_inv)
  then have h: "I = set_option (mx_holder (mx s m))" unfolding mutex_inv_def by blast
  have "mutex_acquire_timeout cpu m timeout s \<noteq> None"
    if "blockable C W (kern s) cpu" "this_thread cpu s \<notin> I" "timeout_ok timeout" for cpu timeout
    using mutex_acquire_inv [OF i that(1) refl that(2,3)] by (cases "P \<union> I = {}"; cases "timeout = 0") auto
  moreover have "mutex_acquire_return cpu m timeout s \<noteq> None"
    if "cpu \<in> C" "this_thread cpu s \<in> P" "W (this_thread cpu s) = Some timeout" for cpu timeout
    using mutex_return_inv [OF i that(1) refl that(2,3)] by auto
  moreover have "mutex_release cpu m s \<noteq> None" if "blockable C W (kern s) cpu" "this_thread cpu s \<in> I" for cpu
    using mutex_release_inv [OF i that(1) refl that(2)] by auto
  moreover have "card I \<le> 1" unfolding h by (cases "mx_holder (mx s m)") simp_all
  ultimately show ?thesis using h by blast
qed

text \<open>The two threads of the example: the first one runs, takes the mutex at address 0 and yields.\<close>

definition demo_sync :: "kstate \<Rightarrow> mutex_t \<Rightarrow> sstate" where
  "demo_sync k x = \<lparr>kern = k, ev = \<lambda>_. \<lparr>ev_magic = 0, ev_signaled = False, ev_flags = 0\<rparr>, mx = \<lambda>_. x,
     sem = \<lambda>_. \<lparr>sem_magic = 0, sem_count = 0\<rparr>\<rparr>"

lemma demo_blockable: "blockable {0} no_waits demo2 0"
  by (simp add: blockable_def caller_def demo2_def demo1_def demo_eval)

lemma demo_mutex_init:
  "mreach 1 0 T {0} no_waits {} {} (mutex_init 0 (demo_sync demo2 \<lparr>mx_magic = 0, mx_count = 0, mx_holder = None\<rparr>))"
  using demo_reach(2) by (intro mreach.initialised) (simp_all add: demo_sync_def demo2_def)

lemma demo_mutex_kern: "kern (mutex_init 0 (demo_sync demo2 x)) = demo2"
  by (simp add: mutex_init_def mx_upd_def demo_sync_def wait_queue_init_def wq_upd_def demo2_def)

theorem mutex_mutual_exclusion_witness:
  "\<exists>s. mutex_acquire_timeout 0 0 INFINITE_TIME (mutex_init 0 (demo_sync demo2 \<lparr>mx_magic = 0, mx_count = 0, mx_holder = None\<rparr>)) =
       Some (s, Returned NO_ERROR) \<and> set_option (mx_holder (mx s 0)) = {thread_at 1} \<and> mutex_release 0 0 s \<noteq> None"
proof -
  let ?s = "mutex_init 0 (demo_sync demo2 \<lparr>mx_magic = 0, mx_count = 0, mx_holder = None\<rparr>)"
  have k: "kern ?s = demo2" by (rule demo_mutex_kern)
  have c: "this_thread 0 ?s = thread_at 1" unfolding this_thread_def k by (simp add: demo2_def demo1_def)
  have b: "blockable {0} no_waits (kern ?s) 0" unfolding k by (rule demo_blockable)
  note r = demo_mutex_init [of UNIV] and t = timeout_ok_def [THEN iffD2, of INFINITE_TIME]
  obtain s where s: "mutex_acquire_timeout 0 0 INFINITE_TIME ?s = Some (s, Returned NO_ERROR)" "kern s = kern ?s"
    using mutex_acquire_inv(1) [OF mreach_inv [OF zero_less_one r] b refl, of INFINITE_TIME] t by auto
  have "mreach 1 0 UNIV {0} no_waits {} (enter NO_ERROR (thread_at 1) {}) s"
    using mreach.acquired [OF r b _ UNIV_I _ s(1)] t c by simp
  then have r': "mreach 1 0 UNIV {0} no_waits {} {thread_at 1} s" by (simp add: enter_def)
  have "this_thread 0 s = thread_at 1" "blockable {0} no_waits (kern s) 0" using s(2) c b by (simp_all add: this_thread_def)
  then have "mutex_release 0 0 s \<noteq> None" "{thread_at 1} = set_option (mx_holder (mx s 0))"
    using mutex_mutual_exclusion [OF zero_less_one r'] by auto
  then show ?thesis using s(1) by metis
qed

text \<open>
  C4: No lost wakeup without timeouts: as long as no caller gives a finite positive timeout, whenever a
  thread is inside \<^verbatim>\<open>mutex_acquire_timeout\<close>, some thread holds the mutex or has been handed it and
  is about to return from its own wait.
\<close>

theorem mutex_no_lost_wakeup:
  assumes "0 < n" and "mreach n m {0, INFINITE_TIME} C W P I s" and "t \<in> P"
  shows "mx_holder (mx s m) \<noteq> None \<or>
    (\<exists>u\<in>P. u \<notin> set (wq_list (wq (kern s) (wait_queue_at m))) \<and> wait_queue_block_ret (thr (kern s) u) = NO_ERROR)"
proof -
  have h: "I = set_option (mx_holder (mx s m))" using mreach_inv [OF assms(1,2)] unfolding mutex_inv_def by blast
  have "I \<noteq> {} \<or> granted m P (kern s) \<noteq> {}"
    using mreach_served [OF assms(1,2) order_refl] assms(3) unfolding served_def by blast
  then show ?thesis unfolding h granted_def by auto
qed

section \<open>A wakeup that is lost\<close>

text \<open>
  With timeouts the count of the mutex and the threads on its queue can disagree: a waiter
  that timed out has left the queue but is still counted until it runs again. The run: the
  first thread holds the mutex and yields, the second one waits for it for 10 ms, which pass;
  before the second thread runs again the first one releases the mutex and acquires it once more.
\<close>

definition lost1 :: kstate where
  "lost1 = demo2\<lparr>
     thr := (thr demo2)(
       thread_at 1 := (worker 1 ''a'')\<lparr>t_state := THREAD_READY, t_queued := True\<rparr>,
       thread_at 2 := (worker 2 ''b'')\<lparr>t_state := THREAD_RUNNING, remaining_quantum := 5, curr_cpu := 0\<rparr>),
     run_queue := (\<lambda>_. [])(16 := [thread_at 1]), current := (\<lambda>_. idle_thread 0)(0 := thread_at 2)\<rparr>"

lemma lost1: "exec (Yield 0) (no_waits, demo2) = Some (no_waits, lost1)"
  by (simp add: lost1_def demo2_def demo1_def demo0_def bss_def demo_eval)

abbreviation b_waits :: waiting where "b_waits \<equiv> no_waits(thread_at 2 := Some 10)"

definition lost2 :: kstate where
  "lost2 = lost1\<lparr>
     tmr := (tmr demo2)(stack_timer (thread_at 2) := \<lparr>tm_magic = TIMER_MAGIC, tm_linked = True, scheduled_time = 10,
         periodic_time = 0, tm_callback = Some wait_queue_timeout_handler_cb, tm_arg = Some (thread_at 2)\<rparr>),
     timer_queue := (\<lambda>_. [])(0 := [preempt_timer 0, stack_timer (thread_at 2)]),
     thr := (thr demo2)(
       thread_at 1 := (worker 1 ''a'')\<lparr>t_state := THREAD_RUNNING, remaining_quantum := 5, curr_cpu := 0\<rparr>,
       thread_at 2 := (worker 2 ''b'')\<lparr>t_state := THREAD_BLOCKED, t_queued := True, remaining_quantum := 5,
         blocking_wait_queue := Some (wait_queue_at 0)\<rparr>),
     wq := (wq demo2)(wait_queue_at 0 := \<lparr>wq_magic = WAIT_QUEUE_MAGIC, wq_count = 1, wq_list = [thread_at 2]\<rparr>),
     run_queue := (\<lambda>_. []), run_queue_bitmap := 0, current := (\<lambda>_. idle_thread 0)(0 := thread_at 1)\<rparr>"

lemma lost2: "wait_queue_block 0 (wait_queue_at 0) 10 lost1 = Some (lost2, Switched)"
  by (simp add: lost2_def lost1_def demo2_def demo1_def demo0_def bss_def demo_eval)

definition lost3 :: kstate where
  "lost3 = lost2\<lparr>current_time := 10,
     tmr := (tmr lost2)(
       preempt_timer 0 := \<lparr>tm_magic = TIMER_MAGIC, tm_linked = True, scheduled_time = 20, periodic_time = 10,
         tm_callback = Some thread_timer_tick_cb, tm_arg = None\<rparr>,
       stack_timer (thread_at 2) := \<lparr>tm_magic = TIMER_MAGIC, tm_linked = False, scheduled_time = 10,
         periodic_time = 0, tm_callback = Some wait_queue_timeout_handler_cb, tm_arg = Some (thread_at 2)\<rparr>),
     timer_queue := (\<lambda>_. [])(0 := [preempt_timer 0]), hw_timer := (\<lambda>_. None)(0 := Some 10),
     thr := (thr demo2)(
       thread_at 1 := (worker 1 ''a'')\<lparr>t_state := THREAD_RUNNING, remaining_quantum := 4, curr_cpu := 0\<rparr>,
       thread_at 2 := (worker 2 ''b'')\<lparr>t_state := THREAD_READY, t_queued := True, remaining_quantum := 5,
         wait_queue_block_ret := ERR_TIMED_OUT\<rparr>),
     wq := (wq demo2)(wait_queue_at 0 := \<lparr>wq_magic = WAIT_QUEUE_MAGIC, wq_count = 0, wq_list = []\<rparr>),
     run_queue := (\<lambda>_. [])(16 := [thread_at 2]), run_queue_bitmap := 65536\<rparr>"

lemma lost3: "exec (Tick 0) (b_waits, lost2\<lparr>current_time := 10\<rparr>) = Some (b_waits, lost3)"
proof -
  have f: "Suc (2 * length (timer_queue (lost2\<lparr>current_time := 10\<rparr>) 0)) = Suc (Suc (Suc (Suc (Suc 0))))"
    by (simp add: lost2_def)
  show ?thesis
    unfolding exec.simps f
    by (simp add: lost3_def lost2_def lost1_def demo2_def demo1_def demo0_def bss_def demo_eval timer_tick_def
        kernel_callback_def thread_timer_tick_def wait_queue_timeout_handler_def thread_unblock_from_wait_queue_def requeue_periodic_def
        TIME_LTE_def TIME_GTE_def)
qed

definition lost4 :: kstate where
  "lost4 = lost3\<lparr>
     thr := (thr demo2)(
       thread_at 1 := (worker 1 ''a'')\<lparr>t_state := THREAD_BLOCKED, t_queued := True, remaining_quantum := 4,
         blocking_wait_queue := Some (wait_queue_at 0)\<rparr>,
       thread_at 2 := (worker 2 ''b'')\<lparr>t_state := THREAD_RUNNING, remaining_quantum := 5, curr_cpu := 0,
         wait_queue_block_ret := ERR_TIMED_OUT\<rparr>),
     wq := (wq demo2)(wait_queue_at 0 := \<lparr>wq_magic = WAIT_QUEUE_MAGIC, wq_count = 1, wq_list = [thread_at 1]\<rparr>),
     run_queue := (\<lambda>_. []), run_queue_bitmap := 0, current := (\<lambda>_. idle_thread 0)(0 := thread_at 2)\<rparr>"

lemma lost4: "wait_queue_block 0 (wait_queue_at 0) INFINITE_TIME lost3 = Some (lost4, Switched)"
  by (simp add: lost4_def lost3_def lost2_def lost1_def demo2_def demo1_def demo0_def bss_def demo_eval)

definition demo_at :: "kstate \<Rightarrow> int \<Rightarrow> thread_id option \<Rightarrow> sstate" where
  "demo_at k c h = (demo_sync k \<lparr>mx_magic = 0, mx_count = 0, mx_holder = None\<rparr>)
     \<lparr>mx := (\<lambda>_. \<lparr>mx_magic = 0, mx_count = 0, mx_holder = None\<rparr>)(0 := \<lparr>mx_magic = MUTEX_MAGIC, mx_count = c, mx_holder = h\<rparr>)\<rparr>"

lemma demo_at_simps [simp]:
  "kern (demo_at k c h) = k" "mx (demo_at k c h) 0 = \<lparr>mx_magic = MUTEX_MAGIC, mx_count = c, mx_holder = h\<rparr>"
  "(demo_at k c h)\<lparr>kern := k'\<rparr> = demo_at k' c h"
  "mx_upd 0 (\<lambda>x. x\<lparr>mx_count := d x\<rparr>) (demo_at k c h) = demo_at k (d \<lparr>mx_magic = MUTEX_MAGIC, mx_count = c, mx_holder = h\<rparr>) h"
  "mx_upd 0 (\<lambda>x. x\<lparr>mx_holder := h'\<rparr>) (demo_at k c h) = demo_at k c h'"
  "mx_upd 0 (\<lambda>x. x\<lparr>mx_holder := h', mx_count := d x\<rparr>) (demo_at k c h) = demo_at k (d \<lparr>mx_magic = MUTEX_MAGIC, mx_count = c, mx_holder = h\<rparr>) h'"
  by (simp_all add: demo_at_def demo_sync_def mx_upd_def)

lemma lost_currents:
  "current demo2 0 = thread_at 1" "current lost1 0 = thread_at 2" "current lost2 0 = thread_at 1"
  "current lost3 0 = thread_at 1" "current lost4 0 = thread_at 2"
  by (simp_all add: lost4_def lost3_def lost2_def lost1_def demo2_def demo1_def)

lemma lost_blockable:
  "blockable {0} no_waits lost1 0" "blockable {0} b_waits lost3 0"
  unfolding blockable_def caller_def lost_currents
  by (simp_all add: lost3_def lost1_def demo_eval)

lemma demo_at_init: "mutex_init 0 (demo_sync demo2 \<lparr>mx_magic = 0, mx_count = 0, mx_holder = None\<rparr>) = demo_at demo2 0 None"
  using demo_mutex_kern [of "\<lparr>mx_magic = 0, mx_count = 0, mx_holder = None\<rparr>"]
  by (simp add: mutex_init_def demo_at_def demo_sync_def mx_upd_def)

lemma lost_calls:
  "mutex_acquire_timeout 0 0 INFINITE_TIME (demo_at demo2 0 None) = Some (demo_at demo2 1 (Some (thread_at 1)), Returned NO_ERROR)"
  "mutex_acquire_timeout 0 0 10 (demo_at lost1 1 (Some (thread_at 1))) = Some (demo_at lost2 2 (Some (thread_at 1)), Switched)"
  "mutex_release 0 0 (demo_at lost3 2 (Some (thread_at 1))) = Some (demo_at lost3 1 None, NO_ERROR)"
  "mutex_acquire_timeout 0 0 INFINITE_TIME (demo_at lost3 1 None) = Some (demo_at lost4 2 None, Switched)"
proof -
  show "mutex_acquire_timeout 0 0 INFINITE_TIME (demo_at demo2 0 None) = Some (demo_at demo2 1 (Some (thread_at 1)), Returned NO_ERROR)"
    by (simp add: mutex_acquire_timeout_def mutex_acquired_def this_thread_def lost_currents Let_def)
  show "mutex_acquire_timeout 0 0 10 (demo_at lost1 1 (Some (thread_at 1))) = Some (demo_at lost2 2 (Some (thread_at 1)), Switched)"
    by (simp add: mutex_acquire_timeout_def this_thread_def lost_currents lost2 Let_def)
  have "wait_queue_wake_one 0 (wait_queue_at 0) True NO_ERROR lost3 = Some (lost3, 0)"
    by (simp add: wait_queue_wake_one_def lost3_def)
  then show "mutex_release 0 0 (demo_at lost3 2 (Some (thread_at 1))) = Some (demo_at lost3 1 None, NO_ERROR)"
    by (simp add: mutex_release_def this_thread_def lost_currents Let_def)
  show "mutex_acquire_timeout 0 0 INFINITE_TIME (demo_at lost3 1 None) = Some (demo_at lost4 2 None, Switched)"
    by (simp add: mutex_acquire_timeout_def this_thread_def lost_currents lost4 Let_def)
qed

lemma demo_held:
  assumes "INFINITE_TIME \<in> T"
  shows "mreach 1 0 T {0} no_waits {} {thread_at 1} (demo_at lost1 1 (Some (thread_at 1)))"
proof -
  have r0: "mreach 1 0 T {0} no_waits {} {} (demo_at demo2 0 None)" using demo_mutex_init [of T] unfolding demo_at_init .
  have r1: "mreach 1 0 T {0} no_waits {} {thread_at 1} (demo_at demo2 1 (Some (thread_at 1)))"
    using mreach.acquired [OF r0 _ _ assms _ lost_calls(1)] demo_blockable
    by (simp add: this_thread_def lost_currents enter_def timeout_ok_def)
  show ?thesis
    using mreach.kernel [OF r1, of "Yield 0" no_waits lost1 "demo_at lost1 1 (Some (thread_at 1))"] lost1
    by (simp add: caller_def)
qed

theorem mutex_no_lost_wakeup_witness:
  "\<exists>s. mutex_acquire_timeout 0 0 INFINITE_TIME (demo_at lost1 1 (Some (thread_at 1))) = Some (s, Switched) \<and>
     (mx_holder (mx s 0) \<noteq> None \<or>
      (\<exists>u\<in>{thread_at 2}. u \<notin> set (wq_list (wq (kern s) (wait_queue_at 0))) \<and> wait_queue_block_ret (thr (kern s) u) = NO_ERROR))"
proof -
  let ?s = "demo_at lost1 1 (Some (thread_at 1))"
  have r: "mreach 1 0 {0, INFINITE_TIME} {0} no_waits {} {thread_at 1} ?s" by (rule demo_held) simp
  have t: "this_thread 0 ?s = thread_at 2" by (simp add: this_thread_def lost_currents)
  have b: "blockable {0} no_waits (kern ?s) 0" "this_thread 0 ?s \<notin> {thread_at 1}" "timeout_ok INFINITE_TIME"
    using lost_blockable(1) unfolding t by (simp_all add: timeout_ok_def)
  have nz: "INFINITE_TIME \<noteq> 0" "{} \<union> {thread_at 1} \<noteq> {}" by (simp_all add: INFINITE_TIME_def)
  obtain s where s: "mutex_acquire_timeout 0 0 INFINITE_TIME ?s = Some (s, Switched)"
    using mutex_acquire_inv(3) [OF mreach_inv [OF zero_less_one r] b(1) refl b(2,3) nz(2,1)] by blast
  have "mreach 1 0 {0, INFINITE_TIME} {0} (no_waits(thread_at 2 := Some INFINITE_TIME)) {thread_at 2} {thread_at 1} s"
    using mreach.waits [OF r b(1,2) _ b(3) s] unfolding t by simp
  from mutex_no_lost_wakeup [OF zero_less_one this singletonI] s show ?thesis by blast
qed

text \<open>
  C5: With timeouts a wakeup can be lost: the kernel reaches a state in which a thread waits for the
  mutex without a timeout although nobody holds the mutex, nobody has been handed it and
  nobody else is inside an acquisition, so that no release will ever wake it.
\<close>

theorem mutex_lost_wakeup:
  "\<exists>W s. mreach 1 0 UNIV {0} W {thread_at 1} {} s \<and> W (thread_at 1) = Some INFINITE_TIME \<and>
     wq_list (wq (kern s) (wait_queue_at 0)) = [thread_at 1] \<and> mx_holder (mx s 0) = None \<and> mx_count (mx s 0) = 1"
proof -
  have inf: "timeout_ok INFINITE_TIME" "timeout_ok 10" by (simp_all add: timeout_ok_def)
  note r2 = demo_held [of UNIV, OF UNIV_I]
  have r3: "mreach 1 0 UNIV {0} b_waits {thread_at 2} {thread_at 1} (demo_at lost2 2 (Some (thread_at 1)))"
    using mreach.waits [OF r2 _ _ UNIV_I inf(2) lost_calls(2)] lost_blockable(1)
    by (simp add: this_thread_def lost_currents)
  have r4: "mreach 1 0 UNIV {0} b_waits {thread_at 2} {thread_at 1} (demo_at (lost2\<lparr>current_time := 10\<rparr>) 2 (Some (thread_at 1)))"
    using mreach.kernel [OF r3, of "Advance 10" b_waits "lost2\<lparr>current_time := 10\<rparr>"
        "demo_at (lost2\<lparr>current_time := 10\<rparr>) 2 (Some (thread_at 1))"]
    by (simp add: lost2_def lost1_def demo2_def demo1_def demo0_def bss_def in_window_def off_def)
  have r5: "mreach 1 0 UNIV {0} b_waits {thread_at 2} {thread_at 1} (demo_at lost3 2 (Some (thread_at 1)))"
    using mreach.kernel [OF r4, of "Tick 0" b_waits lost3 "demo_at lost3 2 (Some (thread_at 1))"] lost3 by simp
  have r6: "mreach 1 0 UNIV {0} b_waits {thread_at 2} {} (demo_at lost3 1 None)"
    using mreach.released [OF r5 _ _ lost_calls(3)] lost_blockable(2) by (simp add: this_thread_def lost_currents)
  let ?W = "b_waits(thread_at 1 := Some INFINITE_TIME)" and ?s = "demo_at lost4 2 None"
  have r7: "mreach 1 0 UNIV {0} ?W {thread_at 1, thread_at 2} {} ?s"
    using mreach.waits [OF r6 _ _ UNIV_I inf(1) lost_calls(4)] lost_blockable(2)
    by (simp add: this_thread_def lost_currents)
  have t: "this_thread 0 ?s = thread_at 2" by (simp add: this_thread_def lost_currents)
  have W: "?W (thread_at 2) = Some 10" by simp
  have ret: "wait_queue_block_ret (thr lost4 (thread_at 2)) = ERR_TIMED_OUT" by (simp add: lost4_def)
  have P: "thread_at 2 \<in> {thread_at 1, thread_at 2}" by simp
  obtain s' r where "mutex_acquire_return 0 0 10 ?s = Some (s', r)" "r = wait_queue_block_ret (thr (kern ?s) (thread_at 2))"
    using mutex_return_inv [OF mreach_inv [OF zero_less_one r7] singletonI t [symmetric] P W] by (elim exE conjE) (rule that)
  then have s': "mutex_acquire_return 0 0 10 ?s = Some (s', ERR_TIMED_OUT)" using ret by simp
  obtain k' r1 where k1: "wait_queue_block_return 0 10 lost4 = Some (k', r1)" "mutex_acquired 0 0 r1 (demo_at k' 2 None) = (s', ERR_TIMED_OUT)"
    using s' by (cases "wait_queue_block_return 0 10 lost4") (auto simp: mutex_acquire_return_def)
  have k': "s' = demo_at k' 1 None" "wq k' = wq lost4"
    using k1(2) wait_queue_block_return_touches [OF k1(1)] by (auto simp: mutex_acquired_def touches_none_iff split: if_splits)
  have "mreach 1 0 UNIV {0} (?W(thread_at 2 := None)) ({thread_at 1, thread_at 2} - {thread_at 2}) (enter ERR_TIMED_OUT (thread_at 2) {}) s'"
    using mreach.resumes [OF r7 singletonI, of 10 s' ERR_TIMED_OUT] t W s' by simp
  moreover have "{thread_at 1, thread_at 2} - {thread_at 2} = {thread_at 1}" by auto
  ultimately have "mreach 1 0 UNIV {0} (?W(thread_at 2 := None)) {thread_at 1} {} s'" by (simp add: enter_def)
  moreover have "wq_list (wq (kern s') (wait_queue_at 0)) = [thread_at 1]" using k' by (simp add: lost4_def)
  ultimately show ?thesis using k'(1) by (intro exI [of _ "?W(thread_at 2 := None)"] exI [of _ s']) simp
qed

end
