(* ===== verification/Cbuf.thy ===== *)
theory Cbuf
  imports Sync Pow2
begin

text \<open>
  The circular byte buffers of \<^verbatim>\<open>lib/cbuf/cbuf.c\<close>: the ring with its 32-bit head and tail
  indices, the copying loops, and the event that readers wait on. The state of a call is the
  ring and the kernel's \<open>sstate\<close>. \<open>None\<close> is a failed assertion, a copy outside the buffer
  or a call that never returns.
\<close>

section \<open>The ring\<close>

type_synonym byte = u8

record cbuf_t =
  cb_head :: u32
  cb_tail :: u32
  len_pow2 :: nat
  cb_buf :: "byte list"
  cb_event :: addr

text \<open>\<^verbatim>\<open>memcpy(dst + ofs, src, n)\<close> and its source \<^verbatim>\<open>src + ofs\<close>; a copy outside the object is an error.\<close>

definition memcpy_to :: "nat \<Rightarrow> byte list \<Rightarrow> byte list \<Rightarrow> byte list option" where
  "memcpy_to ofs src dst =
     (if ofs + length src \<le> length dst then Some (take ofs dst @ src @ drop (ofs + length src) dst) else None)"

definition memcpy_from :: "nat \<Rightarrow> nat \<Rightarrow> byte list \<Rightarrow> byte list option" where
  "memcpy_from ofs n src = (if ofs + n \<le> length src then Some (take n (drop ofs src)) else None)"

definition INC_POINTER :: "cbuf_t \<Rightarrow> u32 \<Rightarrow> u32 \<Rightarrow> u32" where
  "INC_POINTER cbuf ptr inc = modpow2 (ptr + inc) (len_pow2 cbuf)"

definition cbuf_initialize_etc :: "addr \<Rightarrow> nat \<Rightarrow> byte list option \<Rightarrow> sstate \<Rightarrow> (cbuf_t \<times> sstate) option" where
  "cbuf_initialize_etc event len buf s = do {
     b \<leftarrow> buf;
     DEBUG_ASSERT (len > 0);
     DEBUG_ASSERT (ispow2 (of_nat len));
     Some (\<lparr>cb_head = 0, cb_tail = 0, len_pow2 = log2_uint (of_nat len), cb_buf = b, cb_event = event\<rparr>,
           event_init event False 0 s)
   }"

text \<open>\<open>malloc\<close> is the allocator: the memory it returns for a size, if any.\<close>

definition cbuf_initialize :: "(nat \<Rightarrow> byte list option) \<Rightarrow> addr \<Rightarrow> nat \<Rightarrow> sstate \<Rightarrow> (cbuf_t \<times> sstate) option" where
  "cbuf_initialize malloc event len s = cbuf_initialize_etc event len (malloc len) s"

definition cbuf_space_avail :: "cbuf_t \<Rightarrow> u32" where
  "cbuf_space_avail cbuf =
     (let consumed = modpow2 (cb_head cbuf - cb_tail cbuf) (len_pow2 cbuf)
      in valpow2 (len_pow2 cbuf) - consumed - 1)"


definition cbuf_space_used :: "cbuf_t \<Rightarrow> u32" where
  "cbuf_space_used cbuf = modpow2 (cb_head cbuf - cb_tail cbuf) (len_pow2 cbuf)"


section \<open>Writing\<close>

definition cbuf_write_len :: "cbuf_t \<Rightarrow> nat \<Rightarrow> nat" where
  "cbuf_write_len cbuf left =
     (if cb_head cbuf \<ge> cb_tail cbuf then
        if cb_tail cbuf = 0 then min (unat (valpow2 (len_pow2 cbuf) - cb_head cbuf - 1)) left
        else min (unat (valpow2 (len_pow2 cbuf) - cb_head cbuf)) left
      else min (unat (cb_tail cbuf - cb_head cbuf - 1)) left)"

function cbuf_write_loop :: "byte list option \<Rightarrow> nat \<Rightarrow> nat \<Rightarrow> cbuf_t \<Rightarrow> (cbuf_t \<times> nat) option" where
  "cbuf_write_loop buf len pos cbuf =
     (if pos < len \<and> cbuf_space_avail cbuf > 0 then
        let write_len = cbuf_write_len cbuf (len - pos)
        in if write_len = 0 then Some (cbuf, pos)
           else do {
             src \<leftarrow> (case buf of None \<Rightarrow> Some (replicate write_len 0) | Some b \<Rightarrow> memcpy_from pos write_len b);
             b \<leftarrow> memcpy_to (unat (cb_head cbuf)) src (cb_buf cbuf);
             cbuf_write_loop buf len (pos + write_len)
               (cbuf\<lparr>cb_buf := b, cb_head := INC_POINTER cbuf (cb_head cbuf) (of_nat write_len)\<rparr>)
           }
      else Some (cbuf, pos))"
  by pat_completeness auto
termination
  by (relation "measure (\<lambda>(buf, len, pos, cbuf). len - pos)") auto

declare cbuf_write_loop.simps [simp del]

text \<open>A writer signals the event under the lock and reschedules after it.\<close>

definition preempt_if :: "nat \<Rightarrow> bool \<Rightarrow> sstate \<Rightarrow> sstate option" where
  "preempt_if cpu b s = (if b then map_option (\<lambda>k. s\<lparr>kern := k\<rparr>) (thread_preempt cpu (kern s)) else Some s)"

definition cbuf_write ::
  "nat \<Rightarrow> byte list option \<Rightarrow> nat \<Rightarrow> bool \<Rightarrow> cbuf_t \<times> sstate \<Rightarrow> ((cbuf_t \<times> sstate) \<times> nat) option" where
  "cbuf_write cpu buf len canreschedule = (\<lambda>(cbuf, s). do {
     DEBUG_ASSERT (len < unat (valpow2 (len_pow2 cbuf)));
     (cbuf, pos) \<leftarrow> cbuf_write_loop buf len 0 cbuf;
     (s, woken) \<leftarrow> (if cb_head cbuf \<noteq> cb_tail cbuf then event_signal cpu (cb_event cbuf) False s else Some (s, 0));
     s \<leftarrow> preempt_if cpu (canreschedule \<and> woken > 0) s;
     Some ((cbuf, s), pos)
   })"


definition cbuf_write_char_return :: "nat \<Rightarrow> cbuf_t \<times> sstate \<Rightarrow> ((cbuf_t \<times> sstate) \<times> nat) option" where
  "cbuf_write_char_return cpu = (\<lambda>(cbuf, s). do {
     s \<leftarrow> preempt_if cpu True s;
     Some ((cbuf, s), 1)
   })"

section \<open>Reading\<close>

definition cbuf_read_len :: "cbuf_t \<Rightarrow> nat \<Rightarrow> nat" where
  "cbuf_read_len cbuf left =
     (if cb_head cbuf > cb_tail cbuf then min (unat (cb_head cbuf - cb_tail cbuf)) left
      else min (unat (valpow2 (len_pow2 cbuf) - cb_tail cbuf)) left)"

text \<open>
  The copying loop, with the bytes copied so far. Its passes move the tail by at least one
  byte as long as the ring is well formed; \<open>None\<close> would be a loop that does not move.
\<close>

partial_function (option) cbuf_read_loop :: "bool \<Rightarrow> nat \<Rightarrow> nat \<Rightarrow> byte list \<Rightarrow> cbuf_t \<Rightarrow> (cbuf_t \<times> nat \<times> byte list) option" where
  "cbuf_read_loop have_buf buflen pos acc cbuf =
     (if pos < buflen \<and> cb_tail cbuf \<noteq> cb_head cbuf then do {
        let read_len = cbuf_read_len cbuf (buflen - pos);
        bs \<leftarrow> (if have_buf then memcpy_from (unat (cb_tail cbuf)) read_len (cb_buf cbuf) else Some []);
        cbuf_read_loop have_buf buflen (pos + read_len) (acc @ bs)
          (cbuf\<lparr>cb_tail := INC_POINTER cbuf (cb_tail cbuf) (of_nat read_len)\<rparr>)
      }
      else Some (cbuf, pos, acc))"

definition cbuf_read_locked ::
  "bool \<Rightarrow> nat \<Rightarrow> cbuf_t \<times> sstate \<Rightarrow> ((cbuf_t \<times> sstate) \<times> nat \<times> byte list) option" where
  "cbuf_read_locked have_buf buflen = (\<lambda>(cbuf, s).
     if cb_tail cbuf \<noteq> cb_head cbuf then do {
       (cbuf, pos, bs) \<leftarrow> cbuf_read_loop have_buf buflen 0 [] cbuf;
       if cb_tail cbuf = cb_head cbuf then do {
         DEBUG_ASSERT (pos > 0);
         (s, _) \<leftarrow> event_unsignal (cb_event cbuf) s;
         Some ((cbuf, s), pos, bs)
       }
       else Some ((cbuf, s), pos, bs)
     }
     else Some ((cbuf, s), 0, []))"

text \<open>
  \<^verbatim>\<open>cbuf_read\<close>: a blocking reader waits for the event first and starts again when it finds
  no data. \<open>cbuf_read_return\<close> is a reader that was switched back to inside \<^verbatim>\<open>event_wait\<close>.
\<close>

partial_function (option) cbuf_read ::
  "nat \<Rightarrow> bool \<Rightarrow> nat \<Rightarrow> bool \<Rightarrow> cbuf_t \<times> sstate \<Rightarrow> ((cbuf_t \<times> sstate) \<times> (nat \<times> byte list) outcome) option" where
  "cbuf_read cpu have_buf buflen block st =
     Option.bind (if block then map_option (\<lambda>(s, r). ((fst st, s), r)) (event_wait cpu (cb_event (fst st)) (snd st))
                  else Some (st, Returned NO_ERROR))
       (\<lambda>(st, r). case r of
          Switched \<Rightarrow> Some (st, Switched)
        | Returned _ \<Rightarrow>
            Option.bind (cbuf_read_locked have_buf buflen st)
              (\<lambda>(st, ret, bs). if block \<and> ret = 0 then cbuf_read cpu have_buf buflen block st
                               else Some (st, Returned (ret, bs))))"

definition cbuf_read_return ::
  "nat \<Rightarrow> bool \<Rightarrow> nat \<Rightarrow> cbuf_t \<times> sstate \<Rightarrow> ((cbuf_t \<times> sstate) \<times> (nat \<times> byte list) outcome) option" where
  "cbuf_read_return cpu have_buf buflen = (\<lambda>(cbuf, s). do {
     (s, _) \<leftarrow> event_wait_return cpu INFINITE_TIME s;
     (st, ret, bs) \<leftarrow> cbuf_read_locked have_buf buflen (cbuf, s);
     if ret = 0 then cbuf_read cpu have_buf buflen True st else Some (st, Returned (ret, bs))
   })"





section \<open>What the ring holds\<close>

definition cbuf_ok :: "cbuf_t \<Rightarrow> bool" where
  "cbuf_ok c \<longleftrightarrow> len_pow2 c < 32 \<and> length (cb_buf c) = 2 ^ len_pow2 c \<and>
     unat (cb_head c) < 2 ^ len_pow2 c \<and> unat (cb_tail c) < 2 ^ len_pow2 c"

definition used :: "cbuf_t \<Rightarrow> nat" where
  "used c = (unat (cb_head c) + 2 ^ len_pow2 c - unat (cb_tail c)) mod 2 ^ len_pow2 c"

definition contents :: "cbuf_t \<Rightarrow> byte list" where
  "contents c = map (\<lambda>i. cb_buf c ! ((unat (cb_tail c) + i) mod 2 ^ len_pow2 c)) [0..<used c]"

lemma length_contents [simp]: "length (contents c) = used c"
  by (simp add: contents_def)

lemma p2_dvd: "p < 32 \<Longrightarrow> (2::nat) ^ p dvd 2 ^ 32"
  by (rule le_imp_power_dvd) simp

lemma unat_sub_mod:
  fixes a b :: u32
  assumes "p < 32" and "unat b < 2 ^ p"
  shows "unat (a - b) mod 2 ^ p = (unat a + 2 ^ p - unat b) mod 2 ^ p"
proof -
  have "unat (a - b) = (2 ^ 32 + unat a - unat b) mod 2 ^ 32"
  proof (cases "b \<le> a")
    case True
    then have "unat b \<le> unat a" by (simp add: word_le_nat_alt)
    moreover have "unat a < 2 ^ 32" using unsigned_less [of a] by simp
    ultimately have "2 ^ 32 + unat a - unat b = (unat a - unat b) + 2 ^ 32" "unat a - unat b < 2 ^ 32" by simp_all
    then show ?thesis using True by (simp only: unat_sub mod_add_self2 mod_less)
  next
    case False
    then have "unat a < unat b" by (simp add: word_le_nat_alt)
    moreover have "unat b < 2 ^ 32" using unsigned_less [of b] by simp
    ultimately show ?thesis using False by (simp add: unat_sub_if')
  qed
  then have "unat (a - b) mod 2 ^ p = (2 ^ 32 + unat a - unat b) mod 2 ^ p"
    using p2_dvd [OF assms(1)] by (simp add: mod_mod_cancel)
  also have "\<dots> = (unat a + 2 ^ p - unat b) mod 2 ^ p"
  proof -
    obtain d where d: "(2::nat) ^ 32 = 2 ^ p * d" using p2_dvd [OF assms(1)] by (rule dvdE)
    then have "d \<noteq> 0" by (cases d) auto
    then obtain e where "d = Suc e" by (cases d) auto
    then have "2 ^ 32 = 2 ^ p + e * 2 ^ p" using d by (simp add: algebra_simps)
    then have "2 ^ 32 + unat a - unat b = (unat a + 2 ^ p - unat b) + e * 2 ^ p" using assms(2) by linarith
    then show ?thesis by simp
  qed
  finally show ?thesis .
qed

lemma unat_space_used: "cbuf_ok c \<Longrightarrow> unat (cbuf_space_used c) = used c"
  by (simp add: cbuf_ok_def cbuf_space_used_def used_def unat_modpow2 unat_sub_mod)

lemma used_less: "used c < 2 ^ len_pow2 c"
  by (simp add: used_def)

lemma unat_space_avail: "cbuf_ok c \<Longrightarrow> unat (cbuf_space_avail c) = 2 ^ len_pow2 c - used c - 1"
proof -
  assume c: "cbuf_ok c"
  let ?v = "valpow2 (len_pow2 c)" and ?u = "cbuf_space_used c"
  have v: "unat ?v = 2 ^ len_pow2 c" using c by (simp add: cbuf_ok_def unat_valpow2)
  have u: "unat ?u = used c" using c by (rule unat_space_used)
  have "?u \<le> ?v" using used_less [of c] by (simp add: word_le_nat_alt u v)
  then have s: "unat (?v - ?u) = 2 ^ len_pow2 c - used c" by (simp add: unat_sub u v)
  then have "1 \<le> ?v - ?u" using used_less [of c] by (simp add: word_le_nat_alt)
  then have "unat (?v - ?u - 1) = 2 ^ len_pow2 c - used c - 1" by (simp add: unat_sub s)
  then show ?thesis by (simp add: cbuf_space_avail_def cbuf_space_used_def Let_def)
qed

lemma unat_INC_POINTER:
  assumes "cbuf_ok c" and "unat ptr + k \<le> 2 ^ len_pow2 c"
  shows "unat (INC_POINTER c ptr (of_nat k)) = (unat ptr + k) mod 2 ^ len_pow2 c"
proof -
  have p: "len_pow2 c < 32" using assms(1) by (simp add: cbuf_ok_def)
  then have b: "(2::nat) ^ len_pow2 c \<le> 2 ^ 31" by (intro power_increasing) auto
  then have "unat (of_nat k :: u32) = k" using assms(2) by (simp add: unat_of_nat take_bit_nat_eq_self)
  moreover have "unat ptr + k < 2 ^ 32" using assms(2) b by simp
  ultimately have "unat (ptr + of_nat k) = unat ptr + k" by (simp add: unat_word_ariths)
  then show ?thesis by (simp add: INC_POINTER_def unat_modpow2)
qed

text \<open>The head is \<open>used\<close> places after the tail, and distinct offsets are distinct places.\<close>

lemma head_tail: "cbuf_ok c \<Longrightarrow> (unat (cb_tail c) + used c) mod 2 ^ len_pow2 c = unat (cb_head c)"
  by (auto simp: cbuf_ok_def used_def mod_simps)

lemma offset_inj:
  assumes "(t + i) mod n = (t + j) mod n" and "i < n" and "j < (n::nat)"
  shows "i = j"
proof -
  have "i mod n = j mod n" using assms(1) by (simp add: mod_add_cong nat_mod_eq_iff)
  then show ?thesis using assms(2,3) by simp
qed

lemma used_mod:
  assumes "h = (t + u) mod n" and "t < n" and "u < (n::nat)"
  shows "(h + n - t) mod n = u"
proof -
  have "(h + n - t) mod n = ((t + u) mod n + (n - t)) mod n" using assms(1,2) by simp
  also have "\<dots> = (t + u + (n - t)) mod n" by (rule mod_add_left_eq)
  also have "\<dots> = u" using assms(2,3) by simp
  finally show ?thesis .
qed

lemma nth_splice:
  assumes "h + length src \<le> length b" and "x < length b"
  shows "(take h b @ src @ drop (h + length src) b) ! x =
    (if x < h then b ! x else if x < h + length src then src ! (x - h) else b ! x)"
proof -
  consider "x < h" | "h \<le> x" "x < h + length src" | "h + length src \<le> x" by linarith
  then show ?thesis
  proof cases
    case 3
    then have "\<not> x - h < length src" "x - h - length src = x - (h + length src)" by simp_all
    then show ?thesis using 3 assms by (simp add: nth_append)
  qed (use assms in \<open>auto simp: nth_append\<close>)
qed

text \<open>One pass of the writing loop: a block of bytes is appended.\<close>

lemma write_pass:
  assumes c: "cbuf_ok c" and n: "n = 2 ^ len_pow2 c" and h: "h = unat (cb_head c)"
    and fit: "h + length src \<le> n" and room: "used c + length src < n"
  obtains b where "memcpy_to h src (cb_buf c) = Some b"
    "\<And>c'. c' = c\<lparr>cb_buf := b, cb_head := INC_POINTER c (cb_head c) (of_nat (length src))\<rparr> \<Longrightarrow>
       cbuf_ok c' \<and> used c' = used c + length src \<and> contents c' = contents c @ src"
proof
  let ?b = "take h (cb_buf c) @ src @ drop (h + length src) (cb_buf c)"
  have lb: "length (cb_buf c) = n" and t: "unat (cb_tail c) < n" and hn: "h < n" and p: "len_pow2 c < 32"
    using c n h by (simp_all add: cbuf_ok_def)
  show "memcpy_to h src (cb_buf c) = Some ?b" using fit lb by (simp add: memcpy_to_def)
  fix c' assume c': "c' = c\<lparr>cb_buf := ?b, cb_head := INC_POINTER c (cb_head c) (of_nat (length src))\<rparr>"
  have h': "unat (cb_head c') = (h + length src) mod n" "cb_tail c' = cb_tail c" "len_pow2 c' = len_pow2 c" "cb_buf c' = ?b"
    using unat_INC_POINTER [OF c, of "cb_head c" "length src"] fit by (simp_all add: c' h n)
  have hu: "(unat (cb_tail c) + used c) mod n = h" using head_tail [OF c] by (simp add: n h)
  have ok: "cbuf_ok c'" using h' p lb fit hn t n by (simp add: cbuf_ok_def)
  have "unat (cb_head c') = (unat (cb_tail c) + (used c + length src)) mod n"
    unfolding h'(1) hu [symmetric] by (simp add: mod_simps add.assoc)
  then have u: "used c' = used c + length src"
    using used_mod [of "unat (cb_head c')" "unat (cb_tail c)" "used c + length src" n] t room
    by (simp add: used_def h'(2,3) n)
  have "contents c' = contents c @ src"
  proof (rule nth_equalityI)
    show "length (contents c') = length (contents c @ src)" by (simp add: u)
    fix i assume "i < length (contents c')"
    then have i: "i < used c + length src" by (simp add: u)
    let ?x = "(unat (cb_tail c) + i) mod n"
    have xn: "?x < n" using t by simp
    have l: "contents c' ! i = ?b ! ?x" using i u h' by (simp add: contents_def n)
    show "contents c' ! i = (contents c @ src) ! i"
    proof (cases "i < used c")
      case True
      have "\<not> (h \<le> ?x \<and> ?x < h + length src)"
      proof
        assume a: "h \<le> ?x \<and> ?x < h + length src"
        define j where "j = ?x - h"
        have j: "?x = h + j" "j < length src" using a unfolding j_def by linarith+
        have "(unat (cb_tail c) + (used c + j)) mod n = (h + j) mod n"
          unfolding hu [symmetric] by (simp add: mod_simps add.assoc)
        also have "\<dots> = ?x" using j(1) xn by simp
        finally have "(unat (cb_tail c) + (used c + j)) mod n = (unat (cb_tail c) + i) mod n" .
        then have "used c + j = i" by (rule offset_inj) (use j(2) room True in linarith)+
        then show False using True by simp
      qed
      then have "?b ! ?x = cb_buf c ! ?x"
        using lb xn fit by (auto simp: nth_splice)
      then show ?thesis using l True by (simp add: nth_append contents_def n)
    next
      case False
      define j where "j = i - used c"
      have j: "i = used c + j" "j < length src" using False i by (simp_all add: j_def)
      have "?x = (h + j) mod n" unfolding hu [symmetric] j(1) by (simp add: mod_simps add.assoc)
      then have "?x = h + j" using j(2) fit by simp
      then have "?b ! ?x = src ! j" using lb fit xn j(2) by (simp add: nth_splice)
      then show ?thesis using l False j by (simp add: nth_append)
    qed
  qed
  with ok u show "cbuf_ok c' \<and> used c' = used c + length src \<and> contents c' = contents c @ src" by blast
qed

text \<open>One pass of the reading loop: a block of bytes is taken off.\<close>

lemma read_pass:
  assumes c: "cbuf_ok c" and n: "n = 2 ^ len_pow2 c" and t: "t = unat (cb_tail c)"
    and fit: "t + k \<le> n" and k: "k \<le> used c"
    and c': "c' = c\<lparr>cb_tail := INC_POINTER c (cb_tail c) (of_nat k)\<rparr>"
  shows "memcpy_from t k (cb_buf c) = Some (take k (contents c))" "cbuf_ok c'" "used c' = used c - k"
    "contents c' = drop k (contents c)"
proof -
  have lb: "length (cb_buf c) = n" and tn: "t < n" and hn: "unat (cb_head c) < n" and p: "len_pow2 c < 32"
    using c n t by (simp_all add: cbuf_ok_def)
  have un: "used c < n" using used_less [of c] n by simp
  have t': "unat (cb_tail c') = (t + k) mod n" "cb_head c' = cb_head c" "len_pow2 c' = len_pow2 c" "cb_buf c' = cb_buf c"
    using unat_INC_POINTER [OF c, of "cb_tail c" k] fit by (simp_all add: c' t n)
  have hu: "(t + used c) mod n = unat (cb_head c)" using head_tail [OF c] by (simp add: n t)
  show "cbuf_ok c'" using t' p lb hn tn n by (simp add: cbuf_ok_def)
  have "((t + k) mod n + (used c - k)) mod n = (t + k + (used c - k)) mod n" by (rule mod_add_left_eq)
  then have "unat (cb_head c) = ((t + k) mod n + (used c - k)) mod n" using k hu by simp
  then have "(unat (cb_head c) + n - (t + k) mod n) mod n = used c - k" by (rule used_mod) (use un tn in simp_all)
  then show u: "used c' = used c - k" by (simp only: used_def [of c'] t' n)
  show "contents c' = drop k (contents c)"
  proof (rule nth_equalityI)
    fix i assume "i < length (contents c')"
    then have i: "k + i < used c" "i < used c - k" by (simp_all add: u)
    have "((t + k) mod n + i) mod n = (t + (k + i)) mod n" by (simp add: mod_simps add.assoc)
    then show "contents c' ! i = drop k (contents c) ! i" using i u by (simp add: contents_def t' t n)
  qed (simp add: u)
  have "take k (drop t (cb_buf c)) = take k (contents c)"
  proof (rule nth_equalityI)
    fix i assume "i < length (take k (drop t (cb_buf c)))"
    then have i: "i < k" by simp
    then have "t + i < n" using fit by linarith
    with i show "take k (drop t (cb_buf c)) ! i = take k (contents c) ! i"
      using k lb by (simp add: contents_def t n)
  qed (use fit k lb in simp)
  then show "memcpy_from t k (cb_buf c) = Some (take k (contents c))" using fit lb by (simp add: memcpy_from_def)
qed

section \<open>The copying loops\<close>

lemma unat_minus: "b \<le> a \<Longrightarrow> unat (a - b) = unat a - unat (b :: u32)"
  by (rule unat_sub)

lemma write_len:
  assumes c: "cbuf_ok c" and n: "n = 2 ^ len_pow2 c" and a: "0 < cbuf_space_avail c" and l: "0 < left"
    and k: "k = cbuf_write_len c left"
  shows "0 < k" "k \<le> left" "unat (cb_head c) + k \<le> n" "used c + k < n"
proof -
  let ?h = "unat (cb_head c)" and ?t = "unat (cb_tail c)" and ?v = "valpow2 (len_pow2 c)"
  have b: "?h < n" "?t < n" and v: "unat ?v = n" using c n by (simp_all add: cbuf_ok_def unat_valpow2)
  have av: "0 < n - used c - 1" using a unat_space_avail [OF c] by (simp add: n word_less_nat_alt)
  have u: "used c = (if ?t \<le> ?h then ?h - ?t else ?h + n - ?t)"
  proof (cases "?t \<le> ?h")
    case True
    then have "(?h + n - ?t) mod n = ((?h - ?t) + n) mod n" by simp
    also have "\<dots> = ?h - ?t" using b by simp
    finally show ?thesis using True by (simp add: used_def n)
  next
    case False
    then show ?thesis using b by (simp add: used_def n)
  qed
  have s1: "unat (?v - cb_head c) = n - ?h" using b v by (simp add: unat_minus word_le_nat_alt)
  have s2: "unat (?v - cb_head c - 1) = n - ?h - 1"
    using b v s1 by (subst unat_minus) (simp_all add: word_le_nat_alt)
  have s3: "unat (cb_tail c - cb_head c - 1) = ?t - ?h - 1" if "?h < ?t"
  proof -
    have d: "unat (cb_tail c - cb_head c) = ?t - ?h" using that by (simp add: unat_minus word_le_nat_alt)
    then show ?thesis using that by (subst unat_minus) (simp_all add: word_le_nat_alt)
  qed
  have k': "k = min (if ?t \<le> ?h then if ?t = 0 then n - ?h - 1 else n - ?h else ?t - ?h - 1) left"
    using s1 s2 s3 unfolding k cbuf_write_len_def by (simp add: word_le_nat_alt unat_eq_0 not_le)
  show "0 < k" "k \<le> left" "?h + k \<le> n" "used c + k < n"
    unfolding k' u using u av b l by (auto simp: min_def split: if_splits)
qed

lemma min_split: "k \<le> a \<Longrightarrow> k \<le> b \<Longrightarrow> k + min (a - k) (b - k) = min a (b::nat)"
  by linarith

definition src_bytes :: "byte list option \<Rightarrow> nat \<Rightarrow> byte list" where
  "src_bytes buf len = (case buf of None \<Rightarrow> replicate len 0 | Some b \<Rightarrow> take len b)"

lemma cbuf_write_loop_ok:
  assumes "cbuf_ok c" and "pos \<le> len" and "case buf of None \<Rightarrow> True | Some b \<Rightarrow> len \<le> length b"
  shows "\<exists>c' m. cbuf_write_loop buf len pos c = Some (c', pos + m) \<and> m = min (len - pos) (2 ^ len_pow2 c - 1 - used c) \<and>
    cbuf_ok c' \<and> contents c' = contents c @ take m (drop pos (src_bytes buf len)) \<and>
    len_pow2 c' = len_pow2 c \<and> cb_event c' = cb_event c"
  using assms
proof (induction buf len pos c rule: cbuf_write_loop.induct)
  case (1 buf len pos c)
  let ?n = "2 ^ len_pow2 c"
  have av: "cbuf_space_avail c > 0 \<longleftrightarrow> 0 < ?n - used c - 1"
    using unat_space_avail [OF 1(2)] by (simp add: word_less_nat_alt)
  show ?case
  proof (cases "pos < len \<and> cbuf_space_avail c > 0")
    case False
    then have "min (len - pos) (?n - 1 - used c) = 0" using av 1(3) by auto
    then show ?thesis using False 1(2) by (subst cbuf_write_loop.simps) auto
  next
    case True
    define k where "k = cbuf_write_len c (len - pos)"
    have k: "0 < k" "k \<le> len - pos" "unat (cb_head c) + k \<le> ?n" "used c + k < ?n"
      using write_len [OF 1(2) refl _ _ k_def] True by simp_all
    define src where "src = take k (drop pos (src_bytes buf len))"
    have ls: "length src = k" using k(2) 1(4) by (auto simp: src_def src_bytes_def split: option.splits)
    have s: "(case buf of None \<Rightarrow> Some (replicate k 0) | Some b \<Rightarrow> memcpy_from pos k b) = Some src"
      using k 1(4) by (auto simp: src_def src_bytes_def memcpy_from_def min_def drop_take split: option.splits)
    obtain b where b: "memcpy_to (unat (cb_head c)) src (cb_buf c) = Some b"
      "\<And>c'. c' = c\<lparr>cb_buf := b, cb_head := INC_POINTER c (cb_head c) (of_nat (length src))\<rparr> \<Longrightarrow>
         cbuf_ok c' \<and> used c' = used c + length src \<and> contents c' = contents c @ src"
      using write_pass [OF 1(2) refl refl, of src] k ls by auto
    define c1 where "c1 = c\<lparr>cb_buf := b, cb_head := INC_POINTER c (cb_head c) (of_nat k)\<rparr>"
    have c1: "cbuf_ok c1" "used c1 = used c + k" "contents c1 = contents c @ src" "len_pow2 c1 = len_pow2 c"
      "cb_event c1 = cb_event c"
      using b(2) [of c1] by (simp_all add: c1_def ls)
    have step: "cbuf_write_loop buf len pos c = cbuf_write_loop buf len (pos + k) c1"
      using True s b(1) k(1) by (subst cbuf_write_loop.simps) (simp add: k_def [symmetric] c1_def Let_def)
    have pk: "pos + k \<le> len" using k(2) True by linarith
    obtain c' m where ih: "cbuf_write_loop buf len (pos + k) c1 = Some (c', pos + k + m)"
      "m = min (len - (pos + k)) (?n - 1 - (used c + k))" "cbuf_ok c'"
      "contents c' = contents c1 @ take m (drop (pos + k) (src_bytes buf len))"
      "len_pow2 c' = len_pow2 c1" "cb_event c' = cb_event c1"
      using 1(1) [OF True k_def _ s b(1)] k c1 1(4) pk unfolding c1_def [symmetric] by (auto simp: c1)
    have km: "k + m = min (len - pos) (?n - 1 - used c)"
      using min_split [of k "len - pos" "?n - 1 - used c"] ih(2) k(2,4) by simp
    have sm: "src @ take m (drop (pos + k) (src_bytes buf len)) = take (k + m) (drop pos (src_bytes buf len))"
      by (simp add: src_def take_add add.commute)
    have "cbuf_write_loop buf len pos c = Some (c', pos + (k + m))" by (simp only: step ih(1) add.assoc)
    moreover have "contents c' = contents c @ take (k + m) (drop pos (src_bytes buf len))"
      by (simp only: ih(4) c1(3) sm [symmetric] append_assoc)
    ultimately show ?thesis using km ih(3,5,6) c1(4,5) by metis
  qed
qed

lemma read_len:
  assumes c: "cbuf_ok c" and n: "n = 2 ^ len_pow2 c" and e: "cb_tail c \<noteq> cb_head c" and l: "0 < left"
    and k: "k = cbuf_read_len c left"
  shows "0 < k" "k \<le> left" "unat (cb_tail c) + k \<le> n" "k \<le> used c"
proof -
  let ?h = "unat (cb_head c)" and ?t = "unat (cb_tail c)" and ?v = "valpow2 (len_pow2 c)"
  have b: "?h < n" "?t < n" "?t \<noteq> ?h" and v: "unat ?v = n" using c n e by (simp_all add: cbuf_ok_def unat_valpow2 word_unat_eq_iff)
  have u: "used c = (if ?t < ?h then ?h - ?t else ?h + n - ?t)"
  proof (cases "?t < ?h")
    case True
    then have "(?h + n - ?t) mod n = ((?h - ?t) + n) mod n" by simp
    also have "\<dots> = ?h - ?t" using b by simp
    finally show ?thesis using True by (simp add: used_def n)
  next
    case False
    then show ?thesis using b by (simp add: used_def n)
  qed
  have s1: "unat (?v - cb_tail c) = n - ?t" using b v by (simp add: unat_minus word_le_nat_alt)
  have s2: "?t < ?h \<Longrightarrow> unat (cb_head c - cb_tail c) = ?h - ?t" by (simp add: unat_minus word_le_nat_alt)
  have k': "k = min (if ?t < ?h then ?h - ?t else n - ?t) left"
    using s1 s2 unfolding k cbuf_read_len_def by (simp add: word_less_nat_alt)
  show "0 < k" "k \<le> left" "?t + k \<le> n" "k \<le> used c"
    unfolding k' u using b l by (auto simp: min_def split: if_splits)
qed

lemma used_0: "cbuf_ok c \<Longrightarrow> used c = 0 \<longleftrightarrow> cb_tail c = cb_head c"
proof -
  assume c: "cbuf_ok c"
  have "cb_tail c = cb_head c" if "used c = 0"
    using head_tail [OF c] that c by (simp add: cbuf_ok_def word_unat_eq_iff)
  moreover have "used c = 0" if "cb_tail c = cb_head c" using that by (simp add: used_def)
  ultimately show ?thesis by blast
qed

lemma cbuf_read_loop_ok:
  assumes "cbuf_ok c" and "pos \<le> buflen"
  shows "\<exists>c' m. cbuf_read_loop have_buf buflen pos acc c =
      Some (c', pos + m, acc @ (if have_buf then take m (contents c) else [])) \<and>
    m = min (buflen - pos) (used c) \<and> cbuf_ok c' \<and> contents c' = drop m (contents c) \<and>
    len_pow2 c' = len_pow2 c \<and> cb_event c' = cb_event c \<and> cb_head c' = cb_head c"
  using assms
proof (induction "buflen - pos" arbitrary: pos acc c rule: less_induct)
  case less
  show ?case
  proof (cases "pos < buflen \<and> cb_tail c \<noteq> cb_head c")
    case False
    then have "min (buflen - pos) (used c) = 0" using used_0 [OF less(2)] by auto
    then show ?thesis using False less(2) by (subst cbuf_read_loop.simps) auto
  next
    case True
    define k where "k = cbuf_read_len c (buflen - pos)"
    have k: "0 < k" "k \<le> buflen - pos" "unat (cb_tail c) + k \<le> 2 ^ len_pow2 c" "k \<le> used c"
      using read_len [OF less(2) refl _ _ k_def] True by simp_all
    define c1 where "c1 = c\<lparr>cb_tail := INC_POINTER c (cb_tail c) (of_nat k)\<rparr>"
    note r = read_pass [OF less(2) refl refl k(3,4) c1_def]
    have f: "len_pow2 c1 = len_pow2 c" "cb_event c1 = cb_event c" "cb_head c1 = cb_head c" by (simp_all add: c1_def)
    have step: "cbuf_read_loop have_buf buflen pos acc c =
        cbuf_read_loop have_buf buflen (pos + k) (acc @ (if have_buf then take k (contents c) else [])) c1"
      using True r(1) by (subst cbuf_read_loop.simps) (simp add: k_def [symmetric] c1_def Let_def)
    have lt: "buflen - (pos + k) < buflen - pos" "pos + k \<le> buflen" using k(1,2) True by linarith+
    obtain c' m where ih: "cbuf_read_loop have_buf buflen (pos + k) (acc @ (if have_buf then take k (contents c) else [])) c1 =
        Some (c', pos + k + m, (acc @ (if have_buf then take k (contents c) else [])) @ (if have_buf then take m (contents c1) else []))"
      "m = min (buflen - (pos + k)) (used c1)" "cbuf_ok c'" "contents c' = drop m (contents c1)"
      "len_pow2 c' = len_pow2 c1" "cb_event c' = cb_event c1" "cb_head c' = cb_head c1"
      using less(1) [OF lt(1) r(2) lt(2)] by blast
    have km: "k + m = min (buflen - pos) (used c)" using min_split [OF k(2,4)] ih(2) r(3) by simp
    have "take k (contents c) @ take m (contents c1) = take (k + m) (contents c)" by (simp add: r(4) take_add)
    then have "cbuf_read_loop have_buf buflen pos acc c =
        Some (c', pos + (k + m), acc @ (if have_buf then take (k + m) (contents c) else []))"
      using step ih(1) by (cases have_buf) (simp_all add: add.assoc)
    moreover have "contents c' = drop (k + m) (contents c)" by (simp add: ih(4) r(4) add.commute)
    ultimately show ?thesis using km ih(3,5-7) f by metis
  qed
qed

section \<open>The operations\<close>

text \<open>
  The ring's event is set up for it: not auto-clearing, signalled exactly while the ring
  holds data, and its wait queue usable in a consistent kernel.
\<close>

definition cbuf_inv :: "nat set \<Rightarrow> waiting \<Rightarrow> cbuf_t \<times> sstate \<Rightarrow> bool" where
  "cbuf_inv C W = (\<lambda>(c, s). cbuf_ok c \<and> kinv C W (kern s) \<and>
     ev_magic (ev s (cb_event c)) = EVENT_MAGIC \<and> \<not> bit (ev_flags (ev s (cb_event c))) EVENT_FLAG_AUTOUNSIGNAL \<and>
     wq_magic (wq (kern s) (wait_queue_at (cb_event c))) = WAIT_QUEUE_MAGIC \<and>
     (ev_signaled (ev s (cb_event c)) \<longleftrightarrow> contents c \<noteq> []))"

lemma event_signal_ok:
  assumes k: "kinv C W (kern s)" and m: "ev_magic (ev s e) = EVENT_MAGIC" "\<not> bit (ev_flags (ev s e)) EVENT_FLAG_AUTOUNSIGNAL"
    and q: "wq_magic (wq (kern s) (wait_queue_at e)) = WAIT_QUEUE_MAGIC"
  shows "\<exists>s' n. event_signal cpu e False s = Some (s', n) \<and> kinv C W (kern s') \<and> 0 \<le> n \<and>
    ev s' = (ev s)(e := (ev s e)\<lparr>ev_signaled := True\<rparr>) \<and> mx s' = mx s \<and> sem s' = sem s \<and>
    wq_magic (wq (kern s') (wait_queue_at e)) = WAIT_QUEUE_MAGIC \<and> current (kern s') = current (kern s)"
proof (cases "ev_signaled (ev s e)")
  case True
  then have "(ev s)(e := (ev s e)\<lparr>ev_signaled := True\<rparr>) = ev s" by (cases "ev s e") (simp add: fun_upd_idem)
  then show ?thesis using True k m q by (simp add: event_signal_def)
next
  case False
  obtain k' where k': "wait_queue_wake_all cpu (wait_queue_at e) False NO_ERROR (kern s) =
        Some (k', int (length (wq_list (wq (kern s) (wait_queue_at e)))))" "kinv C W k'" "current k' = current (kern s)"
      "wq_magic (wq k' (wait_queue_at e)) = WAIT_QUEUE_MAGIC"
    using wait_queue_wake_all_ok [OF k q, of cpu NO_ERROR] by blast
  then show ?thesis using False m by (simp add: event_signal_def ev_upd_def Let_def)
qed

lemma preempt_if_ok:
  assumes "kinv C W (kern s)" and "cpu \<in> C" and "wq_magic (wq (kern s) w) = WAIT_QUEUE_MAGIC"
  shows "\<exists>s'. preempt_if cpu b s = Some s' \<and> kinv C W (kern s') \<and> ev s' = ev s \<and> mx s' = mx s \<and> sem s' = sem s \<and>
    wq_magic (wq (kern s') w) = WAIT_QUEUE_MAGIC"
proof (cases b)
  case True
  obtain k' where "thread_preempt cpu (kern s) = Some k'" "kinv C W k'" using thread_preempt_ok [OF assms(1,2)] by blast
  then show ?thesis using True assms(3) thread_preempt_touches by (auto simp: preempt_if_def touches_none_iff)
qed (use assms in \<open>simp add: preempt_if_def\<close>)

lemma contents_Nil: "cbuf_ok c \<Longrightarrow> contents c = [] \<longleftrightarrow> cb_tail c = cb_head c"
  using used_0 [of c] by (simp flip: length_0_conv)

text \<open>Writing a block, as an operation on the bytes held.\<close>

lemma cbuf_write_ok:
  assumes i: "cbuf_inv C W (c, s)" and cpu: "cpu \<in> C" and len: "len < 2 ^ len_pow2 c"
    and b: "case buf of None \<Rightarrow> True | Some b \<Rightarrow> len \<le> length b"
    and m: "m = min len (2 ^ len_pow2 c - 1 - length (contents c))"
  shows "\<exists>c' s'. cbuf_write cpu buf len resched (c, s) = Some ((c', s'), m) \<and> cbuf_inv C W (c', s') \<and>
    contents c' = contents c @ take m (src_bytes buf len) \<and> len_pow2 c' = len_pow2 c"
proof -
  have c: "cbuf_ok c" and k: "kinv C W (kern s)" and e: "ev_magic (ev s (cb_event c)) = EVENT_MAGIC"
      "\<not> bit (ev_flags (ev s (cb_event c))) EVENT_FLAG_AUTOUNSIGNAL"
      "wq_magic (wq (kern s) (wait_queue_at (cb_event c))) = WAIT_QUEUE_MAGIC"
      "ev_signaled (ev s (cb_event c)) \<longleftrightarrow> contents c \<noteq> []"
    using i by (simp_all add: cbuf_inv_def)
  obtain c' where w: "cbuf_write_loop buf len 0 c = Some (c', m)" "cbuf_ok c'"
      "contents c' = contents c @ take m (src_bytes buf len)" "len_pow2 c' = len_pow2 c" "cb_event c' = cb_event c"
    using cbuf_write_loop_ok [OF c _ b, of 0] m by auto
  have a: "len < unat (valpow2 (len_pow2 c))" using len c by (simp add: unat_valpow2 cbuf_ok_def)
  show ?thesis
  proof (cases "contents c' = []")
    case True
    then have "cb_head c' = cb_tail c'" using contents_Nil [OF w(2)] by simp
    moreover have "contents c = []" using True w(3) by simp
    ultimately show ?thesis
      using w a c k e True by (simp add: cbuf_write_def cbuf_inv_def preempt_if_def)
  next
    case False
    then have ne: "cb_head c' \<noteq> cb_tail c'" using contents_Nil [OF w(2)] by auto
    obtain s1 n where s1: "event_signal cpu (cb_event c) False s = Some (s1, n)" "kinv C W (kern s1)" "0 \<le> n"
        "ev s1 = (ev s)(cb_event c := (ev s (cb_event c))\<lparr>ev_signaled := True\<rparr>)"
        "wq_magic (wq (kern s1) (wait_queue_at (cb_event c))) = WAIT_QUEUE_MAGIC"
      using event_signal_ok [OF k e(1-3), of cpu] by blast
    obtain s2 where s2: "preempt_if cpu (resched \<and> 0 < n) s1 = Some s2" "kinv C W (kern s2)" "ev s2 = ev s1"
        "wq_magic (wq (kern s2) (wait_queue_at (cb_event c))) = WAIT_QUEUE_MAGIC"
      using preempt_if_ok [OF s1(2) cpu s1(5)] by blast
    have "cbuf_write cpu buf len resched (c, s) = Some ((c', s2), m)"
      using a w ne s1(1) s2(1) by (simp add: cbuf_write_def)
    moreover have "cbuf_inv C W (c', s2)" using w s1 s2 e False by (simp add: cbuf_inv_def)
    ultimately show ?thesis using w by blast
  qed
qed

text \<open>Reading a block without waiting, and the locked part of every read.\<close>

lemma cbuf_read_locked_ok:
  assumes i: "cbuf_inv C W (c, s)" and m: "m = min buflen (length (contents c))"
  shows "contents c = [] \<or> 0 < buflen \<Longrightarrow>
    \<exists>c' s'. cbuf_read_locked have_buf buflen (c, s) = Some ((c', s'), m, if have_buf then take m (contents c) else []) \<and>
      cbuf_inv C W (c', s') \<and> contents c' = drop m (contents c) \<and> len_pow2 c' = len_pow2 c \<and> kern s' = kern s"
    and "contents c \<noteq> [] \<Longrightarrow> buflen = 0 \<Longrightarrow> cbuf_read_locked have_buf buflen (c, s) = Some ((c, s), 0, [])"
proof -
  have c: "cbuf_ok c" and k: "kinv C W (kern s)" and e: "ev_magic (ev s (cb_event c)) = EVENT_MAGIC"
      "\<not> bit (ev_flags (ev s (cb_event c))) EVENT_FLAG_AUTOUNSIGNAL"
      "wq_magic (wq (kern s) (wait_queue_at (cb_event c))) = WAIT_QUEUE_MAGIC"
      "ev_signaled (ev s (cb_event c)) \<longleftrightarrow> contents c \<noteq> []"
    using i by (simp_all add: cbuf_inv_def)
  obtain c' where r: "cbuf_read_loop have_buf buflen 0 [] c = Some (c', m, if have_buf then take m (contents c) else [])"
      "cbuf_ok c'" "contents c' = drop m (contents c)" "len_pow2 c' = len_pow2 c" "cb_event c' = cb_event c"
    using cbuf_read_loop_ok [OF c, of 0 buflen have_buf "[]"] m by auto
  show "cbuf_read_locked have_buf buflen (c, s) = Some ((c, s), 0, [])" if "contents c \<noteq> []" "buflen = 0"
    using that contents_Nil [OF c] by (subst cbuf_read_locked_def) (auto simp: cbuf_read_loop.simps)
  assume a: "contents c = [] \<or> 0 < buflen"
  show "\<exists>c' s'. cbuf_read_locked have_buf buflen (c, s) = Some ((c', s'), m, if have_buf then take m (contents c) else []) \<and>
      cbuf_inv C W (c', s') \<and> contents c' = drop m (contents c) \<and> len_pow2 c' = len_pow2 c \<and> kern s' = kern s"
  proof (cases "contents c = []")
    case True
    then have "cbuf_read_locked have_buf buflen (c, s) = Some ((c, s), 0, [])"
      using contents_Nil [OF c] by (simp add: cbuf_read_locked_def)
    then show ?thesis using True i m by auto
  next
    case False
    then have ne: "cb_tail c \<noteq> cb_head c" "0 < m" using contents_Nil [OF c] used_0 [OF c] a m by auto
    show ?thesis
    proof (cases "contents c' = []")
      case True
      then have "cb_tail c' = cb_head c'" using contents_Nil [OF r(2)] by simp
      moreover have "event_unsignal (cb_event c) s = Some (ev_upd (cb_event c) (\<lambda>x. x\<lparr>ev_signaled := False\<rparr>) s, NO_ERROR)"
        using e(1) by (simp add: event_unsignal_def)
      ultimately show ?thesis
        using r ne True e k by (simp add: cbuf_read_locked_def cbuf_inv_def ev_upd_def)
    next
      case ne': False
      then have "cb_tail c' \<noteq> cb_head c'" using contents_Nil [OF r(2)] by simp
      then show ?thesis using r ne ne' False e k by (simp add: cbuf_read_locked_def cbuf_inv_def)
    qed
  qed
qed

lemma cbuf_read_now:
  assumes i: "cbuf_inv C W (c, s)" and a: "contents c = [] \<or> 0 < buflen" and m: "m = min buflen (length (contents c))"
  shows "\<exists>c' s'. cbuf_read cpu have_buf buflen False (c, s) =
      Some ((c', s'), Returned (m, if have_buf then take m (contents c) else [])) \<and>
    cbuf_inv C W (c', s') \<and> contents c' = drop m (contents c) \<and> len_pow2 c' = len_pow2 c"
  using cbuf_read_locked_ok(1) [OF i m a, of have_buf] by (subst cbuf_read.simps) auto








section \<open>A ring is a bounded queue\<close>






definition holds :: "nat set \<Rightarrow> waiting \<Rightarrow> nat \<Rightarrow> cbuf_t \<times> sstate \<Rightarrow> byte list \<Rightarrow> bool" where
  "holds C W cap st q \<longleftrightarrow> cbuf_inv C W st \<and> cap = 2 ^ len_pow2 (fst st) - 1 \<and> contents (fst st) = q"

lemma cbuf_read_any:
  assumes i: "cbuf_inv C W (c, s)"
  shows "\<exists>c' s'. cbuf_read cpu have_buf n False (c, s) =
      Some ((c', s'), Returned (min n (length (contents c)), if have_buf then take n (contents c) else [])) \<and>
    cbuf_inv C W (c', s') \<and> contents c' = drop n (contents c) \<and> len_pow2 c' = len_pow2 c"
proof (cases "contents c = [] \<or> 0 < n")
  case True
  have "take (min n (length (contents c))) (contents c) = take n (contents c)"
    "drop (min n (length (contents c))) (contents c) = drop n (contents c)" by (simp_all add: min_def)
  then show ?thesis using cbuf_read_now [OF i True refl, of cpu have_buf] by auto
next
  case False
  then have "cbuf_read_locked have_buf n (c, s) = Some ((c, s), 0, [])" using cbuf_read_locked_ok(2) [OF i refl] by simp
  then show ?thesis using False i by (subst cbuf_read.simps) auto
qed



lemma cbuf_initialize_holds:
  assumes k: "kinv C W (kern s)" and w: "wq_list (wq (kern s) (wait_queue_at e)) = []"
    and p: "p < 32" "length b = 2 ^ p"
  shows "\<exists>st. cbuf_initialize_etc e (2 ^ p) (Some b) s = Some st \<and> holds C W (2 ^ p - 1) st []"
proof -
  have n: "(of_nat (2 ^ p) :: u32) = shl1 p" using p(1) by (simp add: shl1_def push_bit_eq_mult)
  have i: "ispow2 (of_nat (2 ^ p))" unfolding n by (rule ispow2_shl1)
  have l: "log2_uint (of_nat (2 ^ p)) = p"
    unfolding n by (rule log2_uint_top) (use p(1) in \<open>auto simp: bit_shl1\<close>)
  have "kinv C W (wait_queue_init (wait_queue_at e) (kern s))" using kinv_wait_queue_init [OF k] w by simp
  then show ?thesis
    using i l p by (auto simp: cbuf_initialize_etc_def holds_def cbuf_inv_def cbuf_ok_def event_init_def ev_upd_def
      wait_queue_init_def wq_upd_def contents_def used_def)
qed

text \<open>A four-byte ring set up on a kernel that has just booted, for the examples.\<close>

definition demo_objects :: sstate where
  "demo_objects = \<lparr>kern = the (boot 1), ev = \<lambda>_. \<lparr>ev_magic = 0, ev_signaled = False, ev_flags = 0\<rparr>,
     mx = \<lambda>_. \<lparr>mx_magic = 0, mx_count = 0, mx_holder = None\<rparr>, sem = \<lambda>_. \<lparr>sem_magic = 0, sem_count = 0\<rparr>\<rparr>"

lemma demo_objects_reach:
  "kreach 1 {0} (\<lambda>_. None) (kern demo_objects)" "wq_list (wq (kern demo_objects) (wait_queue_at 5)) = []"
proof -
  have b: "map_option (\<lambda>k. wq_list (wq k (wait_queue_at 5))) (boot 1) = Some []" by code_simp
  then show "wq_list (wq (kern demo_objects) (wait_queue_at 5)) = []" by (auto simp: demo_objects_def)
  from b have "boot 1 = Some (the (boot 1))" by auto
  then show "kreach 1 {0} (\<lambda>_. None) (kern demo_objects)" using kreach.booted by (simp add: demo_objects_def)
qed

lemma demo_ring:
  "\<exists>st. cbuf_initialize_etc 5 4 (Some [9, 9, 9, 9]) demo_objects = Some st \<and> holds {0} (\<lambda>_. None) 3 st []"
  using cbuf_initialize_holds [OF kreach_kinv [OF _ demo_objects_reach(1)] demo_objects_reach(2), of 2 "[9, 9, 9, 9]"]
  by simp



text \<open>
  C16: Bytes that fit into the ring come out as they went in: a write of a block that fits, followed
  by reads that take all data in two pieces of any size, returns the bytes that were waiting and
  then exactly the bytes written, and leaves the ring empty.
\<close>

theorem cbuf_write_read_roundtrip:
  assumes "cbuf_inv C W (c, s)" and "cpu \<in> C" and "length (contents c) + length bs < 2 ^ len_pow2 c"
    and "m \<le> length (contents c @ bs)"
  shows "\<exists>st1 st2 st3. cbuf_write cpu (Some bs) (length bs) resched (c, s) = Some (st1, length bs) \<and>
    cbuf_read cpu True m False st1 = Some (st2, Returned (m, take m (contents c @ bs))) \<and>
    cbuf_read cpu True (length (contents c @ bs) - m) False st2 =
      Some (st3, Returned (length (contents c @ bs) - m, drop m (contents c @ bs))) \<and>
    contents (fst st3) = []"
proof -
  let ?q = "contents c @ bs"
  have b: "length bs < 2 ^ len_pow2 c" "length bs = min (length bs) (2 ^ len_pow2 c - 1 - length (contents c))"
    using assms(3) by auto
  obtain c1 s1 where w: "cbuf_write cpu (Some bs) (length bs) resched (c, s) = Some ((c1, s1), length bs)"
      "cbuf_inv C W (c1, s1)" "contents c1 = ?q"
    using cbuf_write_ok [OF assms(1,2) b(1) _ b(2), of "Some bs" resched] by (auto simp: src_bytes_def)
  obtain c2 s2 where r: "cbuf_read cpu True m False (c1, s1) = Some ((c2, s2), Returned (m, take m ?q))"
      "cbuf_inv C W (c2, s2)" "contents c2 = drop m ?q"
    using cbuf_read_any [OF w(2), of cpu True m] assms(4) unfolding w(3) by auto
  obtain c3 s3 where "cbuf_read cpu True (length ?q - m) False (c2, s2) =
      Some ((c3, s3), Returned (length ?q - m, drop m ?q))" "contents c3 = []"
    using cbuf_read_any [OF r(2), of cpu True "length ?q - m"] unfolding r(3) by auto
  then show ?thesis using w(1) r(1) by (metis fst_conv)
qed

theorem cbuf_write_read_roundtrip_witness:
  "\<exists>st st1 st2 st3. cbuf_initialize_etc 5 4 (Some [9, 9, 9, 9]) demo_objects = Some st \<and>
     cbuf_write 0 (Some [1, 2, 3]) 3 True st = Some (st1, 3) \<and>
     cbuf_read 0 True 2 False st1 = Some (st2, Returned (2, [1, 2])) \<and>
     cbuf_read 0 True 1 False st2 = Some (st3, Returned (1, [3]))"
proof -
  obtain c s where st: "cbuf_initialize_etc 5 4 (Some [9, 9, 9, 9]) demo_objects = Some (c, s)"
      "holds {0} (\<lambda>_. None) 3 (c, s) []"
    using demo_ring by auto
  then have i: "cbuf_inv {0} (\<lambda>_. None) (c, s)" "contents c = []" by (simp_all add: holds_def)
  have "2 ^ len_pow2 c = (4::nat)" using st(2) by (auto simp: holds_def)
  then have l: "length (contents c) + length [1, 2, 3 :: byte] < 2 ^ len_pow2 c" "2 \<le> length (contents c @ [1, 2, 3])"
    using i(2) by simp_all
  show ?thesis
    using cbuf_write_read_roundtrip [OF i(1) singletonI l, of True] st(1) unfolding i(2)
    by (simp add: eval_nat_numeral) blast
qed



end
