(* ===== verification/Align.thy ===== *)
theory Align
  imports Prelude
begin

text \<open>
  The rounding macros of \<^verbatim>\<open>lib/libc/include/stdlib.h\<close> on machine words, what they compute
  for powers of two, and when \<^verbatim>\<open>ROUNDUP\<close> wraps around.
\<close>

definition ROUNDUP :: "'a::len word \<Rightarrow> 'a word \<Rightarrow> 'a word" where
  "ROUNDUP a b = (a + (b - 1)) AND NOT (b - 1)"

definition ROUNDDOWN :: "'a::len word \<Rightarrow> 'a word \<Rightarrow> 'a word" where
  "ROUNDDOWN a b = a AND NOT (b - 1)"

definition ALIGN :: "'a::len word \<Rightarrow> 'a word \<Rightarrow> 'a word" where
  "ALIGN a b = ROUNDUP a b"

definition IS_ALIGNED :: "'a::len word \<Rightarrow> 'a word \<Rightarrow> bool" where
  "IS_ALIGNED a b \<longleftrightarrow> a AND (b - 1) = 0"

lemma unat_and_not_mask: "unat (w AND NOT (mask n) :: 'a::len word) = unat w div 2 ^ n * 2 ^ n"
proof -
  have "w AND NOT (mask n) = push_bit n (drop_bit n w)"
    by (rule bit_eqI) (auto simp: bit_and_iff bit_not_iff bit_mask_iff bit_push_bit_iff bit_drop_bit_eq dest: bit_imp_le_length)
  moreover have "unat (push_bit n (drop_bit n w)) = unat w div 2 ^ n * 2 ^ n"
  proof -
    have "unat w div 2 ^ n * 2 ^ n \<le> unat w" by simp
    then have "unat w div 2 ^ n * 2 ^ n < 2 ^ LENGTH('a)" using unsigned_less [of w] by (rule le_less_trans)
    moreover have "unat (push_bit n (drop_bit n w)) = take_bit LENGTH('a) (push_bit n (unat (drop_bit n w)))"
      by (rule unsigned_push_bit_eq)
    ultimately show ?thesis by (simp add: take_bit_eq_mod push_bit_nat_def unat_drop_bit)
  qed
  ultimately show ?thesis by simp
qed

lemma unat_ROUNDDOWN: "unat (ROUNDDOWN a (shl1 p)) = unat a div 2 ^ p * 2 ^ p"
  by (simp add: ROUNDDOWN_def shl1_minus_one unat_and_not_mask)

lemma IS_ALIGNED_iff: "IS_ALIGNED a (shl1 p) \<longleftrightarrow> 2 ^ p dvd unat a"
proof -
  have "IS_ALIGNED a (shl1 p) \<longleftrightarrow> unat (a AND mask p) = 0"
    by (simp add: IS_ALIGNED_def shl1_minus_one unsigned_eq_0_iff)
  then show ?thesis by (simp add: unat_and_mask dvd_eq_mod_eq_0)
qed

text \<open>\<^verbatim>\<open>ROUNDUP\<close>: the least multiple that is not below, or less than the argument when that does not fit.\<close>

lemma unat_mask: "p < LENGTH('a) \<Longrightarrow> unat (mask p :: 'a::len word) = 2 ^ p - 1"
proof -
  assume p: "p < LENGTH('a)"
  have "(1::'a word) \<le> shl1 p" using unat_shl1 [OF p] by (simp add: word_le_nat_alt)
  then have "unat ((shl1 p :: 'a word) - 1) = unat (shl1 p :: 'a word) - unat (1 :: 'a word)" by (rule unat_sub)
  then show ?thesis by (simp only: shl1_minus_one unat_shl1 [OF p] unsigned_1)
qed

lemma unat_ROUNDUP:
  fixes a :: "'a::len word"
  assumes p: "p < LENGTH('a)" and no: "unat a + (2 ^ p - 1) < 2 ^ LENGTH('a)"
  shows "unat (ROUNDUP a (shl1 p)) = (unat a + (2 ^ p - 1)) div 2 ^ p * 2 ^ p"
  using no by (simp add: ROUNDUP_def shl1_minus_one unat_and_not_mask unat_word_ariths unat_mask [OF p])

lemma ROUNDUP_bounds:
  fixes a :: "'a::len word"
  assumes p: "p < LENGTH('a)" and no: "unat a + (2 ^ p - 1) < 2 ^ LENGTH('a)"
  shows "unat a \<le> unat (ROUNDUP a (shl1 p))" "unat (ROUNDUP a (shl1 p)) < unat a + 2 ^ p"
    "2 ^ p dvd unat (ROUNDUP a (shl1 p))" "2 ^ p dvd unat a \<Longrightarrow> ROUNDUP a (shl1 p) = a"
proof -
  define x where "x = unat a + (2 ^ p - 1)"
  have e: "unat (ROUNDUP a (shl1 p)) = x div 2 ^ p * 2 ^ p" using unat_ROUNDUP [OF assms] by (simp only: x_def)
  have m: "x div 2 ^ p * 2 ^ p + x mod 2 ^ p = x" "x mod 2 ^ p < 2 ^ p" by (rule div_mult_mod_eq) simp
  have z: "(0::nat) < 2 ^ p" by simp
  show "unat a \<le> unat (ROUNDUP a (shl1 p))" using m z x_def unfolding e by linarith
  show "unat (ROUNDUP a (shl1 p)) < unat a + 2 ^ p" using m z x_def unfolding e by linarith
  show "2 ^ p dvd unat (ROUNDUP a (shl1 p))" unfolding e by simp
  assume "2 ^ p dvd unat a"
  then obtain q where q: "unat a = 2 ^ p * q" by (rule dvdE)
  have "2 ^ p * q \<le> 2 ^ p * q + (2 ^ p - 1)" "2 ^ p * q + (2 ^ p - 1) < 2 ^ p * Suc q"
    using z unfolding mult_Suc_right by linarith+
  then have "x div 2 ^ p = q" unfolding x_def q by (rule div_nat_eqI)
  then have "unat (ROUNDUP a (shl1 p)) = unat a" unfolding e using q by simp
  then show "ROUNDUP a (shl1 p) = a" by (simp add: word_unat_eq_iff)
qed

lemma ROUNDUP_wraps:
  fixes a :: "'a::len word"
  assumes p: "p < LENGTH('a)" and ov: "2 ^ LENGTH('a) \<le> unat a + (2 ^ p - 1)"
  shows "ROUNDUP a (shl1 p) = 0" "0 < unat a"
proof -
  have pp: "(2::nat) ^ p \<le> 2 ^ LENGTH('a)" "(0::nat) < 2 ^ p" using p by (simp_all add: power_increasing)
  then show "0 < unat a" using ov by linarith
  have al: "unat a < 2 ^ LENGTH('a)" by simp
  have "unat (a + mask p) = unat a + (2 ^ p - 1) - 2 ^ LENGTH('a)"
    using ov unat_plus_if' [of a "mask p"] unat_mask [OF p] by (simp only: not_less [symmetric] if_False)
  then have "unat (a + mask p) < 2 ^ p" using al pp by linarith
  then have "unat (ROUNDUP a (shl1 p)) = 0" by (simp add: ROUNDUP_def shl1_minus_one unat_and_not_mask)
  then show "ROUNDUP a (shl1 p) = 0" by (simp add: unsigned_eq_0_iff)
qed

end
