(* ===== verification/Pmm.thy ===== *)
theory Pmm
  imports Align
begin

text \<open>
  The boot-time allocator and the physical page allocator (\<^verbatim>\<open>kernel/vm/bootalloc.c\<close>,
  \<^verbatim>\<open>kernel/vm/pmm.c\<close>) on a 64-bit machine with 4 KiB pages. A page structure is known by its
  address in the page array of its arena; a list of pages, such as an arena's free list or
  a caller's list, is the sequence of these addresses. The mutex \<^verbatim>\<open>lock\<close> makes each call
  atomic.
\<close>

section \<open>State\<close>

type_synonym paddr_t = u64
type_synonym vaddr_t = u64
type_synonym page_ptr = u64

abbreviation PAGE_SIZE_SHIFT :: nat where "PAGE_SIZE_SHIFT \<equiv> 12"
abbreviation PAGE_SIZE :: u64 where "PAGE_SIZE \<equiv> shl1 PAGE_SIZE_SHIFT"
abbreviation (input) sizeof_vm_page :: u64 where "sizeof_vm_page \<equiv> 24"
abbreviation (input) VM_PAGE_FLAG_NONFREE :: u8 where "VM_PAGE_FLAG_NONFREE \<equiv> 1"
abbreviation (input) PMM_ARENA_FLAG_KMAP :: u32 where "PMM_ARENA_FLAG_KMAP \<equiv> 1"

record vm_page =
  pg_flags :: u8
  pg_linked :: bool

record pmm_arena =
  ar_flags :: u32
  ar_priority :: u32
  ar_base :: paddr_t
  ar_size :: u64
  free_count :: int
  page_array :: page_ptr
  free_list :: "page_ptr list"

record pmm_state =
  arena_list :: "addr list"
  arena :: "addr \<Rightarrow> pmm_arena"
  page :: "page_ptr \<Rightarrow> vm_page"
  boot_alloc_end :: u64

definition arena_upd :: "addr \<Rightarrow> (pmm_arena \<Rightarrow> pmm_arena) \<Rightarrow> pmm_state \<Rightarrow> pmm_state" where
  "arena_upd a f s = s\<lparr>arena := (arena s)(a := f (arena s a))\<rparr>"

definition page_upd :: "page_ptr \<Rightarrow> (vm_page \<Rightarrow> vm_page) \<Rightarrow> pmm_state \<Rightarrow> pmm_state" where
  "page_upd p f s = s\<lparr>page := (page s)(p := f (page s p))\<rparr>"

section \<open>Boot-time allocation\<close>

definition boot_alloc_mem :: "u64 \<Rightarrow> pmm_state \<Rightarrow> pmm_state \<times> u64" where
  "boot_alloc_mem len s =
     (let ptr = ALIGN (boot_alloc_end s) 8
      in (s\<lparr>boot_alloc_end := ptr + ALIGN len 8\<rparr>, ptr))"

section \<open>Pages and addresses\<close>

definition page_slot :: "pmm_arena \<Rightarrow> u64 \<Rightarrow> page_ptr" where
  "page_slot a index = page_array a + index * sizeof_vm_page"

definition PAGE_BELONGS_TO_ARENA :: "page_ptr \<Rightarrow> pmm_arena \<Rightarrow> bool" where
  "PAGE_BELONGS_TO_ARENA p a \<longleftrightarrow>
     p \<ge> page_array a \<and> p < page_array a + ar_size a div PAGE_SIZE * sizeof_vm_page"

definition PAGE_ADDRESS_FROM_ARENA :: "page_ptr \<Rightarrow> pmm_arena \<Rightarrow> paddr_t" where
  "PAGE_ADDRESS_FROM_ARENA p a = ((p - page_array a) div sizeof_vm_page) * PAGE_SIZE + ar_base a"

definition ADDRESS_IN_ARENA :: "paddr_t \<Rightarrow> pmm_arena \<Rightarrow> bool" where
  "ADDRESS_IN_ARENA address a \<longleftrightarrow> address \<ge> ar_base a \<and> address \<le> ar_base a + ar_size a - 1"

definition page_is_free :: "vm_page \<Rightarrow> bool" where
  "page_is_free p \<longleftrightarrow> \<not> (pg_flags p AND VM_PAGE_FLAG_NONFREE \<noteq> 0)"

definition vm_page_to_paddr :: "page_ptr \<Rightarrow> pmm_state \<Rightarrow> paddr_t" where
  "vm_page_to_paddr p s =
     (case find (\<lambda>a. PAGE_BELONGS_TO_ARENA p (arena s a)) (arena_list s) of
        Some a \<Rightarrow> PAGE_ADDRESS_FROM_ARENA p (arena s a)
      | None \<Rightarrow> -1)"

definition paddr_to_vm_page :: "paddr_t \<Rightarrow> pmm_state \<Rightarrow> page_ptr option" where
  "paddr_to_vm_page addr s =
     (case find (\<lambda>a. addr \<ge> ar_base (arena s a) \<and> addr \<le> ar_base (arena s a) + ar_size (arena s a) - 1) (arena_list s) of
        Some a \<Rightarrow> Some (page_slot (arena s a) ((addr - ar_base (arena s a)) div PAGE_SIZE))
      | None \<Rightarrow> None)"

section \<open>Arenas\<close>

fun insert_arena :: "(addr \<Rightarrow> pmm_arena) \<Rightarrow> addr \<Rightarrow> addr list \<Rightarrow> addr list" where
  "insert_arena ar x [] = [x]"
| "insert_arena ar x (a # as) =
     (if ar_priority (ar a) > ar_priority (ar x) then x # a # as else a # insert_arena ar x as)"

text \<open>The loop that puts the pages of a new arena on its free list.\<close>

fun add_pages :: "addr \<Rightarrow> u64 list \<Rightarrow> pmm_state \<Rightarrow> pmm_state" where
  "add_pages a [] s = s"
| "add_pages a (i # is) s =
     (let p = page_slot (arena s a) i;
          s = page_upd p (\<lambda>x. x\<lparr>pg_linked := True\<rparr>) s;
          s = arena_upd a (\<lambda>x. x\<lparr>free_list := free_list x @ [p], free_count := free_count x + 1\<rparr>) s
      in add_pages a is s)"

definition zero_pages :: "pmm_arena \<Rightarrow> pmm_state \<Rightarrow> pmm_state" where
  "zero_pages a s = s\<lparr>page := \<lambda>p. if PAGE_BELONGS_TO_ARENA p a then \<lparr>pg_flags = 0, pg_linked = False\<rparr> else page s p\<rparr>"

definition pmm_add_arena :: "addr \<Rightarrow> pmm_state \<Rightarrow> (pmm_state \<times> status_t) option" where
  "pmm_add_arena a s = do {
     DEBUG_ASSERT (IS_ALIGNED (ar_base (arena s a)) PAGE_SIZE);
     DEBUG_ASSERT (IS_ALIGNED (ar_size (arena s a)) PAGE_SIZE);
     DEBUG_ASSERT (ar_size (arena s a) > 0);
     let s = s\<lparr>arena_list := insert_arena (arena s) a (arena_list s)\<rparr>;
     let s = arena_upd a (\<lambda>x. x\<lparr>free_count := 0, free_list := []\<rparr>) s;
     let page_count = ar_size (arena s a) div PAGE_SIZE;
     let (s, ptr) = boot_alloc_mem (page_count * sizeof_vm_page) s;
     let s = arena_upd a (\<lambda>x. x\<lparr>page_array := ptr\<rparr>) s;
     let s = zero_pages (arena s a) s;
     Some (add_pages a (map of_nat [0..<unat page_count]) s, NO_ERROR)
   }"

section \<open>Allocation of single pages\<close>

text \<open>
  \<open>alloc_from\<close> is the inner loop for one arena with \<open>left = count - allocated\<close>; its last
  result is the \<^verbatim>\<open>goto done\<close>.
\<close>

fun alloc_from :: "addr \<Rightarrow> nat \<Rightarrow> page_ptr list \<Rightarrow> pmm_state \<Rightarrow> pmm_state \<times> page_ptr list \<times> nat \<times> bool" where
  "alloc_from a 0 l s = (s, l, 0, False)"
| "alloc_from a (Suc left) l s =
     (if free_count (arena s a) > 0 then
        case free_list (arena s a) of
          [] \<Rightarrow> (s, l, Suc left, True)
        | p # ps \<Rightarrow>
            let s = arena_upd a (\<lambda>x. x\<lparr>free_list := ps, free_count := free_count x - 1\<rparr>) s;
                s = page_upd p (\<lambda>x. x\<lparr>pg_flags := pg_flags x OR VM_PAGE_FLAG_NONFREE, pg_linked := True\<rparr>) s
            in alloc_from a left (l @ [p]) s
      else (s, l, Suc left, False))"

fun alloc_arenas :: "addr list \<Rightarrow> nat \<Rightarrow> page_ptr list \<Rightarrow> pmm_state \<Rightarrow> pmm_state \<times> page_ptr list \<times> nat" where
  "alloc_arenas [] left l s = (s, l, left)"
| "alloc_arenas (a # as) left l s =
     (case alloc_from a left l s of
        (s, l, left, True) \<Rightarrow> (s, l, left)
      | (s, l, left, False) \<Rightarrow> alloc_arenas as left l s)"

definition pmm_alloc_pages :: "u32 \<Rightarrow> page_ptr list \<Rightarrow> pmm_state \<Rightarrow> pmm_state \<times> page_ptr list \<times> nat" where
  "pmm_alloc_pages count l s =
     (if count = 0 then (s, l, 0)
      else case alloc_arenas (arena_list s) (unat count) l s of (s, l, left) \<Rightarrow> (s, l, unat count - left))"

definition pmm_alloc_page :: "pmm_state \<Rightarrow> (pmm_state \<times> page_ptr option) option" where
  "pmm_alloc_page s =
     (case pmm_alloc_pages 1 [] s of (s, l, ret) \<Rightarrow>
        if ret = 0 then Some (s, None)
        else do { DEBUG_ASSERT (ret = 1); Some (s, case l of [] \<Rightarrow> None | p # _ \<Rightarrow> Some p) })"

section \<open>Allocation of an address range\<close>

text \<open>A page leaves the free list, is marked and goes to the caller's list.\<close>

definition take_page :: "addr \<Rightarrow> page_ptr \<Rightarrow> pmm_state \<Rightarrow> pmm_state" where
  "take_page a p s =
     page_upd p (\<lambda>x. x\<lparr>pg_flags := pg_flags x OR VM_PAGE_FLAG_NONFREE, pg_linked := True\<rparr>)
       (arena_upd a (\<lambda>x. x\<lparr>free_list := remove1 p (free_list x), free_count := free_count x - 1\<rparr>) s)"

fun range_from ::
  "addr \<Rightarrow> nat \<Rightarrow> paddr_t \<Rightarrow> page_ptr list \<Rightarrow> pmm_state \<Rightarrow> (pmm_state \<times> page_ptr list \<times> nat \<times> paddr_t) option" where
  "range_from a 0 address l s = Some (s, l, 0, address)"
| "range_from a (Suc left) address l s =
     (if ADDRESS_IN_ARENA address (arena s a) then do {
        let index = (address - ar_base (arena s a)) div PAGE_SIZE;
        DEBUG_ASSERT (index < ar_size (arena s a) div PAGE_SIZE);
        let p = page_slot (arena s a) index;
        if \<not> page_is_free (page s p) then Some (s, l, Suc left, address)
        else do {
          DEBUG_ASSERT (pg_linked (page s p));
          range_from a left (address + PAGE_SIZE) (l @ [p]) (take_page a p s)
        }
      }
      else Some (s, l, Suc left, address))"

fun range_arenas ::
  "addr list \<Rightarrow> nat \<Rightarrow> paddr_t \<Rightarrow> page_ptr list \<Rightarrow> pmm_state \<Rightarrow> (pmm_state \<times> page_ptr list \<times> nat) option" where
  "range_arenas [] left address l s = Some (s, l, left)"
| "range_arenas (a # as) left address l s = do {
     (s, l, left, address) \<leftarrow> range_from a left address l s;
     if left = 0 then Some (s, l, left) else range_arenas as left address l s
   }"

definition pmm_alloc_range ::
  "paddr_t \<Rightarrow> u32 \<Rightarrow> page_ptr list \<Rightarrow> pmm_state \<Rightarrow> (pmm_state \<times> page_ptr list \<times> nat) option" where
  "pmm_alloc_range address count l s =
     (if count = 0 then Some (s, l, 0)
      else do {
        (s, l, left) \<leftarrow> range_arenas (arena_list s) (unat count) (ROUNDDOWN address PAGE_SIZE) l s;
        Some (s, l, unat count - left)
      })"

section \<open>Freeing\<close>

definition free_one :: "page_ptr \<Rightarrow> pmm_state \<Rightarrow> (pmm_state \<times> nat) option" where
  "free_one p s = do {
     let s = page_upd p (\<lambda>x. x\<lparr>pg_linked := False\<rparr>) s;
     DEBUG_ASSERT (\<not> page_is_free (page s p));
     Some (case find (\<lambda>a. PAGE_BELONGS_TO_ARENA p (arena s a)) (arena_list s) of
         Some a \<Rightarrow>
           (arena_upd a (\<lambda>x. x\<lparr>free_list := p # free_list x, free_count := free_count x + 1\<rparr>)
              (page_upd p (\<lambda>x. x\<lparr>pg_flags := pg_flags x AND NOT VM_PAGE_FLAG_NONFREE, pg_linked := True\<rparr>) s), 1)
       | None \<Rightarrow> (s, 0))
   }"

fun pmm_free :: "page_ptr list \<Rightarrow> pmm_state \<Rightarrow> (pmm_state \<times> nat) option" where
  "pmm_free [] s = Some (s, 0)"
| "pmm_free (p # ps) s = do {
     (s, c) \<leftarrow> free_one p s;
     (s, d) \<leftarrow> pmm_free ps s;
     Some (s, c + d)
   }"

definition pmm_free_page :: "page_ptr \<Rightarrow> pmm_state \<Rightarrow> (pmm_state \<times> nat) option" where
  "pmm_free_page p s = pmm_free [p] (page_upd p (\<lambda>x. x\<lparr>pg_linked := True\<rparr>) s)"

section \<open>Contiguous runs\<close>

text \<open>
  \<open>scan_run\<close>: the offset of the first page in use of a run, if any; \<open>None\<close> is a read past the
  page array.
\<close>

function scan_run :: "addr \<Rightarrow> u32 \<Rightarrow> nat \<Rightarrow> nat \<Rightarrow> pmm_state \<Rightarrow> nat option option" where
  "scan_run a start count i s =
     (if i < count then
        if unat start + i < unat (ar_size (arena s a) div PAGE_SIZE) then
          if \<not> page_is_free (page s (page_slot (arena s a) (of_nat (unat start + i)))) then Some (Some i)
          else scan_run a start count (Suc i) s
        else None
      else Some None)"
  by pat_completeness auto
termination
  by (relation "measure (\<lambda>(a, start, count, i, s). count - i)") auto

text \<open>\<open>take_run\<close>: the loop that removes the pages of the run from the free list.\<close>

function take_run :: "addr \<Rightarrow> u32 \<Rightarrow> u32 \<Rightarrow> page_ptr list \<Rightarrow> pmm_state \<Rightarrow> (pmm_state \<times> page_ptr list) option" where
  "take_run a i e l s =
     (if i < e then do {
        let p = page_slot (arena s a) (ucast i);
        DEBUG_ASSERT (page_is_free (page s p));
        DEBUG_ASSERT (pg_linked (page s p));
        take_run a (i + 1) e (l @ [p]) (take_page a p s)
      }
      else Some (s, l))"
  by pat_completeness auto
termination
proof (relation "measure (\<lambda>(a, i, e, l, s). unat e - unat i)", goal_cases)
  case (2 a i e l s)
  then have "unat i < unat e" by (simp add: word_less_nat_alt)
  moreover from this have "unat i + 1 < 2 ^ 32" using unsigned_less [of e, where ?'a = nat] by simp
  then have "unat (i + 1) = Suc (unat i)" by (simp add: unat_word_ariths)
  ultimately show ?case by simp
qed simp

declare scan_run.simps [simp del] take_run.simps [simp del]

text \<open>
  The search in one arena from page \<open>start\<close> on. Its sums are computed in 32 bits, and the
  next start in 64 bits and cut to 32, as in the code.
\<close>

definition next_start :: "nat \<Rightarrow> u32 \<Rightarrow> u32 \<Rightarrow> nat \<Rightarrow> u32" where
  "next_start alignment_log2 aligned_offset start i =
     ucast (ROUNDUP (ucast (start - aligned_offset + of_nat i + 1) :: u64) (shl1 (alignment_log2 - PAGE_SIZE_SHIFT)) +
            ucast aligned_offset)"

partial_function (option) contig_search ::
  "addr \<Rightarrow> nat \<Rightarrow> u32 \<Rightarrow> u32 \<Rightarrow> u32 \<Rightarrow> page_ptr list \<Rightarrow> pmm_state \<Rightarrow> (pmm_state \<times> page_ptr list \<times> u32 option) option" where
  "contig_search a alignment_log2 count aligned_offset start l s =
     (if ucast start < ar_size (arena s a) div PAGE_SIZE \<and> ucast (start + count) \<le> ar_size (arena s a) div PAGE_SIZE then
        Option.bind (scan_run a start (unat count) 0 s)
          (\<lambda>r. case r of
             Some i \<Rightarrow> contig_search a alignment_log2 count aligned_offset (next_start alignment_log2 aligned_offset start i) l s
           | None \<Rightarrow> Option.bind (take_run a start (start + count) l s) (\<lambda>(s, l). Some (s, l, Some start)))
      else Some (s, l, None))"

definition contig_arena ::
  "addr \<Rightarrow> nat \<Rightarrow> u32 \<Rightarrow> page_ptr list \<Rightarrow> pmm_state \<Rightarrow> (pmm_state \<times> page_ptr list \<times> u32 option) option" where
  "contig_arena a alignment_log2 count l s =
     (if ar_flags (arena s a) AND PMM_ARENA_FLAG_KMAP \<noteq> 0 then
        let base = ar_base (arena s a);
            rounded_base = ROUNDUP base (shl1 alignment_log2)
        in if rounded_base < base \<or> rounded_base > base + ar_size (arena s a) - 1 then Some (s, l, None)
           else let aligned_offset = ucast ((rounded_base - base) div PAGE_SIZE)
                in contig_search a alignment_log2 count aligned_offset aligned_offset l s
      else Some (s, l, None))"

fun contig_arenas ::
  "addr list \<Rightarrow> nat \<Rightarrow> u32 \<Rightarrow> page_ptr list \<Rightarrow> pmm_state \<Rightarrow> (pmm_state \<times> page_ptr list \<times> (nat \<times> paddr_t)) option" where
  "contig_arenas [] alignment_log2 count l s = Some (s, l, (0, 0))"
| "contig_arenas (a # as) alignment_log2 count l s = do {
     (s, l, r) \<leftarrow> contig_arena a alignment_log2 count l s;
     (case r of
        Some start \<Rightarrow> Some (s, l, (unat count, ar_base (arena s a) + ucast start * PAGE_SIZE))
      | None \<Rightarrow> contig_arenas as alignment_log2 count l s)
   }"

text \<open>
  The optional list is \<open>None\<close> for a null pointer; the pages removed from the free list are then in no
  list. The address is meaningful when the count is positive.
\<close>

definition unlink_all :: "page_ptr list \<Rightarrow> pmm_state \<Rightarrow> pmm_state" where
  "unlink_all ps s = s\<lparr>page := \<lambda>p. if p \<in> set ps then (page s p)\<lparr>pg_linked := False\<rparr> else page s p\<rparr>"

definition pmm_alloc_contiguous ::
  "u32 \<Rightarrow> nat \<Rightarrow> page_ptr list option \<Rightarrow> pmm_state \<Rightarrow> (pmm_state \<times> page_ptr list option \<times> (nat \<times> paddr_t)) option" where
  "pmm_alloc_contiguous count alignment_log2 l s =
     (if count = 0 then Some (s, l, (0, 0))
      else do {
        let alignment_log2 = (if alignment_log2 < PAGE_SIZE_SHIFT then PAGE_SIZE_SHIFT else alignment_log2);
        (s, l', r) \<leftarrow> contig_arenas (arena_list s) alignment_log2 count (case l of Some l \<Rightarrow> l | None \<Rightarrow> []) s;
        Some (case l of Some _ \<Rightarrow> (s, Some l', r) | None \<Rightarrow> (unlink_all l' s, None, r))
      })"

section \<open>Kernel mappings\<close>

abbreviation (input) MMU_INITIAL_MAPPING_TEMPORARY :: u32 where "MMU_INITIAL_MAPPING_TEMPORARY \<equiv> 1"

record mmu_initial_mapping =
  map_phys :: paddr_t
  map_virt :: vaddr_t
  map_size :: u64
  map_flags :: u32
  map_name :: string

text \<open>The platform's table \<^verbatim>\<open>mmu_initial_mappings\<close> ends with an entry of size 0.\<close>

fun paddr_to_kvaddr :: "mmu_initial_mapping list \<Rightarrow> paddr_t \<Rightarrow> vaddr_t option" where
  "paddr_to_kvaddr [] pa = None"
| "paddr_to_kvaddr (m # maps) pa =
     (if map_size m > 0 then
        if \<not> (map_flags m AND MMU_INITIAL_MAPPING_TEMPORARY \<noteq> 0) \<and> pa \<ge> map_phys m \<and> pa \<le> map_phys m + map_size m - 1
        then Some (map_virt m + (pa - map_phys m))
        else paddr_to_kvaddr maps pa
      else None)"

text \<open>
  Allocation in kernel space. The result is the caller's list and the pointer. \<open>v2p\<close> is
  \<^verbatim>\<open>vaddr_to_paddr\<close>, which asks the MMU.
\<close>

definition pmm_alloc_kpages ::
  "mmu_initial_mapping list \<Rightarrow> u32 \<Rightarrow> page_ptr list option \<Rightarrow> pmm_state \<Rightarrow> (pmm_state \<times> page_ptr list option \<times> vaddr_t option) option" where
  "pmm_alloc_kpages maps count l s =
     (if count = 1 then do {
        (s, p) \<leftarrow> pmm_alloc_page s;
        Some (case p of
            None \<Rightarrow> (s, l, None)
          | Some p \<Rightarrow> (s, l, paddr_to_kvaddr maps (vm_page_to_paddr p s)))
      }
      else do {
        (s, l, (alloc_count, pa)) \<leftarrow> pmm_alloc_contiguous count PAGE_SIZE_SHIFT l s;
        Some (s, l, if alloc_count = 0 then None else paddr_to_kvaddr maps pa)
      })"

definition pmm_alloc_kpage :: "mmu_initial_mapping list \<Rightarrow> pmm_state \<Rightarrow> (pmm_state \<times> vaddr_t option) option" where
  "pmm_alloc_kpage maps s = map_option (\<lambda>(s, l, p). (s, p)) (pmm_alloc_kpages maps 1 None s)"

fun kpages_list :: "(vaddr_t \<Rightarrow> paddr_t) \<Rightarrow> vaddr_t \<Rightarrow> nat \<Rightarrow> pmm_state \<Rightarrow> pmm_state \<times> page_ptr list" where
  "kpages_list v2p ptr 0 s = (s, [])"
| "kpages_list v2p ptr (Suc count) s =
     (case paddr_to_vm_page (v2p ptr) s of
        Some p \<Rightarrow> (case kpages_list v2p (ptr + PAGE_SIZE) count (page_upd p (\<lambda>x. x\<lparr>pg_linked := True\<rparr>) s) of (s, l) \<Rightarrow> (s, p # l))
      | None \<Rightarrow> kpages_list v2p (ptr + PAGE_SIZE) count s)"

definition pmm_free_kpages :: "(vaddr_t \<Rightarrow> paddr_t) \<Rightarrow> vaddr_t \<Rightarrow> u32 \<Rightarrow> pmm_state \<Rightarrow> (pmm_state \<times> nat) option" where
  "pmm_free_kpages v2p ptr count s = (case kpages_list v2p ptr (unat count) s of (s, l) \<Rightarrow> pmm_free l s)"

section \<open>Well-formed states\<close>

definition npages :: "pmm_arena \<Rightarrow> nat" where
  "npages a = unat (ar_size a) div 4096"

definition slot :: "pmm_arena \<Rightarrow> nat \<Rightarrow> page_ptr" where
  "slot a i = page_slot a (of_nat i)"

definition arena_wf :: "pmm_arena \<Rightarrow> bool" where
  "arena_wf a \<longleftrightarrow> 4096 dvd unat (ar_base a) \<and> 4096 dvd unat (ar_size a) \<and> 0 < unat (ar_size a) \<and>
     unat (ar_base a) + unat (ar_size a) \<le> 2 ^ 64 \<and> unat (page_array a) + 24 * npages a < 2 ^ 64"

definition arena_ok :: "pmm_state \<Rightarrow> pmm_arena \<Rightarrow> bool" where
  "arena_ok s a \<longleftrightarrow> arena_wf a \<and> distinct (free_list a) \<and> free_count a = int (length (free_list a)) \<and>
     set (free_list a) = {p \<in> slot a ` {..<npages a}. page_is_free (page s p)} \<and>
     (\<forall>p\<in>set (free_list a). pg_linked (page s p))"

definition apart :: "pmm_arena \<Rightarrow> pmm_arena \<Rightarrow> bool" where
  "apart a b \<longleftrightarrow> unat (page_array a) + 24 * npages a \<le> unat (page_array b) \<or>
     unat (page_array b) + 24 * npages b \<le> unat (page_array a)"

definition below :: "pmm_arena \<Rightarrow> u64 \<Rightarrow> bool" where
  "below a e \<longleftrightarrow> unat (page_array a) + 24 * npages a \<le> unat e"

definition pmm_ok :: "pmm_state \<Rightarrow> bool" where
  "pmm_ok s \<longleftrightarrow> distinct (arena_list s) \<and>
     (\<forall>a\<in>set (arena_list s). arena_ok s (arena s a) \<and> below (arena s a) (boot_alloc_end s)) \<and>
     (\<forall>a\<in>set (arena_list s). \<forall>b\<in>set (arena_list s). a \<noteq> b \<longrightarrow> apart (arena s a) (arena s b))"

definition free_pages :: "pmm_state \<Rightarrow> page_ptr set" where
  "free_pages s = (\<Union>a\<in>set (arena_list s). set (free_list (arena s a)))"

lemma unat_PAGE_SIZE [simp]: "unat (PAGE_SIZE) = 4096"
  by (simp add: unat_shl1)

lemma npages_word: "unat (ar_size a div PAGE_SIZE) = npages a"
  by (simp add: unat_div npages_def)

lemma npages_bound: "npages a * 4096 \<le> unat (ar_size a)" "npages a < 2 ^ 52"
proof -
  show "npages a * 4096 \<le> unat (ar_size a)" unfolding npages_def by (rule div_times_less_eq_dividend)
  moreover have "unat (ar_size a) < 2 ^ 64" using unsigned_less [of "ar_size a", where ?'a = nat] by simp
  ultimately show "npages a < 2 ^ 52" by simp
qed

lemma unat_slot:
  assumes "arena_wf a" and "i \<le> npages a"
  shows "unat (slot a i) = unat (page_array a) + 24 * i"
proof -
  have "i < 2 ^ 52" using npages_bound [of a] assms(2) by linarith
  then have "unat (of_nat i :: u64) = i" by (simp add: unat_of_nat take_bit_nat_eq_self)
  moreover have "unat (page_array a) + 24 * i < 2 ^ 64" using assms by (simp add: arena_wf_def)
  ultimately show ?thesis by (simp add: slot_def page_slot_def unat_word_ariths mult.commute)
qed

lemma slot_inj:
  assumes "arena_wf a" and "i \<le> npages a" and "j \<le> npages a"
  shows "slot a i = slot a j \<longleftrightarrow> i = j"
proof
  assume "slot a i = slot a j"
  then have "unat (slot a i) = unat (slot a j)" by (rule arg_cong)
  then show "i = j" unfolding unat_slot [OF assms(1,2)] unat_slot [OF assms(1,3)] by linarith
qed (rule arg_cong)

lemma belongs_iff:
  assumes "arena_wf a"
  shows "PAGE_BELONGS_TO_ARENA p a \<longleftrightarrow> unat (page_array a) \<le> unat p \<and> unat p < unat (page_array a) + 24 * npages a"
proof -
  have "unat (ar_size a div PAGE_SIZE) * 24 < 2 ^ 64" "unat (page_array a) + 24 * npages a < 2 ^ 64"
    using assms npages_word [of a] by (auto simp: arena_wf_def)
  then have "unat (page_array a + ar_size a div PAGE_SIZE * 24) = unat (page_array a) + 24 * npages a"
    using npages_word [of a] by (simp add: unat_word_ariths mult.commute)
  then show ?thesis by (simp add: PAGE_BELONGS_TO_ARENA_def word_le_nat_alt word_less_nat_alt)
qed

lemma slot_belongs: "arena_wf a \<Longrightarrow> i < npages a \<Longrightarrow> PAGE_BELONGS_TO_ARENA (slot a i) a"
  by (simp add: belongs_iff unat_slot)

lemma apart_belongs:
  assumes "apart a b" and "arena_wf a" and "arena_wf b" and "PAGE_BELONGS_TO_ARENA p a"
  shows "\<not> PAGE_BELONGS_TO_ARENA p b"
  using assms by (auto simp: apart_def belongs_iff)

lemma pmm_okD:
  assumes "pmm_ok s" and "a \<in> set (arena_list s)"
  shows "arena_ok s (arena s a)" "arena_wf (arena s a)" "distinct (free_list (arena s a))"
    "free_count (arena s a) = int (length (free_list (arena s a)))"
    "p \<in> set (free_list (arena s a)) \<Longrightarrow> page_is_free (page s p) \<and> pg_linked (page s p) \<and> PAGE_BELONGS_TO_ARENA p (arena s a)"
proof -
  show o: "arena_ok s (arena s a)" using assms by (simp add: pmm_ok_def)
  then show w: "arena_wf (arena s a)" "distinct (free_list (arena s a))"
    "free_count (arena s a) = int (length (free_list (arena s a)))" by (simp_all add: arena_ok_def)
  assume "p \<in> set (free_list (arena s a))"
  then show "page_is_free (page s p) \<and> pg_linked (page s p) \<and> PAGE_BELONGS_TO_ARENA p (arena s a)"
    using o slot_belongs [OF w(1)] by (auto simp: arena_ok_def)
qed

text \<open>The arena of a page is unique.\<close>

lemma arena_unique:
  assumes "pmm_ok s" and "a \<in> set (arena_list s)" and "b \<in> set (arena_list s)"
    and "PAGE_BELONGS_TO_ARENA p (arena s a)" and "PAGE_BELONGS_TO_ARENA p (arena s b)"
  shows "a = b"
  using assms apart_belongs [OF _ pmm_okD(2) [OF assms(1,2)] pmm_okD(2) [OF assms(1,3)]] by (auto simp: pmm_ok_def)

lemma find_arena:
  assumes "pmm_ok s" and "a \<in> set (arena_list s)" and "PAGE_BELONGS_TO_ARENA p (arena s a)"
  shows "find (\<lambda>a. PAGE_BELONGS_TO_ARENA p (arena s a)) (arena_list s) = Some a"
proof (cases "find (\<lambda>a. PAGE_BELONGS_TO_ARENA p (arena s a)) (arena_list s)")
  case None
  then show ?thesis using assms(2,3) by (auto simp: find_None_iff)
next
  case (Some b)
  then have "b \<in> set (arena_list s)" "PAGE_BELONGS_TO_ARENA p (arena s b)" by (auto simp: find_Some_iff)
  then show ?thesis using arena_unique [OF assms(1) _ assms(2) _ assms(3)] Some by blast
qed

section \<open>Taking pages\<close>

definition same_arena :: "pmm_arena \<Rightarrow> pmm_arena \<Rightarrow> bool" where
  "same_arena a b \<longleftrightarrow> ar_flags a = ar_flags b \<and> ar_priority a = ar_priority b \<and> ar_base a = ar_base b \<and>
     ar_size a = ar_size b \<and> page_array a = page_array b"

text \<open>\<open>taken ps s s'\<close>: \<open>s'\<close> differs from \<open>s\<close> in that the free pages \<open>ps\<close> are in use.\<close>

definition taken :: "page_ptr list \<Rightarrow> pmm_state \<Rightarrow> pmm_state \<Rightarrow> bool" where
  "taken ps s s' \<longleftrightarrow> arena_list s' = arena_list s \<and> (\<forall>a. same_arena (arena s' a) (arena s a)) \<and>
     (\<forall>a\<in>set (arena_list s). free_list (arena s' a) = filter (\<lambda>p. p \<notin> set ps) (free_list (arena s a))) \<and>
     (\<forall>p. p \<notin> set ps \<longrightarrow> page s' p = page s p) \<and> (\<forall>p\<in>set ps. \<not> page_is_free (page s' p)) \<and>
     set ps \<subseteq> free_pages s \<and> distinct ps"

lemma nonfree_or [simp]:
  "page_is_free (x\<lparr>pg_flags := f\<rparr>) \<longleftrightarrow> f AND 1 = 0" "page_is_free (x\<lparr>pg_linked := l\<rparr>) = page_is_free x"
  by (simp_all add: page_is_free_def)

lemma flag_or [simp]: "(f OR 1) AND (1 :: u8) \<noteq> 0"
proof -
  have "bit ((f OR 1) AND (1 :: u8)) 0" by (simp add: bit_and_iff bit_or_iff)
  then show ?thesis by auto
qed

lemma flag_andnot [simp]: "(f AND - 2) AND (1 :: u8) = 0"
proof -
  have "(f AND NOT 1) AND (1 :: u8) = 0" by (rule bit_eqI) (simp only: bit_and_iff bit_not_iff bit_1_iff bit_0_eq, blast)
  then show ?thesis by simp
qed

lemma same_arena_simps:
  assumes "same_arena a b"
  shows "npages a = npages b" "slot a = slot b" "arena_wf a = arena_wf b" "PAGE_BELONGS_TO_ARENA p a = PAGE_BELONGS_TO_ARENA p b"
    "apart a c = apart b c" "apart c a = apart c b" "ADDRESS_IN_ARENA x a = ADDRESS_IN_ARENA x b"
    "below a e = below b e"
proof -
  show n: "npages a = npages b" using assms by (simp add: same_arena_def npages_def)
  then show "arena_wf a = arena_wf b" "apart a c = apart b c" "apart c a = apart c b" "below a e = below b e"
    using assms by (simp_all add: same_arena_def arena_wf_def apart_def below_def)
  show "slot a = slot b" "PAGE_BELONGS_TO_ARENA p a = PAGE_BELONGS_TO_ARENA p b" "ADDRESS_IN_ARENA x a = ADDRESS_IN_ARENA x b"
    using assms by (simp_all add: same_arena_def slot_def fun_eq_iff page_slot_def PAGE_BELONGS_TO_ARENA_def ADDRESS_IN_ARENA_def)
qed

lemma filter_singleton: "distinct xs \<Longrightarrow> filter (\<lambda>q. q \<notin> set [p]) xs = remove1 p xs"
  by (simp add: distinct_remove1_removeAll removeAll_filter_not_eq eq_commute [of p])

lemma page_upd_simps [simp]:
  "page (page_upd p f s) q = (if q = p then f (page s p) else page s q)" "arena (page_upd p f s) = arena s"
  "arena_list (page_upd p f s) = arena_list s" "boot_alloc_end (page_upd p f s) = boot_alloc_end s"
  by (simp_all add: page_upd_def)

lemma arena_upd_simps [simp]:
  "arena (arena_upd a f s) b = (if b = a then f (arena s a) else arena s b)" "page (arena_upd a f s) = page s"
  "arena_list (arena_upd a f s) = arena_list s" "boot_alloc_end (arena_upd a f s) = boot_alloc_end s"
  by (simp_all add: arena_upd_def)

lemma take_page_simps [simp]:
  "arena_list (take_page a p s) = arena_list s" "boot_alloc_end (take_page a p s) = boot_alloc_end s"
  "page (take_page a p s) q = (if q = p then (page s p)\<lparr>pg_flags := pg_flags (page s p) OR 1, pg_linked := True\<rparr> else page s q)"
  "arena (take_page a p s) b = (if b = a then (arena s a)\<lparr>free_list := remove1 p (free_list (arena s a)),
     free_count := free_count (arena s a) - 1\<rparr> else arena s b)"
  by (simp_all add: take_page_def)

lemma take_page_taken:
  assumes s: "pmm_ok s" and a: "a \<in> set (arena_list s)" and p: "p \<in> set (free_list (arena s a))"
  shows "pmm_ok (take_page a p s)" "taken [p] s (take_page a p s)"
proof -
  let ?s = "take_page a p s"
  have same: "same_arena (arena ?s b) (arena s b)" for b by (simp add: same_arena_def)
  note ss = same_arena_simps [OF same]
  have other: "p \<notin> set (free_list (arena s b))" if "b \<in> set (arena_list s)" "b \<noteq> a" for b
    using arena_unique [OF s a that(1)] pmm_okD(5) [OF s a p] pmm_okD(5) [OF s that(1), of p] that(2) by blast
  have fl: "free_list (arena ?s b) = remove1 p (free_list (arena s b))" if "b \<in> set (arena_list s)" for b
    using other [OF that] by (cases "b = a") simp_all
  have "arena_ok ?s (arena ?s b)" if b: "b \<in> set (arena_list s)" for b
  proof -
    note o = pmm_okD [OF s b]
    have d: "set (free_list (arena ?s b)) = set (free_list (arena s b)) - {p}" unfolding fl [OF b] using o(3) by simp
    have c: "free_count (arena ?s b) = int (length (free_list (arena ?s b)))"
    proof (cases "b = a")
      case True
      then have "0 < length (free_list (arena s a))" "free_count (arena s a) = int (length (free_list (arena s a)))"
        using p o(4) by auto
      then have "int (length (free_list (arena s a)) - 1) = free_count (arena s a) - 1" by linarith
      then show ?thesis using True p by (simp add: length_remove1)
    next
      case False
      then show ?thesis using o(4) by simp
    qed
    have "set (free_list (arena ?s b)) = {q \<in> slot (arena ?s b) ` {..<npages (arena ?s b)}. page_is_free (page ?s q)}"
      using o(1) unfolding d ss(1,2) arena_ok_def by auto
    moreover have "pg_linked (page ?s q)" if "q \<in> set (free_list (arena ?s b))" for q
      using that o(5) [of q] unfolding d by auto
    moreover have "distinct (free_list (arena ?s b))" unfolding fl [OF b] using o(3) by (rule distinct_remove1)
    ultimately show ?thesis unfolding arena_ok_def ss(3) using o(2) c by blast
  qed
  then show "pmm_ok ?s" using s ss(5,6,8) by (simp add: pmm_ok_def)
  have "p \<in> free_pages s" using a p by (auto simp: free_pages_def)
  moreover have "free_list (arena ?s b) = filter (\<lambda>q. q \<notin> set [p]) (free_list (arena s b))" if "b \<in> set (arena_list s)" for b
    unfolding fl [OF that] filter_singleton [OF pmm_okD(3) [OF s that]] ..
  ultimately show "taken [p] s ?s" using same by (simp add: taken_def)
qed

lemma taken_free_pages: "taken ps s s' \<Longrightarrow> free_pages s' = free_pages s - set ps"
  by (auto simp: taken_def free_pages_def)

lemma taken_Nil [simp]: "taken [] s s"
  by (simp add: taken_def same_arena_def)

lemma taken_append:
  assumes a: "taken ps s s1" and b: "taken qs s1 s2"
  shows "taken (ps @ qs) s s2"
proof -
  have q: "set qs \<subseteq> free_pages s - set ps" using b taken_free_pages [OF a] by (simp add: taken_def)
  have "free_list (arena s2 x) = filter (\<lambda>p. p \<notin> set (ps @ qs)) (free_list (arena s x))" if "x \<in> set (arena_list s)" for x
    using a b that by (simp add: taken_def conj_commute)
  moreover have "page s2 p = page s p" if "p \<notin> set (ps @ qs)" for p using a b that by (simp add: taken_def)
  moreover have "\<not> page_is_free (page s2 p)" if "p \<in> set (ps @ qs)" for p
    using a b that by (cases "p \<in> set qs") (auto simp: taken_def)
  moreover have "same_arena (arena s2 x) (arena s x)" for x using a b by (simp add: taken_def same_arena_def)
  moreover have "arena_list s2 = arena_list s" "distinct ps" "distinct qs" "set ps \<subseteq> free_pages s" using a b by (simp_all add: taken_def)
  ultimately show ?thesis unfolding taken_def using q by auto
qed

text \<open>The inner and the outer loop of \<^verbatim>\<open>pmm_alloc_pages\<close>.\<close>

lemma alloc_from_ok:
  assumes "pmm_ok s" and "a \<in> set (arena_list s)"
  shows "\<exists>s'. alloc_from a left l s =
      (s', l @ take left (free_list (arena s a)), left - length (free_list (arena s a)), False) \<and>
    pmm_ok s' \<and> taken (take left (free_list (arena s a))) s s'"
  using assms
proof (induction left arbitrary: l s)
  case 0
  then show ?case by simp
next
  case (Suc left)
  note o = pmm_okD [OF Suc.prems]
  show ?case
  proof (cases "free_list (arena s a)")
    case Nil
    then show ?thesis using o(4) Suc.prems by simp
  next
    case (Cons p ps)
    let ?s = "take_page a p s"
    have eq: "alloc_from a (Suc left) l s = alloc_from a left (l @ [p]) ?s"
      using Cons o(4) by (simp add: take_page_def Let_def arena_upd_def)
    have t: "pmm_ok ?s" "taken [p] s ?s" using take_page_taken [OF Suc.prems] Cons by simp_all
    have f: "free_list (arena ?s a) = ps" using Cons by simp
    obtain s' where s': "alloc_from a left (l @ [p]) ?s = (s', (l @ [p]) @ take left ps, left - length ps, False)"
        "pmm_ok s'" "taken (take left ps) ?s s'"
      using Suc.IH [of ?s "l @ [p]"] t(1) Suc.prems(2) f by auto
    have "taken (p # take left ps) s s'" using taken_append [OF t(2) s'(3)] by simp
    then show ?thesis using eq s'(1,2) Cons by simp
  qed
qed

lemma alloc_arenas_ok:
  assumes "pmm_ok s" and "set as \<subseteq> set (arena_list s)" and "distinct as"
  shows "\<exists>s'. alloc_arenas as left l s =
      (s', l @ take left (concat (map (\<lambda>a. free_list (arena s a)) as)),
       left - length (concat (map (\<lambda>a. free_list (arena s a)) as))) \<and>
    pmm_ok s' \<and> taken (take left (concat (map (\<lambda>a. free_list (arena s a)) as))) s s'"
  using assms
proof (induction as arbitrary: left l s)
  case Nil
  then show ?case by simp
next
  case (Cons a as)
  let ?f = "free_list (arena s a)"
  have a: "a \<in> set (arena_list s)" using Cons.prems(2) by simp
  obtain s1 where s1: "alloc_from a left l s = (s1, l @ take left ?f, left - length ?f, False)" "pmm_ok s1" "taken (take left ?f) s s1"
    using alloc_from_ok [OF Cons.prems(1) a] by blast
  have same: "free_list (arena s1 b) = free_list (arena s b)" if "b \<in> set as" for b
  proof -
    have b: "b \<in> set (arena_list s)" "b \<noteq> a" using that Cons.prems(2,3) by auto
    have "p \<notin> set ?f" if "p \<in> set (free_list (arena s b))" for p
      using arena_unique [OF Cons.prems(1) a b(1), of p] pmm_okD(5) [OF Cons.prems(1) a, of p] pmm_okD(5) [OF Cons.prems(1) b(1) that] b(2)
      by blast
    then have "p \<notin> set (take left ?f)" if "p \<in> set (free_list (arena s b))" for p
      using that in_set_takeD [of p left ?f] by blast
    then show ?thesis using s1(3) b(1) by (simp add: taken_def filter_id_conv)
  qed
  then have m: "map (\<lambda>a. free_list (arena s1 a)) as = map (\<lambda>a. free_list (arena s a)) as" by simp
  have al: "arena_list s1 = arena_list s" using s1(3) by (simp add: taken_def)
  obtain s' where s': "alloc_arenas as (left - length ?f) (l @ take left ?f) s1 =
      (s', (l @ take left ?f) @ take (left - length ?f) (concat (map (\<lambda>a. free_list (arena s a)) as)),
       left - length ?f - length (concat (map (\<lambda>a. free_list (arena s a)) as)))" "pmm_ok s'"
      "taken (take (left - length ?f) (concat (map (\<lambda>a. free_list (arena s a)) as))) s1 s'"
    using Cons.IH [OF s1(2), of "left - length ?f" "l @ take left ?f"] Cons.prems(2,3) unfolding m al by auto
  show ?case using s1(1) s'(1,2) taken_append [OF s1(3) s'(3)] by simp
qed

section \<open>Freeing pages\<close>

definition managed :: "pmm_state \<Rightarrow> page_ptr set" where
  "managed s = (\<Union>a\<in>set (arena_list s). slot (arena s a) ` {..<npages (arena s a)})"

lemma free_pages_eq: "pmm_ok s \<Longrightarrow> free_pages s = {p \<in> managed s. page_is_free (page s p)}"
proof -
  assume s: "pmm_ok s"
  have "set (free_list (arena s a)) = {p \<in> slot (arena s a) ` {..<npages (arena s a)}. page_is_free (page s p)}"
    if "a \<in> set (arena_list s)" for a
    using pmm_okD(1) [OF s that] unfolding arena_ok_def by blast
  then show ?thesis unfolding free_pages_def managed_def by blast
qed

lemma same_managed:
  assumes "arena_list s' = arena_list s" and "\<And>a. same_arena (arena s' a) (arena s a)"
  shows "managed s' = managed s"
  using assms same_arena_simps(1,2) [OF assms(2)] by (simp add: managed_def)

lemma taken_managed: "taken ps s s' \<Longrightarrow> managed s' = managed s"
  by (rule same_managed) (simp_all add: taken_def)

lemma free_one_ok:
  assumes s: "pmm_ok s" and p: "p \<in> managed s" and f: "\<not> page_is_free (page s p)"
  shows "\<exists>s'. free_one p s = Some (s', 1) \<and> pmm_ok s' \<and> free_pages s' = insert p (free_pages s) \<and>
    managed s' = managed s \<and> (\<forall>q. q \<noteq> p \<longrightarrow> page s' q = page s q)"
proof -
  obtain a i where a: "a \<in> set (arena_list s)" and i: "i < npages (arena s a)" "p = slot (arena s a) i"
    using p by (auto simp: managed_def)
  have w: "arena_wf (arena s a)" using pmm_okD(2) [OF s a] .
  have b: "PAGE_BELONGS_TO_ARENA p (arena s a)" using slot_belongs [OF w i(1)] i(2) by simp
  define s' where "s' = arena_upd a (\<lambda>x. x\<lparr>free_list := p # free_list x, free_count := free_count x + 1\<rparr>)
     (page_upd p (\<lambda>x. x\<lparr>pg_flags := pg_flags x AND NOT 1, pg_linked := True\<rparr>) (page_upd p (\<lambda>x. x\<lparr>pg_linked := False\<rparr>) s))"
  have e: "free_one p s = Some (s', 1)"
    using f find_arena [OF s a b] by (simp add: free_one_def s'_def Let_def)
  have same: "same_arena (arena s' b) (arena s b)" for b by (simp add: s'_def same_arena_def)
  note ss = same_arena_simps [OF same]
  have l: "arena_list s' = arena_list s" "boot_alloc_end s' = boot_alloc_end s" by (simp_all add: s'_def)
  have fl: "free_list (arena s' x) = (if x = a then p # free_list (arena s a) else free_list (arena s x))" for x
    by (simp add: s'_def)
  have pg: "page_is_free (page s' q) \<longleftrightarrow> q = p \<or> page_is_free (page s q)" "pg_linked (page s' q) \<longleftrightarrow> q = p \<or> pg_linked (page s q)" for q
    by (simp_all add: s'_def)
  have pa: "p \<notin> set (free_list (arena s x))" if "x \<in> set (arena_list s)" for x
    using pmm_okD(5) [OF s that, of p] f by blast
  have in_a: "x = a" if "x \<in> set (arena_list s)" "p \<in> slot (arena s x) ` {..<npages (arena s x)}" for x
    using arena_unique [OF s that(1) a _ b] slot_belongs [OF pmm_okD(2) [OF s that(1)]] that(2) by auto
  have "arena_ok s' (arena s' x)" if x: "x \<in> set (arena_list s)" for x
  proof -
    note o = pmm_okD [OF s x]
    have st: "set (free_list (arena s x)) = {q \<in> slot (arena s x) ` {..<npages (arena s x)}. page_is_free (page s q)}"
      using o(1) by (simp add: arena_ok_def)
    have "set (free_list (arena s' x)) = {q \<in> slot (arena s' x) ` {..<npages (arena s' x)}. page_is_free (page s' q)}"
    proof (cases "x = a")
      case True
      then show ?thesis unfolding fl ss(1,2) pg using st i by auto
    next
      case False
      then have "p \<notin> slot (arena s x) ` {..<npages (arena s x)}" using in_a x by blast
      then show ?thesis unfolding fl ss(1,2) pg using st False by auto
    qed
    moreover have "distinct (free_list (arena s' x))" unfolding fl using o(3) pa [OF a] by (cases "x = a") simp_all
    moreover have "free_count (arena s' x) = int (length (free_list (arena s' x)))" unfolding fl using o(4) by (cases "x = a") (simp_all add: s'_def)
    moreover have "\<forall>q\<in>set (free_list (arena s' x)). pg_linked (page s' q)"
      unfolding fl pg using o(5) by (cases "x = a") auto
    ultimately show ?thesis unfolding arena_ok_def ss(3) using o(2) by blast
  qed
  then have "pmm_ok s'" using s ss(5,6,8) by (simp add: pmm_ok_def l)
  moreover have "free_pages s' = insert p (free_pages s)" using a unfolding free_pages_def l fl by (auto split: if_splits)
  moreover have "managed s' = managed s" using l(1) same by (rule same_managed)
  moreover have "\<forall>q. q \<noteq> p \<longrightarrow> page s' q = page s q" by (simp add: s'_def)
  ultimately show ?thesis using e by blast
qed

lemma pmm_free_ok:
  assumes "pmm_ok s" and "distinct ps" and "set ps \<subseteq> managed s" and "set ps \<inter> free_pages s = {}"
  shows "\<exists>s'. pmm_free ps s = Some (s', length ps) \<and> pmm_ok s' \<and> free_pages s' = free_pages s \<union> set ps \<and> managed s' = managed s"
  using assms
proof (induction ps arbitrary: s)
  case Nil
  then show ?case by simp
next
  case (Cons p ps)
  have "\<not> page_is_free (page s p)" using Cons.prems free_pages_eq [OF Cons.prems(1)] by auto
  then obtain s1 where s1: "free_one p s = Some (s1, 1)" "pmm_ok s1" "free_pages s1 = insert p (free_pages s)" "managed s1 = managed s"
    using free_one_ok [OF Cons.prems(1), of p] Cons.prems(3) by auto
  obtain s' where "pmm_free ps s1 = Some (s', length ps)" "pmm_ok s'" "free_pages s' = free_pages s1 \<union> set ps" "managed s' = managed s1"
    using Cons.IH [OF s1(2)] Cons.prems(2-4) s1(3,4) by auto
  then show ?case using s1 by auto
qed

text \<open>A machine with one arena of four pages, for the examples.\<close>

definition demo_pmm :: pmm_state where
  "demo_pmm = \<lparr>arena_list = [1],
     arena = \<lambda>_. \<lparr>ar_flags = 1, ar_priority = 0, ar_base = 0x1000, ar_size = 0x4000, free_count = 4, page_array = 0x100000,
       free_list = [0x100000, 0x100018, 0x100030, 0x100048]\<rparr>,
     page = \<lambda>_. \<lparr>pg_flags = 0, pg_linked = True\<rparr>, boot_alloc_end = 0x100060\<rparr>"

lemma demo_slots: "slot (arena demo_pmm 1) ` {..<npages (arena demo_pmm 1)} = {0x100000, 0x100018, 0x100030, 0x100048}"
  "npages (arena demo_pmm 1) = 4"
proof -
  show n: "npages (arena demo_pmm 1) = 4" by (simp add: npages_def demo_pmm_def)
  have "{..<4 :: nat} = {0, 1, 2, 3}" by auto
  then show "slot (arena demo_pmm 1) ` {..<npages (arena demo_pmm 1)} = {0x100000, 0x100018, 0x100030, 0x100048}"
    unfolding n by (simp add: slot_def page_slot_def demo_pmm_def)
qed

lemma demo_free: "concat (map (\<lambda>a. free_list (arena demo_pmm a)) (arena_list demo_pmm)) = [0x100000, 0x100018, 0x100030, 0x100048]"
  by (simp add: demo_pmm_def)

lemma demo_pmm_ok: "pmm_ok demo_pmm"
proof -
  have "arena_wf (arena demo_pmm 1)" using demo_slots(2) unfolding arena_wf_def by (simp add: demo_pmm_def)
  moreover have "page_is_free (page demo_pmm p)" "pg_linked (page demo_pmm p)" for p by (simp_all add: demo_pmm_def page_is_free_def)
  moreover have "free_list (arena demo_pmm 1) = [0x100000, 0x100018, 0x100030, 0x100048]" "free_count (arena demo_pmm 1) = 4"
    by (simp_all add: demo_pmm_def)
  ultimately have "arena_ok demo_pmm (arena demo_pmm 1)" unfolding arena_ok_def demo_slots(1) by auto
  moreover have "below (arena demo_pmm 1) (boot_alloc_end demo_pmm)" unfolding below_def demo_slots(2) by (simp add: demo_pmm_def)
  moreover have "arena_list demo_pmm = [1]" by (simp add: demo_pmm_def)
  ultimately show ?thesis by (simp add: pmm_ok_def)
qed

section \<open>Properties of page allocation\<close>

lemma pmm_alloc_pages_ok:
  assumes "pmm_ok s"
  shows "\<exists>s' ps. pmm_alloc_pages count l s = (s', l @ ps, length ps) \<and>
    ps = take (unat count) (concat (map (\<lambda>a. free_list (arena s a)) (arena_list s))) \<and> taken ps s s' \<and> pmm_ok s'"
proof (cases "count = 0")
  case True
  then show ?thesis using assms by (intro exI [of _ s] exI [of _ "[]"]) (simp add: pmm_alloc_pages_def)
next
  case False
  let ?ps = "concat (map (\<lambda>a. free_list (arena s a)) (arena_list s))"
  have "distinct (arena_list s)" using assms by (simp add: pmm_ok_def)
  then obtain s' where s': "alloc_arenas (arena_list s) (unat count) l s = (s', l @ take (unat count) ?ps, unat count - length ?ps)"
      "pmm_ok s'" "taken (take (unat count) ?ps) s s'"
    using alloc_arenas_ok [OF assms order_refl] by blast
  have "unat count - (unat count - length ?ps) = length (take (unat count) ?ps)" by simp
  then show ?thesis using s' False by (intro exI [of _ s'] exI [of _ "take (unat count) ?ps"]) (simp add: pmm_alloc_pages_def)
qed



text \<open>
  C20: Pages that were allocated can be given back: \<^verbatim>\<open>pmm_free\<close> of the list of an allocation accepts
  every page of it and the set of free pages is again what it was before.
\<close>

theorem pmm_alloc_free_roundtrip:
  assumes "pmm_ok s" and "pmm_alloc_pages count [] s = (s', ps, n)"
  shows "\<exists>s''. pmm_free ps s' = Some (s'', n) \<and> pmm_ok s'' \<and> free_pages s'' = free_pages s"
proof -
  obtain qs where q: "ps = qs" "n = length qs" "taken qs s s'" "pmm_ok s'"
    using pmm_alloc_pages_ok [OF assms(1), of count "[]"] assms(2) by auto
  have m: "managed s' = managed s" "free_pages s' = free_pages s - set qs"
    using q(3) by (simp_all add: taken_managed taken_free_pages)
  have "set qs \<subseteq> free_pages s" "distinct qs" using q(3) by (simp_all add: taken_def)
  then have "set qs \<subseteq> managed s'" using free_pages_eq [OF assms(1)] m(1) by auto
  then show ?thesis
    using pmm_free_ok [OF q(4) \<open>distinct qs\<close>] m(2) \<open>set qs \<subseteq> free_pages s\<close> q(1,2) by (auto simp: Un_absorb2)
qed

theorem pmm_alloc_free_roundtrip_witness:
  "\<exists>s' ps s''. pmm_alloc_pages 6 [] demo_pmm = (s', ps, 4) \<and> pmm_free ps s' = Some (s'', 4) \<and> free_pages s'' = free_pages demo_pmm"
proof -
  obtain s' ps n where r: "pmm_alloc_pages 6 [] demo_pmm = (s', ps, n)" by (metis prod_cases3)
  have "n = 4" using r pmm_alloc_pages_ok [OF demo_pmm_ok, of 6 "[]"] unfolding demo_free by auto
  then show ?thesis using pmm_alloc_free_roundtrip [OF demo_pmm_ok r] r by blast
qed

section \<open>Adding arenas\<close>

lemma insert_arena_set: "set (insert_arena ar x as) = insert x (set as)"
  by (induction as) auto

lemma insert_arena_distinct: "x \<notin> set as \<Longrightarrow> distinct as \<Longrightarrow> distinct (insert_arena ar x as)"
  by (induction as) (auto simp: insert_arena_set)

lemma insert_arena_sorted:
  "sorted (map (\<lambda>a. ar_priority (ar a)) as) \<Longrightarrow> sorted (map (\<lambda>a. ar_priority (ar a)) (insert_arena ar x as))"
  by (induction as) (auto simp: insert_arena_set)

lemma add_pages_effect:
  "arena_list (add_pages a is s) = arena_list s \<and> boot_alloc_end (add_pages a is s) = boot_alloc_end s \<and>
   arena (add_pages a is s) = (arena s)(a := (arena s a)\<lparr>free_list := free_list (arena s a) @ map (page_slot (arena s a)) is,
     free_count := free_count (arena s a) + int (length is)\<rparr>) \<and>
   page (add_pages a is s) = (\<lambda>p. if p \<in> page_slot (arena s a) ` set is then (page s p)\<lparr>pg_linked := True\<rparr> else page s p)"
proof (induction "is" arbitrary: s)
  case Nil
  then show ?case by simp
next
  case (Cons i "is")
  have sl: "page_slot ((arena s a)\<lparr>free_list := l, free_count := c\<rparr>) = page_slot (arena s a)" for l c
    by (simp add: page_slot_def fun_eq_iff)
  show ?case by (simp add: Let_def Cons.IH sl fun_eq_iff arena_upd_def page_upd_def)
qed

lemma boot_alloc_mem_ok:
  assumes "unat (boot_alloc_end s) + unat len + 16 < 2 ^ 64"
  shows "\<exists>ptr e. boot_alloc_mem len s = (s\<lparr>boot_alloc_end := e\<rparr>, ptr) \<and>
    8 dvd unat ptr \<and> unat (boot_alloc_end s) \<le> unat ptr \<and> unat ptr + unat len \<le> unat e"
proof -
  let ?p = "ALIGN (boot_alloc_end s) 8" and ?l = "ALIGN len 8"
  have e8: "(8 :: u64) = shl1 3" by (simp add: shl1_def)
  have p: "unat (boot_alloc_end s) \<le> unat ?p" "unat ?p < unat (boot_alloc_end s) + 8" "8 dvd unat ?p"
    using ROUNDUP_bounds [of 3 "boot_alloc_end s"] assms unfolding ALIGN_def e8 by simp_all
  have l: "unat len \<le> unat ?l" "unat ?l < unat len + 8"
    using ROUNDUP_bounds [of 3 len] assms unfolding ALIGN_def e8 by simp_all
  have "unat (?p + ?l) = unat ?p + unat ?l" using p l assms by (simp add: unat_word_ariths)
  then show ?thesis using p l
    by (intro exI [of _ ?p] exI [of _ "?p + ?l"]) (simp add: boot_alloc_mem_def Let_def)
qed

lemma pmm_add_arena_ok:
  assumes s: "pmm_ok s" and a: "a \<notin> set (arena_list s)"
    and al: "4096 dvd unat (ar_base (arena s a))" "4096 dvd unat (ar_size (arena s a))" "0 < unat (ar_size (arena s a))"
    and fit: "unat (ar_base (arena s a)) + unat (ar_size (arena s a)) \<le> 2 ^ 64"
    and mem: "unat (boot_alloc_end s) + 24 * npages (arena s a) + 16 < 2 ^ 64"
  shows "\<exists>s'. pmm_add_arena a s = Some (s', NO_ERROR) \<and> pmm_ok s' \<and>
    arena_list s' = insert_arena (arena s) a (arena_list s) \<and>
    free_pages s' = free_pages s \<union> slot (arena s' a) ` {..<npages (arena s a)} \<and>
    card (slot (arena s' a) ` {..<npages (arena s a)}) = npages (arena s a)"
proof -
  let ?a = "arena s a" and ?n = "npages (arena s a)"
  have n: "unat (ar_size ?a div PAGE_SIZE * 24) = 24 * ?n"
    using mem npages_word [of ?a] by (simp add: unat_word_ariths mult.commute)
  define s1 where "s1 = arena_upd a (\<lambda>x. x\<lparr>free_count := 0, free_list := []\<rparr>) (s\<lparr>arena_list := insert_arena (arena s) a (arena_list s)\<rparr>)"
  have "unat (boot_alloc_end s1) + unat (ar_size ?a div PAGE_SIZE * 24) + 16 < 2 ^ 64" using mem n by (simp add: s1_def)
  then obtain ptr e where b: "boot_alloc_mem (ar_size ?a div PAGE_SIZE * 24) s1 = (s1\<lparr>boot_alloc_end := e\<rparr>, ptr)"
      "unat (boot_alloc_end s1) \<le> unat ptr" "unat ptr + 24 * ?n \<le> unat e"
    using boot_alloc_mem_ok [of s1 "ar_size ?a div PAGE_SIZE * 24"] n by auto
  define a2 where "a2 = ?a\<lparr>free_count := 0, free_list := [], page_array := ptr\<rparr>"
  define s2 where "s2 = zero_pages a2 (arena_upd a (\<lambda>x. x\<lparr>page_array := ptr\<rparr>) (s1\<lparr>boot_alloc_end := e\<rparr>))"
  define s' where "s' = add_pages a (map of_nat [0..<unat (ar_size ?a div PAGE_SIZE)]) s2"
  have a2: "arena s2 a = a2" "arena_list s2 = insert_arena (arena s) a (arena_list s)" "boot_alloc_end s2 = e"
    by (simp_all add: s2_def s1_def a2_def zero_pages_def)
  have "IS_ALIGNED (ar_base ?a) PAGE_SIZE" "IS_ALIGNED (ar_size ?a) PAGE_SIZE" "0 < ar_size ?a"
    using al by (simp_all add: IS_ALIGNED_iff word_less_nat_alt)
  then have r: "pmm_add_arena a s = Some (s', NO_ERROR)"
    using b(1) by (simp add: pmm_add_arena_def s'_def s2_def a2_def Let_def s1_def)
  have e': "unat e < 2 ^ 64" using unsigned_less [of e, where ?'a = nat] by simp
  have w: "arena_wf a2" using al fit b(3) e' by (simp add: arena_wf_def a2_def npages_def)
  have na: "npages a2 = ?n" by (simp add: a2_def npages_def)
  have u: "unat (ar_size ?a div PAGE_SIZE) = ?n" by (rule npages_word)
  have set_a: "page_slot a2 ` set (map of_nat [0..<?n]) = slot a2 ` {..<?n}" by (auto simp: slot_def)
  note ef = add_pages_effect [of a "map of_nat [0..<?n]" s2, folded s'_def [unfolded u], unfolded a2 set_a]
  have ar_a: "arena s' a = a2\<lparr>free_list := map (slot a2) [0..<?n], free_count := int ?n\<rparr>"
    using ef by (simp add: a2_def slot_def comp_def)
  have ar_b: "arena s' b = arena s b" if "b \<noteq> a" for b
    using ef that by (simp add: s2_def s1_def zero_pages_def)
  have al': "arena_list s' = insert_arena (arena s) a (arena_list s)" "boot_alloc_end s' = e" using ef by simp_all
  have sa: "same_arena (arena s' a) a2" by (simp add: ar_a same_arena_def)
  note ssa = same_arena_simps [OF sa]
  have pg_a: "page s' p = \<lparr>pg_flags = 0, pg_linked = True\<rparr>" if "p \<in> slot a2 ` {..<?n}" for p
    using ef that slot_belongs [OF w] na by (auto simp: s2_def zero_pages_def)
  have pg_b: "page s' p = page s p" if "\<not> PAGE_BELONGS_TO_ARENA p a2" for p
    using ef that slot_belongs [OF w] na by (auto simp: s2_def s1_def zero_pages_def)
  have inj: "inj_on (slot a2) {..<?n}" using slot_inj [OF w] na by (auto simp: inj_on_def)
  have ap: "apart a2 (arena s x) \<and> apart (arena s x) a2" if "x \<in> set (arena_list s)" for x
    using s that b(2) unfolding apart_def pmm_ok_def below_def by (auto simp: a2_def s1_def)
  have ok_a: "arena_ok s' (arena s' a)"
    unfolding arena_ok_def ssa using w na inj pg_a
    by (auto simp: ar_a distinct_map page_is_free_def atLeast0LessThan)
  have ok_b: "arena_ok s' (arena s' x)" if x: "x \<in> set (arena_list s)" for x
  proof -
    have xa: "x \<noteq> a" using x a by auto
    have "page s' p = page s p" if "p \<in> slot (arena s x) ` {..<npages (arena s x)}" for p
    proof (rule pg_b)
      have "PAGE_BELONGS_TO_ARENA p (arena s x)" using that slot_belongs [OF pmm_okD(2) [OF s x]] by auto
      then show "\<not> PAGE_BELONGS_TO_ARENA p a2" using apart_belongs [OF conjunct2 [OF ap [OF x]] pmm_okD(2) [OF s x] w] by blast
    qed
    then show ?thesis using pmm_okD(1) [OF s x] unfolding ar_b [OF xa] arena_ok_def by auto
  qed
  have bel: "below (arena s' x) e" if "x \<in> insert a (set (arena_list s))" for x
  proof (cases "x = a")
    case True
    have "below a2 e" using b(3) by (simp add: below_def na) (simp add: a2_def)
    then show ?thesis using True ssa(8) by simp
  next
    case False
    then have "below (arena s x) (boot_alloc_end s)" using s that by (simp add: pmm_ok_def)
    then show ?thesis using b(2,3) False by (simp add: ar_b below_def s1_def)
  qed
  have "distinct (insert_arena (arena s) a (arena_list s))" using insert_arena_distinct a s by (simp add: pmm_ok_def)
  moreover have "apart (arena s' x) (arena s' y)"
    if "x \<in> insert a (set (arena_list s))" "y \<in> insert a (set (arena_list s))" "x \<noteq> y" for x y
    using that ap s ssa(5,6) ar_b by (cases "x = a"; cases "y = a") (auto simp: pmm_ok_def)
  ultimately have "pmm_ok s'"
    using ok_a ok_b bel by (auto simp: pmm_ok_def al' insert_arena_set)
  moreover have "free_pages s' = free_pages s \<union> slot (arena s' a) ` {..<?n}"
  proof -
    have "arena s' x = arena s x" if "x \<in> set (arena_list s)" for x using ar_b a that by metis
    then show ?thesis using ar_a unfolding free_pages_def al' insert_arena_set ssa(2) by (auto simp: atLeast0LessThan)
  qed
  moreover have "card (slot (arena s' a) ` {..<?n}) = ?n" using inj unfolding ssa(2) by (simp add: card_image)
  ultimately show ?thesis using r al'(1) by blast
qed

text \<open>
  C21: Adding an arena works: a page-aligned arena inside the address space is put behind the
  arenas of at most its priority, its page structures are carved out of fresh boot memory apart from all
  others, all its pages are free, and the allocator's state stays consistent.
\<close>

theorem pmm_add_arena_adds:
  assumes s: "pmm_ok s" and a: "a \<notin> set (arena_list s)"
    and al: "4096 dvd unat (ar_base (arena s a))" "4096 dvd unat (ar_size (arena s a))" "0 < unat (ar_size (arena s a))"
    and fit: "unat (ar_base (arena s a)) + unat (ar_size (arena s a)) \<le> 2 ^ 64"
    and mem: "unat (boot_alloc_end s) + 24 * npages (arena s a) + 16 < 2 ^ 64"
  shows "\<exists>s'. pmm_add_arena a s = Some (s', NO_ERROR) \<and> pmm_ok s' \<and>
    arena_list s' = insert_arena (arena s) a (arena_list s) \<and>
    free_pages s' = free_pages s \<union> slot (arena s' a) ` {..<npages (arena s a)} \<and>
    card (slot (arena s' a) ` {..<npages (arena s a)}) = npages (arena s a)"
  using assms by (rule pmm_add_arena_ok)

theorem pmm_add_arena_adds_witness:
  "\<exists>s'. pmm_add_arena 2 (demo_pmm\<lparr>arena := (arena demo_pmm)(2 := (arena demo_pmm 1)\<lparr>ar_base := 0x8000, ar_priority := 3\<rparr>)\<rparr>) = Some (s', NO_ERROR) \<and>
     pmm_ok s' \<and> arena_list s' = [1, 2]"
proof -
  let ?s = "demo_pmm\<lparr>arena := (arena demo_pmm)(2 := (arena demo_pmm 1)\<lparr>ar_base := 0x8000, ar_priority := 3\<rparr>)\<rparr>"
  have a: "arena ?s 1 = arena demo_pmm 1" by simp
  have ok: "pmm_ok ?s"
    using demo_pmm_ok by (simp add: pmm_ok_def demo_pmm_def arena_ok_def)
  have "npages (arena ?s 2) = 4" by (simp add: npages_def demo_pmm_def)
  then obtain s' where "pmm_add_arena 2 ?s = Some (s', NO_ERROR)" "pmm_ok s'"
      "arena_list s' = insert_arena (arena ?s) 2 (arena_list ?s)"
    using pmm_add_arena_adds [OF ok, of 2] by (auto simp: demo_pmm_def)
  then show ?thesis by (auto simp: demo_pmm_def)
qed

section \<open>Contiguous allocation\<close>



lemma free_slot_listed:
  assumes "pmm_ok s" and "a \<in> set (arena_list s)" and "i < npages (arena s a)" and "page_is_free (page s (slot (arena s a) i))"
  shows "slot (arena s a) i \<in> set (free_list (arena s a))"
  using pmm_okD(1) [OF assms(1,2)] assms(3,4) unfolding arena_ok_def by blast















section \<open>Single kernel pages\<close>

text \<open>
  C24: \<^verbatim>\<open>pmm_alloc_kpages\<close> of one page takes the first free page of any arena. It does not append it
  to the caller's list, and when the page has no kernel address the page stays allocated
  although the call returns null.
\<close>

theorem pmm_alloc_kpages_single:
  assumes "pmm_ok s" and "concat (map (\<lambda>a. free_list (arena s a)) (arena_list s)) = p # ps"
  shows "\<exists>s'. pmm_alloc_kpages maps 1 l s = Some (s', l, paddr_to_kvaddr maps (vm_page_to_paddr p s')) \<and> taken [p] s s' \<and> pmm_ok s'"
proof -
  obtain s' where "pmm_alloc_pages 1 [] s = (s', [p], 1)" "taken [p] s s'" "pmm_ok s'"
    using pmm_alloc_pages_ok [OF assms(1), of 1 "[]"] unfolding assms(2) by auto
  then show ?thesis by (simp add: pmm_alloc_kpages_def pmm_alloc_page_def)
qed

theorem pmm_alloc_kpages_single_witness:
  "\<exists>s'. pmm_alloc_kpages [] 1 (Some []) demo_pmm = Some (s', Some [], None) \<and> free_pages s' \<noteq> free_pages demo_pmm"
proof -
  obtain s' where "pmm_alloc_kpages [] 1 (Some []) demo_pmm = Some (s', Some [], None)" "taken [0x100000] demo_pmm s'"
    using pmm_alloc_kpages_single [OF demo_pmm_ok demo_free, of "[]" "Some []"] by auto
  moreover from this(2) have "free_pages s' = free_pages demo_pmm - {0x100000}" "0x100000 \<in> free_pages demo_pmm"
    by (simp_all add: taken_free_pages) (simp add: taken_def)
  ultimately show ?thesis by blast
qed

section \<open>Allocation of a given range\<close>

lemma address_index:
  assumes w: "arena_wf a" and x: "ADDRESS_IN_ARENA x a"
  shows "(x - ar_base a) div PAGE_SIZE < ar_size a div PAGE_SIZE"
    "page_slot a ((x - ar_base a) div PAGE_SIZE) = slot a (unat ((x - ar_base a) div PAGE_SIZE))"
proof -
  have z: "0 < unat (ar_size a)" "4096 dvd unat (ar_size a)" "unat (ar_base a) + unat (ar_size a) \<le> 18446744073709551616"
    using w by (simp_all add: arena_wf_def)
  have m: "unat (ar_size a - 1) = unat (ar_size a) - 1" using z(1) by (simp add: unat_sub word_le_nat_alt)
  have "unat (ar_base a) + (unat (ar_size a) - 1) < 18446744073709551616" using z by linarith
  then have "unat (ar_base a + (ar_size a - 1)) = unat (ar_base a) + (unat (ar_size a) - 1)" unfolding unat_word_ariths(1) m by simp
  then have l: "unat x \<le> unat (ar_base a) + (unat (ar_size a) - 1)" "unat (ar_base a) \<le> unat x"
    using x by (simp_all add: ADDRESS_IN_ARENA_def word_le_nat_alt add_diff_eq)
  then have "unat (x - ar_base a) < unat (ar_size a)" using z(1) by (simp add: unat_sub word_le_nat_alt)
  then have "unat (x - ar_base a) div 4096 < unat (ar_size a) div 4096" using z(2) by (auto elim!: dvdE simp: div_less_iff_less_mult)
  then show "(x - ar_base a) div PAGE_SIZE < ar_size a div PAGE_SIZE" by (simp add: word_less_nat_alt unat_div)
  show "page_slot a ((x - ar_base a) div PAGE_SIZE) = slot a (unat ((x - ar_base a) div PAGE_SIZE))" by (simp add: slot_def)
qed

text \<open>\<open>pages_at ps x a\<close>: the pages \<open>ps\<close> are those of the consecutive addresses from \<open>x\<close> on, all in arena \<open>a\<close>.\<close>

fun pages_at :: "page_ptr list \<Rightarrow> paddr_t \<Rightarrow> pmm_arena \<Rightarrow> bool" where
  "pages_at [] x a \<longleftrightarrow> True"
| "pages_at (p # ps) x a \<longleftrightarrow> ADDRESS_IN_ARENA x a \<and> p = page_slot a ((x - ar_base a) div PAGE_SIZE) \<and> pages_at ps (x + PAGE_SIZE) a"

lemma pages_at_same: "same_arena a b \<Longrightarrow> pages_at ps x a = pages_at ps x b"
  by (induction ps arbitrary: x) (simp_all add: same_arena_def ADDRESS_IN_ARENA_def page_slot_def)

lemma range_from_ok:
  assumes "pmm_ok s" and "a \<in> set (arena_list s)"
  shows "\<exists>s' ps. range_from a n x l s = Some (s', l @ ps, n - length ps, x + of_nat (length ps) * PAGE_SIZE) \<and>
    length ps \<le> n \<and> pages_at ps x (arena s a) \<and> taken ps s s' \<and> pmm_ok s'"
  using assms
proof (induction n arbitrary: x l s)
  case 0
  then show ?case by (intro exI [of _ s] exI [of _ "[]"]) simp
next
  case (Suc n)
  let ?p = "page_slot (arena s a) ((x - ar_base (arena s a)) div PAGE_SIZE)"
  show ?case
  proof (cases "ADDRESS_IN_ARENA x (arena s a) \<and> page_is_free (page s ?p)")
    case False
    have "range_from a (Suc n) x l s = Some (s, l, Suc n, x)"
      using False address_index(1) [OF pmm_okD(2) [OF Suc.prems]] by auto
    then show ?thesis using Suc.prems by (intro exI [of _ s] exI [of _ "[]"]) simp
  next
    case True
    have w: "arena_wf (arena s a)" using pmm_okD(2) [OF Suc.prems] .
    define t where "t = take_page a ?p s"
    have ix: "(x - ar_base (arena s a)) div PAGE_SIZE < ar_size (arena s a) div PAGE_SIZE" "?p = slot (arena s a) (unat ((x - ar_base (arena s a)) div PAGE_SIZE))"
      using address_index [OF w] True by blast+
    have lt: "unat ((x - ar_base (arena s a)) div PAGE_SIZE) < npages (arena s a)"
      using ix(1) unfolding word_less_nat_alt npages_word .
    have l: "?p \<in> set (free_list (arena s a))" using free_slot_listed [OF Suc.prems lt] True unfolding ix(2) [symmetric] by blast
    then have lk: "pg_linked (page s ?p)" using pmm_okD(5) [OF Suc.prems] by blast
    have t: "pmm_ok t" "taken [?p] s t" unfolding t_def using take_page_taken [OF Suc.prems l] by simp_all
    then have at: "a \<in> set (arena_list t)" "same_arena (arena t a) (arena s a)" using Suc.prems(2) unfolding taken_def by simp_all
    obtain s' ps where s': "range_from a n (x + PAGE_SIZE) (l @ [?p]) t = Some (s', (l @ [?p]) @ ps, n - length ps, x + PAGE_SIZE + of_nat (length ps) * PAGE_SIZE)"
        "length ps \<le> n" "pages_at ps (x + PAGE_SIZE) (arena t a)" "taken ps t s'" "pmm_ok s'"
      using Suc.IH [OF t(1) at(1)] by blast
    have "range_from a (Suc n) x l s = range_from a n (x + PAGE_SIZE) (l @ [?p]) t"
      using True ix(1) lk by (simp add: Let_def t_def)
    then have "range_from a (Suc n) x l s = Some (s', l @ ?p # ps, Suc n - length (?p # ps), x + of_nat (length (?p # ps)) * PAGE_SIZE)"
      unfolding s'(1) by (simp add: algebra_simps)
    moreover have "taken (?p # ps) s s'" using taken_append [OF t(2) s'(4)] by simp
    ultimately show ?thesis using True s'(2,3,5) unfolding pages_at_same [OF at(2)]
      by (intro exI [of _ s'] exI [of _ "?p # ps"]) simp
  qed
qed

text \<open>\<open>pages_from ps x s\<close>: the pages \<open>ps\<close> are those of the consecutive addresses from \<open>x\<close> on, each in some arena.\<close>

fun pages_from :: "page_ptr list \<Rightarrow> paddr_t \<Rightarrow> pmm_state \<Rightarrow> bool" where
  "pages_from [] x s \<longleftrightarrow> True"
| "pages_from (p # ps) x s \<longleftrightarrow>
     (\<exists>a\<in>set (arena_list s). ADDRESS_IN_ARENA x (arena s a) \<and> p = page_slot (arena s a) ((x - ar_base (arena s a)) div PAGE_SIZE)) \<and>
     pages_from ps (x + PAGE_SIZE) s"

lemma pages_at_from: "a \<in> set (arena_list s) \<Longrightarrow> pages_at ps x (arena s a) \<Longrightarrow> pages_from ps x s"
  by (induction ps arbitrary: x) auto

lemma pages_from_append:
  "pages_from (ps @ qs) x s \<longleftrightarrow> pages_from ps x s \<and> pages_from qs (x + of_nat (length ps) * PAGE_SIZE) s"
  by (induction ps arbitrary: x) (simp_all add: algebra_simps)

lemma pages_from_taken:
  assumes "taken qs s s'"
  shows "pages_from ps x s' = pages_from ps x s"
proof (induction ps arbitrary: x)
  case (Cons p ps)
  have "ar_base (arena s' a) = ar_base (arena s a)" "ar_size (arena s' a) = ar_size (arena s a)"
    "page_array (arena s' a) = page_array (arena s a)" "arena_list s' = arena_list s" for a
    using assms by (simp_all add: taken_def same_arena_def)
  then show ?case using Cons by (simp add: ADDRESS_IN_ARENA_def page_slot_def)
qed simp

lemma range_arenas_ok:
  assumes "pmm_ok s" and "set as \<subseteq> set (arena_list s)"
  shows "\<exists>s' ps. range_arenas as n x l s = Some (s', l @ ps, n - length ps) \<and>
    length ps \<le> n \<and> pages_from ps x s \<and> taken ps s s' \<and> pmm_ok s'"
  using assms
proof (induction as arbitrary: n x l s)
  case Nil
  then show ?case by (intro exI [of _ s] exI [of _ "[]"]) simp
next
  case (Cons a as)
  have a: "a \<in> set (arena_list s)" using Cons.prems(2) by simp
  obtain t ps where t: "range_from a n x l s = Some (t, l @ ps, n - length ps, x + of_nat (length ps) * PAGE_SIZE)"
      "length ps \<le> n" "pages_at ps x (arena s a)" "taken ps s t" "pmm_ok t"
    using range_from_ok [OF Cons.prems(1) a] by blast
  have f: "pages_from ps x s" using pages_at_from [OF a t(3)] .
  show ?case
  proof (cases "n - length ps = 0")
    case True
    then show ?thesis using t f by (intro exI [of _ t] exI [of _ ps]) simp
  next
    case False
    have "set as \<subseteq> set (arena_list t)" using Cons.prems(2) t(4) by (simp add: taken_def)
    then obtain s' qs where s': "range_arenas as (n - length ps) (x + of_nat (length ps) * PAGE_SIZE) (l @ ps) t =
          Some (s', (l @ ps) @ qs, n - length ps - length qs)" "length qs \<le> n - length ps"
        "pages_from qs (x + of_nat (length ps) * PAGE_SIZE) t" "taken qs t s'" "pmm_ok s'"
      using Cons.IH [OF t(5)] by blast
    have "range_arenas (a # as) n x l s = Some (s', l @ (ps @ qs), n - length (ps @ qs))" using t(1) False s'(1) by simp
    moreover have "pages_from (ps @ qs) x s" using f s'(3) by (simp add: pages_from_append pages_from_taken [OF t(4)])
    moreover have "length (ps @ qs) \<le> n" using s'(2) t(2) by simp
    ultimately show ?thesis using taken_append [OF t(4) s'(4)] s'(5) by blast
  qed
qed

text \<open>
  C22: \<^verbatim>\<open>pmm_alloc_range\<close> takes only pages of the range: the pages it appends to the list, at most
  \<open>count\<close>, are those of consecutive addresses from the page-aligned start on; each was free
  and is now in use, and nothing else changes. None of its assertions fails.
\<close>

theorem pmm_alloc_range_takes:
  assumes "pmm_ok s"
  shows "\<exists>s' ps. pmm_alloc_range address count l s = Some (s', l @ ps, length ps) \<and> length ps \<le> unat count \<and>
    pages_from ps (ROUNDDOWN address PAGE_SIZE) s \<and> taken ps s s' \<and> pmm_ok s'"
proof (cases "count = 0")
  case True
  then show ?thesis using assms by (intro exI [of _ s] exI [of _ "[]"]) (simp add: pmm_alloc_range_def)
next
  case False
  then show ?thesis using range_arenas_ok [OF assms order_refl, of "unat count" "ROUNDDOWN address PAGE_SIZE" l]
    by (fastforce simp: pmm_alloc_range_def)
qed

theorem pmm_alloc_range_takes_witness:
  "\<exists>s' ps. pmm_alloc_range 0x2345 7 [] demo_pmm = Some (s', ps, length ps) \<and> length ps \<le> 7 \<and> pmm_ok s' \<and>
    pages_from ps (ROUNDDOWN 0x2345 PAGE_SIZE) demo_pmm"
  using pmm_alloc_range_takes [OF demo_pmm_ok, of "0x2345" 7 "[]"] by auto

section \<open>Pages and their addresses\<close>

lemma page_address:
  assumes w: "arena_wf a" and i: "i < npages a"
  shows "unat (PAGE_ADDRESS_FROM_ARENA (slot a i) a) = unat (ar_base a) + 4096 * i"
proof -
  have n: "i < npages a" "npages a * 4096 \<le> unat (ar_size a)" "unat (ar_base a) + unat (ar_size a) \<le> 18446744073709551616"
    using w i npages_bound(1) [of a] by (simp_all add: arena_wf_def)
  then have lt: "i < 4503599627370496" "unat (ar_base a) + 4096 * i < 18446744073709551616" by linarith+
  have u: "unat (of_nat i :: u64) = i" using lt(1) by (simp add: unat_of_nat take_bit_nat_eq_self)
  have "slot a i - page_array a = of_nat i * 24" by (simp add: slot_def page_slot_def)
  moreover have "unat (of_nat i * 24 :: u64) = i * 24" using lt(1) by (simp add: unat_word_ariths u)
  ultimately have "unat ((slot a i - page_array a) div 24) = i" by (simp add: unat_div)
  then have "(slot a i - page_array a) div 24 = of_nat i" by (metis of_nat_unat ucast_id)
  moreover have "unat (of_nat i * PAGE_SIZE :: u64) = i * 4096" using lt(1) by (simp add: unat_word_ariths u)
  ultimately show ?thesis using lt(2) by (simp add: PAGE_ADDRESS_FROM_ARENA_def unat_word_ariths)
qed

lemma managed_arena:
  assumes s: "pmm_ok s" and p: "p \<in> managed s"
  obtains a i where "a \<in> set (arena_list s)" "arena_wf (arena s a)" "i < npages (arena s a)" "p = slot (arena s a) i"
    "find (\<lambda>a. PAGE_BELONGS_TO_ARENA p (arena s a)) (arena_list s) = Some a"
proof -
  obtain a i where a: "a \<in> set (arena_list s)" "i < npages (arena s a)" "p = slot (arena s a) i" using p by (auto simp: managed_def)
  have w: "arena_wf (arena s a)" using pmm_okD(2) [OF s a(1)] .
  have "PAGE_BELONGS_TO_ARENA p (arena s a)" using slot_belongs [OF w a(2)] a(3) by simp
  then show ?thesis using find_arena [OF s a(1)] that a w by blast
qed

lemma page_paddr_aligned:
  assumes "pmm_ok s" and "p \<in> managed s"
  shows "IS_ALIGNED (vm_page_to_paddr p s) PAGE_SIZE"
proof -
  obtain a i where a: "arena_wf (arena s a)" "i < npages (arena s a)" "p = slot (arena s a) i"
      "find (\<lambda>a. PAGE_BELONGS_TO_ARENA p (arena s a)) (arena_list s) = Some a"
    using managed_arena [OF assms] by metis
  then have "unat (vm_page_to_paddr p s) = unat (ar_base (arena s a)) + 4096 * i" by (simp add: vm_page_to_paddr_def page_address)
  moreover have "4096 dvd unat (ar_base (arena s a))" using a(1) by (simp add: arena_wf_def)
  ultimately show ?thesis by (simp add: IS_ALIGNED_iff)
qed

text \<open>The address ranges of two arenas do not overlap.\<close>

definition arenas_disjoint :: "pmm_state \<Rightarrow> bool" where
  "arenas_disjoint s \<longleftrightarrow> (\<forall>a\<in>set (arena_list s). \<forall>b\<in>set (arena_list s). a \<noteq> b \<longrightarrow>
     unat (ar_base (arena s a)) + unat (ar_size (arena s a)) \<le> unat (ar_base (arena s b)) \<or>
     unat (ar_base (arena s b)) + unat (ar_size (arena s b)) \<le> unat (ar_base (arena s a)))"

lemma address_in_arena_iff:
  assumes "arena_wf a"
  shows "ADDRESS_IN_ARENA x a \<longleftrightarrow> unat (ar_base a) \<le> unat x \<and> unat x < unat (ar_base a) + unat (ar_size a)"
proof -
  have z: "0 < unat (ar_size a)" "unat (ar_base a) + unat (ar_size a) \<le> 18446744073709551616"
    using assms by (simp_all add: arena_wf_def)
  have m: "unat (ar_size a - 1) = unat (ar_size a) - 1" using z(1) by (simp add: unat_sub word_le_nat_alt)
  have "unat (ar_base a) + (unat (ar_size a) - 1) < 18446744073709551616" using z by linarith
  then have "unat (ar_base a + (ar_size a - 1)) = unat (ar_base a) + (unat (ar_size a) - 1)" unfolding unat_word_ariths(1) m by simp
  then show ?thesis using z(1) by (auto simp: ADDRESS_IN_ARENA_def word_le_nat_alt add_diff_eq)
qed

text \<open>
  C0: \<^verbatim>\<open>vm_page_to_paddr\<close> and \<^verbatim>\<open>paddr_to_vm_page\<close> are inverse to each other on the pages of the arenas, when
  no two arenas share physical addresses.
\<close>

theorem page_paddr_roundtrip:
  assumes "pmm_ok s" and "arenas_disjoint s" and "p \<in> managed s"
  shows "paddr_to_vm_page (vm_page_to_paddr p s) s = Some p"
proof -
  obtain a i where a: "a \<in> set (arena_list s)" "arena_wf (arena s a)" "i < npages (arena s a)" "p = slot (arena s a) i"
      "find (\<lambda>a. PAGE_BELONGS_TO_ARENA p (arena s a)) (arena_list s) = Some a"
    using managed_arena [OF assms(1,3)] by metis
  let ?x = "vm_page_to_paddr p s"
  have x: "unat ?x = unat (ar_base (arena s a)) + 4096 * i" using a by (simp add: vm_page_to_paddr_def page_address)
  have i: "4096 * i < unat (ar_size (arena s a))" using a(3) npages_bound(1) [of "arena s a"] by linarith
  have wf: "arena_wf (arena s b)" if "b \<in> set (arena_list s)" for b using pmm_okD(2) [OF assms(1) that] .
  have "find (\<lambda>b. ADDRESS_IN_ARENA ?x (arena s b)) (arena_list s) = Some a"
  proof -
    have "ADDRESS_IN_ARENA ?x (arena s b) \<longleftrightarrow> b = a" if "b \<in> set (arena_list s)" for b
      using assms(2) a(1) that x i unfolding address_in_arena_iff [OF wf [OF that]] arenas_disjoint_def by fastforce
    moreover have "\<lbrakk>\<And>b. b \<in> set l \<Longrightarrow> P b \<longleftrightarrow> b = a; a \<in> set l\<rbrakk> \<Longrightarrow> find P l = Some a" for P l by (induction l) auto
    ultimately show ?thesis using a(1) by metis
  qed
  moreover have "(?x - ar_base (arena s a)) div PAGE_SIZE = of_nat i"
  proof -
    have "unat (?x - ar_base (arena s a)) = 4096 * i" using x by (simp add: unat_sub word_le_nat_alt)
    then have "unat ((?x - ar_base (arena s a)) div PAGE_SIZE) = i" by (simp add: unat_div)
    then show ?thesis by (metis of_nat_unat ucast_id)
  qed
  ultimately show ?thesis using a(4) by (simp add: paddr_to_vm_page_def ADDRESS_IN_ARENA_def slot_def)
qed

theorem page_paddr_roundtrip_witness:
  "paddr_to_vm_page (vm_page_to_paddr 0x100030 demo_pmm) demo_pmm = Some 0x100030 \<and> vm_page_to_paddr 0x100030 demo_pmm = 0x3000"
proof -
  have l: "arena_list demo_pmm = [1]" by (simp add: demo_pmm_def)
  have "0x100030 \<in> managed demo_pmm" unfolding managed_def l using demo_slots(1) by simp
  moreover have "arenas_disjoint demo_pmm" by (simp add: arenas_disjoint_def l)
  moreover have "vm_page_to_paddr 0x100030 demo_pmm = 0x3000"
    by (simp add: vm_page_to_paddr_def PAGE_BELONGS_TO_ARENA_def PAGE_ADDRESS_FROM_ARENA_def demo_pmm_def shl1_def)
  ultimately show ?thesis using page_paddr_roundtrip [OF demo_pmm_ok] by blast
qed

end
