(* ===== verification/Vmm.thy ===== *)
theory Vmm
  imports Pmm
begin

text \<open>
  The virtual memory manager (\<^verbatim>\<open>kernel/vm/vmm.c\<close>, \<^verbatim>\<open>kernel/vm/vm.c\<close>): address spaces and their
  sorted lists of regions. The architecture's page tables (\<^verbatim>\<open>arch/mmu.h\<close>) are a parameter, a record
  of the functions \<^verbatim>\<open>vmm.c\<close> calls. Region and address space structures are known by their address;
  what \<^verbatim>\<open>calloc\<close> returned is an argument \<open>mem\<close> of each function that calls it. The mutex
  \<^verbatim>\<open>vmm_lock\<close> makes each call atomic.
\<close>

section \<open>State\<close>

abbreviation (input) VMM_ASPACE_FLAG_KERNEL :: u32 where "VMM_ASPACE_FLAG_KERNEL \<equiv> 1"
abbreviation (input) VMM_REGION_FLAG_RESERVED :: u32 where "VMM_REGION_FLAG_RESERVED \<equiv> 1"
abbreviation (input) VMM_REGION_FLAG_PHYSICAL :: u32 where "VMM_REGION_FLAG_PHYSICAL \<equiv> 2"
abbreviation (input) VMM_FLAG_VALLOC_SPECIFIC :: u32 where "VMM_FLAG_VALLOC_SPECIFIC \<equiv> 1"
abbreviation (input) ARCH_ASPACE_FLAG_KERNEL :: u32 where "ARCH_ASPACE_FLAG_KERNEL \<equiv> 1"
abbreviation (input) ARCH_MMU_FLAG_INVALID :: u32 where "ARCH_MMU_FLAG_INVALID \<equiv> 64"
abbreviation (input) IS_PAGE_ALIGNED :: "u64 \<Rightarrow> bool" where "IS_PAGE_ALIGNED x \<equiv> IS_ALIGNED x PAGE_SIZE"
abbreviation (input) USER_ASPACE_BASE :: vaddr_t where "USER_ASPACE_BASE \<equiv> 0x01000000"

record vmm_region =
  rg_name :: string
  rg_flags :: u32
  rg_mmu_flags :: u32
  rg_base :: vaddr_t
  rg_size :: u64
  rg_pages :: "page_ptr list"

record 'arch vmm_aspace =
  as_name :: string
  as_flags :: u32
  as_base :: vaddr_t
  as_size :: u64
  region_list :: "addr list"
  arch_aspace :: 'arch

text \<open>
  \<open>cur_aspace\<close> is the address space of the current thread and \<open>mmu_context\<close> the one loaded into the
  MMU; 0 is the null pointer.
\<close>

record 'arch vmm_state =
  pmm :: pmm_state
  aspace_list :: "addr list"
  aspace :: "addr \<Rightarrow> 'arch vmm_aspace"
  region :: "addr \<Rightarrow> vmm_region"
  cur_aspace :: addr
  mmu_context :: addr

text \<open>The functions of \<^verbatim>\<open>arch/mmu.h\<close>, and the kernel's part of the address space.\<close>

record 'arch arch_mmu =
  arch_mmu_init_aspace :: "vaddr_t \<Rightarrow> u64 \<Rightarrow> u32 \<Rightarrow> 'arch \<times> status_t"
  arch_mmu_map :: "'arch \<Rightarrow> vaddr_t \<Rightarrow> paddr_t \<Rightarrow> u32 \<Rightarrow> u32 \<Rightarrow> 'arch \<times> status_t"
  arch_mmu_unmap :: "'arch \<Rightarrow> vaddr_t \<Rightarrow> u32 \<Rightarrow> 'arch"
  arch_mmu_query :: "'arch \<Rightarrow> vaddr_t \<Rightarrow> paddr_t \<times> u32 \<times> status_t"
  KERNEL_ASPACE_BASE :: vaddr_t
  KERNEL_ASPACE_SIZE :: u64

definition aspace_upd :: "addr \<Rightarrow> ('arch vmm_aspace \<Rightarrow> 'arch vmm_aspace) \<Rightarrow> 'arch vmm_state \<Rightarrow> 'arch vmm_state" where
  "aspace_upd a f s = s\<lparr>aspace := (aspace s)(a := f (aspace s a))\<rparr>"

definition region_upd :: "addr \<Rightarrow> (vmm_region \<Rightarrow> vmm_region) \<Rightarrow> 'arch vmm_state \<Rightarrow> 'arch vmm_state" where
  "region_upd r f s = s\<lparr>region := (region s)(r := f (region s r))\<rparr>"

definition vmm_init_preheap :: "'arch arch_mmu \<Rightarrow> addr \<Rightarrow> 'arch vmm_state \<Rightarrow> 'arch vmm_state" where
  "vmm_init_preheap m kernel_aspace s =
     s\<lparr>aspace := (aspace s)(kernel_aspace :=
         \<lparr>as_name = ''kernel'', as_flags = VMM_ASPACE_FLAG_KERNEL, as_base = KERNEL_ASPACE_BASE m, as_size = KERNEL_ASPACE_SIZE m,
          region_list = [],
          arch_aspace = fst (arch_mmu_init_aspace m (KERNEL_ASPACE_BASE m) (KERNEL_ASPACE_SIZE m) ARCH_ASPACE_FLAG_KERNEL)\<rparr>),
       aspace_list := kernel_aspace # aspace_list s\<rparr>"

section \<open>Ranges of an address space\<close>

definition is_inside_aspace :: "'arch vmm_aspace \<Rightarrow> vaddr_t \<Rightarrow> bool" where
  "is_inside_aspace a vaddr \<longleftrightarrow> vaddr \<ge> as_base a \<and> vaddr \<le> as_base a + as_size a - 1"

definition is_region_inside_aspace :: "'arch vmm_aspace \<Rightarrow> vaddr_t \<Rightarrow> u64 \<Rightarrow> bool" where
  "is_region_inside_aspace a vaddr sz =
     (if \<not> is_inside_aspace a vaddr then False
      else if sz = 0 then True
      else if vaddr + sz - 1 < vaddr then False
      else if vaddr + sz - 1 > as_base a + as_size a - 1 then False
      else True)"

definition trim_to_aspace :: "'arch vmm_aspace \<Rightarrow> vaddr_t \<Rightarrow> u64 \<Rightarrow> u64 option" where
  "trim_to_aspace a vaddr sz = do {
     DEBUG_ASSERT (is_inside_aspace a vaddr);
     if sz = 0 then Some sz
     else do {
       let offset = vaddr - as_base a;
       let sz = (if offset + sz < offset then - 1 - offset - 1 else sz);
       Some (if offset + sz \<ge> as_size a - 1 then as_size a - offset else sz)
     }
   }"

section \<open>Placing a region\<close>

text \<open>A structure's name has room for 31 characters.\<close>

definition alloc_region_struct ::
  "addr option \<Rightarrow> string \<Rightarrow> vaddr_t \<Rightarrow> u64 \<Rightarrow> u32 \<Rightarrow> u32 \<Rightarrow> 'arch vmm_state \<Rightarrow> 'arch vmm_state \<times> addr option" where
  "alloc_region_struct mem name base sz flags arch_mmu_flags s =
     (case mem of
        None \<Rightarrow> (s, None)
      | Some r \<Rightarrow>
          (region_upd r (\<lambda>_. \<lparr>rg_name = take 31 name, rg_flags = flags, rg_mmu_flags = arch_mmu_flags,
             rg_base = base, rg_size = sz, rg_pages = []\<rparr>) s, Some r))"

text \<open>\<open>add_after r r_end R l\<close>: the walk for the place of \<open>r\<close> after an element of \<open>l\<close>.\<close>

fun add_after :: "addr \<Rightarrow> vaddr_t \<Rightarrow> (addr \<Rightarrow> vmm_region) \<Rightarrow> addr list \<Rightarrow> addr list option" where
  "add_after r r_end R [] = None"
| "add_after r r_end R (x # rest) =
     (if rg_base (R r) > rg_base (R x) + rg_size (R x) - 1 \<and>
         (case rest of [] \<Rightarrow> True | n # _ \<Rightarrow> r_end < rg_base (R n))
      then Some (x # r # rest)
      else map_option ((#) x) (add_after r r_end R rest))"

definition add_region_to_aspace :: "addr \<Rightarrow> addr \<Rightarrow> 'arch vmm_state \<Rightarrow> 'arch vmm_state \<times> status_t" where
  "add_region_to_aspace a r s =
     (let R = region s; l = region_list (aspace s a) in
      if rg_size (R r) = 0 \<or> \<not> is_region_inside_aspace (aspace s a) (rg_base (R r)) (rg_size (R r)) then (s, ERR_OUT_OF_RANGE)
      else
        let r_end = rg_base (R r) + rg_size (R r) - 1 in
        if (case l of [] \<Rightarrow> True | x # _ \<Rightarrow> r_end < rg_base (R x))
        then (aspace_upd a (\<lambda>x. x\<lparr>region_list := r # l\<rparr>) s, NO_ERROR)
        else case add_after r r_end R l of
            Some l' \<Rightarrow> (aspace_upd a (\<lambda>x. x\<lparr>region_list := l'\<rparr>) s, NO_ERROR)
          | None \<Rightarrow> (s, ERR_NO_MEMORY))"

text \<open>The default of \<^verbatim>\<open>arch_mmu_pick_spot\<close>, which an architecture may override.\<close>

definition arch_mmu_pick_spot ::
  "'arch \<Rightarrow> vaddr_t \<Rightarrow> u32 \<Rightarrow> vaddr_t \<Rightarrow> u32 \<Rightarrow> vaddr_t \<Rightarrow> u64 \<Rightarrow> u32 \<Rightarrow> vaddr_t" where
  "arch_mmu_pick_spot m base prev_flags gap_last next_flags align sz arch_mmu_flags = ALIGN base align"

text \<open>\<open>check_gap\<close> returns whether to stop the search and the new value of \<open>*pva\<close>.\<close>

definition check_gap ::
  "'arch vmm_aspace \<Rightarrow> vmm_region option \<Rightarrow> vmm_region option \<Rightarrow> vaddr_t \<Rightarrow> vaddr_t \<Rightarrow> u64 \<Rightarrow> u32 \<Rightarrow> bool \<times> vaddr_t" where
  "check_gap a prev nxt pva align sz arch_mmu_flags =
     (let gap_beg = (case prev of Some p \<Rightarrow> rg_base p + rg_size p | None \<Rightarrow> as_base a);
          flags = (\<lambda>r. case r of Some r \<Rightarrow> rg_mmu_flags r | None \<Rightarrow> ARCH_MMU_FLAG_INVALID);
          search = (\<lambda>gap_end.
            let pva = arch_mmu_pick_spot (arch_aspace a) gap_beg (flags prev) gap_end (flags nxt) align sz arch_mmu_flags in
            if pva < gap_beg then (True, - 1)
            else if pva < gap_end \<and> gap_end - pva + 1 \<ge> sz then (True, pva)
            else (False, pva))
      in case nxt of
           Some n \<Rightarrow> if gap_beg = rg_base n then (False, pva) else search (rg_base n - 1)
         | None \<Rightarrow> if gap_beg = as_base a + as_size a then (True, - 1) else search (as_base a + as_size a - 1))"

text \<open>
  \<open>alloc_spot\<close> returns the address and the place of the new region: \<open>Some None\<close> at the head of the
  list, \<open>Some (Some r)\<close> after \<open>r\<close>.
\<close>

fun spot_loop ::
  "'arch vmm_aspace \<Rightarrow> (addr \<Rightarrow> vmm_region) \<Rightarrow> vaddr_t \<Rightarrow> u64 \<Rightarrow> u32 \<Rightarrow> vaddr_t \<Rightarrow> addr list \<Rightarrow> vaddr_t \<times> addr option option" where
  "spot_loop a R align sz arch_mmu_flags spot [] = (- 1, None)"
| "spot_loop a R align sz arch_mmu_flags spot (r # rest) =
     (case check_gap a (Some (R r)) (case rest of [] \<Rightarrow> None | n # _ \<Rightarrow> Some (R n)) spot align sz arch_mmu_flags of
        (True, spot) \<Rightarrow> (spot, Some (Some r))
      | (False, spot) \<Rightarrow> spot_loop a R align sz arch_mmu_flags spot rest)"

definition alloc_spot ::
  "addr \<Rightarrow> u64 \<Rightarrow> nat \<Rightarrow> u32 \<Rightarrow> vaddr_t \<Rightarrow> 'arch vmm_state \<Rightarrow> (vaddr_t \<times> addr option option) option" where
  "alloc_spot a sz align_pow2 arch_mmu_flags spot s = do {
     DEBUG_ASSERT (sz > 0 \<and> IS_PAGE_ALIGNED sz);
     let align = shl1 (if align_pow2 < PAGE_SIZE_SHIFT then PAGE_SIZE_SHIFT else align_pow2);
     let l = region_list (aspace s a);
     (case check_gap (aspace s a) None (case l of [] \<Rightarrow> None | r # _ \<Rightarrow> Some (region s r)) spot align sz arch_mmu_flags of
        (True, spot) \<Rightarrow> Some (spot, Some None)
      | (False, spot) \<Rightarrow> Some (spot_loop (aspace s a) (region s) align sz arch_mmu_flags spot l))
   }"

fun insert_after :: "addr option \<Rightarrow> addr \<Rightarrow> addr list \<Rightarrow> addr list" where
  "insert_after None r l = r # l"
| "insert_after (Some b) r [] = []"
| "insert_after (Some b) r (x # l) = (if x = b then x # r # l else x # insert_after (Some b) r l)"

text \<open>The initial value of the variable \<^verbatim>\<open>spot\<close> is not defined by the code; it is never read.\<close>

definition alloc_region ::
  "addr option \<Rightarrow> addr \<Rightarrow> string \<Rightarrow> u64 \<Rightarrow> vaddr_t \<Rightarrow> nat \<Rightarrow> u32 \<Rightarrow> u32 \<Rightarrow> u32 \<Rightarrow> 'arch vmm_state \<Rightarrow> ('arch vmm_state \<times> addr option) option" where
  "alloc_region mem a name sz vaddr align_pow2 vmm_flags region_flags arch_mmu_flags s =
     (case alloc_region_struct mem name vaddr sz region_flags arch_mmu_flags s of
        (s, None) \<Rightarrow> Some (s, None)
      | (s, Some r) \<Rightarrow>
          if vmm_flags AND VMM_FLAG_VALLOC_SPECIFIC \<noteq> 0 then
            (case add_region_to_aspace a r s of (s, err) \<Rightarrow> Some (s, if err < 0 then None else Some r))
          else do {
            (vaddr, before) \<leftarrow> alloc_spot a sz align_pow2 arch_mmu_flags 0 s;
            if vaddr = - 1 then Some (s, None)
            else do {
              before \<leftarrow> before;
              Some (aspace_upd a (\<lambda>x. x\<lparr>region_list := insert_after before r (region_list x)\<rparr>)
                      (region_upd r (\<lambda>x. x\<lparr>rg_base := vaddr\<rparr>) s), Some r)
            }
          })"

section \<open>Removing regions\<close>

definition vmm_find_region :: "addr \<Rightarrow> vaddr_t \<Rightarrow> 'arch vmm_state \<Rightarrow> addr option" where
  "vmm_find_region a vaddr s =
     find (\<lambda>r. vaddr \<ge> rg_base (region s r) \<and> vaddr \<le> rg_base (region s r) + rg_size (region s r) - 1) (region_list (aspace s a))"

definition unmap_region :: "'arch arch_mmu \<Rightarrow> addr \<Rightarrow> addr \<Rightarrow> 'arch vmm_state \<Rightarrow> 'arch vmm_state" where
  "unmap_region m a r s =
     aspace_upd a (\<lambda>x. x\<lparr>arch_aspace :=
       arch_mmu_unmap m (arch_aspace x) (rg_base (region s r)) (ucast (rg_size (region s r) div PAGE_SIZE))\<rparr>) s"

definition vmm_remove_region_locked :: "'arch arch_mmu \<Rightarrow> addr \<Rightarrow> vaddr_t \<Rightarrow> 'arch vmm_state \<Rightarrow> 'arch vmm_state \<times> status_t \<times> addr option" where
  "vmm_remove_region_locked m a vaddr s =
     (case vmm_find_region a vaddr s of
        None \<Rightarrow> (s, ERR_NOT_FOUND, None)
      | Some r \<Rightarrow>
          let s = aspace_upd a (\<lambda>x. x\<lparr>region_list := remove1 r (region_list x)\<rparr>) s
          in (unmap_region m a r s, NO_ERROR, Some r))"

definition pmm_free_list :: "page_ptr list \<Rightarrow> 'arch vmm_state \<Rightarrow> 'arch vmm_state option" where
  "pmm_free_list ps s = map_option (\<lambda>(q, n). s\<lparr>pmm := q\<rparr>) (pmm_free ps (pmm s))"

definition vmm_free_region :: "'arch arch_mmu \<Rightarrow> addr \<Rightarrow> vaddr_t \<Rightarrow> 'arch vmm_state \<Rightarrow> ('arch vmm_state \<times> status_t) option" where
  "vmm_free_region m a vaddr s =
     (case vmm_remove_region_locked m a vaddr s of (s, err, r) \<Rightarrow>
        if err < NO_ERROR then Some (s, err)
        else do {
          r \<leftarrow> r;
          s \<leftarrow> pmm_free_list (rg_pages (region s r)) s;
          Some (region_upd r (\<lambda>x. x\<lparr>rg_pages := []\<rparr>) s, NO_ERROR)
        })"

text \<open>The error path of the allocators: the region just placed is removed again.\<close>

definition remove_placed :: "'arch arch_mmu \<Rightarrow> addr \<Rightarrow> addr \<Rightarrow> 'arch vmm_state \<Rightarrow> 'arch vmm_state option" where
  "remove_placed m a r s =
     (case vmm_remove_region_locked m a (rg_base (region s r)) s of (s, err2, r_temp) \<Rightarrow> do {
        DEBUG_ASSERT (err2 = NO_ERROR \<or> err2 = ERR_NOT_FOUND);
        DEBUG_ASSERT (r_temp = Some r);
        Some s
      })"

section \<open>Allocating regions\<close>

definition vmm_reserve_space ::
  "'arch arch_mmu \<Rightarrow> addr option \<Rightarrow> addr \<Rightarrow> string \<Rightarrow> u64 \<Rightarrow> vaddr_t \<Rightarrow> 'arch vmm_state \<Rightarrow> ('arch vmm_state \<times> status_t) option" where
  "vmm_reserve_space m mem a name sz vaddr s = do {
     DEBUG_ASSERT (IS_PAGE_ALIGNED vaddr);
     DEBUG_ASSERT (IS_PAGE_ALIGNED sz);
     if sz = 0 then Some (s, NO_ERROR)
     else if \<not> IS_PAGE_ALIGNED vaddr \<or> \<not> IS_PAGE_ALIGNED sz then Some (s, ERR_INVALID_ARGS)
     else if \<not> is_inside_aspace (aspace s a) vaddr then Some (s, ERR_OUT_OF_RANGE)
     else do {
       sz \<leftarrow> trim_to_aspace (aspace s a) vaddr sz;
       let arch_mmu_flags = (case arch_mmu_query m (arch_aspace (aspace s a)) vaddr of (_, flags, err) \<Rightarrow> if err < 0 then 0 else flags);
       (s, r) \<leftarrow> alloc_region mem a name sz vaddr 0 VMM_FLAG_VALLOC_SPECIFIC VMM_REGION_FLAG_RESERVED arch_mmu_flags s;
       Some (s, if r \<noteq> None then NO_ERROR else ERR_NO_MEMORY)
     }
   }"

text \<open>
  In the allocators \<open>ptr\<close> is \<open>None\<close> for a null pointer and otherwise holds \<open>*ptr\<close>; the new value is
  part of the result. \<open>map_range\<close> is a call of \<^verbatim>\<open>arch_mmu_map\<close>, whose count has 32 bits.
\<close>

definition map_range ::
  "'arch arch_mmu \<Rightarrow> addr \<Rightarrow> vaddr_t \<Rightarrow> paddr_t \<Rightarrow> u32 \<Rightarrow> u32 \<Rightarrow> 'arch vmm_state \<Rightarrow> 'arch vmm_state \<times> status_t" where
  "map_range m a va pa count arch_mmu_flags s =
     (case arch_mmu_map m (arch_aspace (aspace s a)) va pa count arch_mmu_flags of (t, err) \<Rightarrow>
        (aspace_upd a (\<lambda>x. x\<lparr>arch_aspace := t\<rparr>) s, err))"

definition vmm_alloc_physical ::
  "'arch arch_mmu \<Rightarrow> addr option \<Rightarrow> addr \<Rightarrow> string \<Rightarrow> u64 \<Rightarrow> vaddr_t option \<Rightarrow> nat \<Rightarrow> paddr_t \<Rightarrow> u32 \<Rightarrow> u32 \<Rightarrow> 'arch vmm_state
    \<Rightarrow> ('arch vmm_state \<times> vaddr_t option \<times> status_t) option" where
  "vmm_alloc_physical m mem a name sz ptr align_log2 paddr vmm_flags arch_mmu_flags s = do {
     DEBUG_ASSERT (IS_PAGE_ALIGNED paddr);
     DEBUG_ASSERT (IS_PAGE_ALIGNED sz);
     if sz = 0 then Some (s, ptr, NO_ERROR)
     else if \<not> IS_PAGE_ALIGNED paddr \<or> \<not> IS_PAGE_ALIGNED sz then Some (s, ptr, ERR_INVALID_ARGS)
     else if vmm_flags AND VMM_FLAG_VALLOC_SPECIFIC \<noteq> 0 \<and> ptr = None then Some (s, ptr, ERR_INVALID_ARGS)
     else do {
       let vaddr = (if vmm_flags AND VMM_FLAG_VALLOC_SPECIFIC \<noteq> 0 then the ptr else 0);
       (s, r) \<leftarrow> alloc_region mem a name sz vaddr align_log2 vmm_flags VMM_REGION_FLAG_PHYSICAL arch_mmu_flags s;
       (case r of
          None \<Rightarrow> Some (s, ptr, ERR_NO_MEMORY)
        | Some r \<Rightarrow>
            let ptr = map_option (\<lambda>_. rg_base (region s r)) ptr in
            (case map_range m a (rg_base (region s r)) paddr (ucast (sz div PAGE_SIZE)) arch_mmu_flags s of (s, err) \<Rightarrow>
               if err < NO_ERROR then map_option (\<lambda>s. (s, ptr, err)) (remove_placed m a r s)
               else Some (s, ptr, NO_ERROR)))
     }
   }"

definition vmm_alloc_contiguous ::
  "'arch arch_mmu \<Rightarrow> addr option \<Rightarrow> addr \<Rightarrow> string \<Rightarrow> u64 \<Rightarrow> vaddr_t option \<Rightarrow> nat \<Rightarrow> u32 \<Rightarrow> u32 \<Rightarrow> 'arch vmm_state
    \<Rightarrow> ('arch vmm_state \<times> vaddr_t option \<times> status_t) option" where
  "vmm_alloc_contiguous m mem a name sz ptr align_pow2 vmm_flags arch_mmu_flags s =
     (let sz = ROUNDUP sz PAGE_SIZE in
      if sz = 0 then Some (s, ptr, ERR_INVALID_ARGS)
      else if vmm_flags AND VMM_FLAG_VALLOC_SPECIFIC \<noteq> 0 \<and> ptr = None then Some (s, ptr, ERR_INVALID_ARGS)
      else do {
        let vaddr = (if vmm_flags AND VMM_FLAG_VALLOC_SPECIFIC \<noteq> 0 then the ptr else 0);
        (q, page_list, (count, pa)) \<leftarrow> pmm_alloc_contiguous (ucast (sz div PAGE_SIZE)) align_pow2 (Some []) (pmm s);
        page_list \<leftarrow> page_list;
        let s = s\<lparr>pmm := q\<rparr>;
        if count < unat (sz div PAGE_SIZE) then do {
          DEBUG_ASSERT (count = 0);
          Some (s, ptr, ERR_NO_MEMORY)
        }
        else do {
          (s, r) \<leftarrow> alloc_region mem a name sz vaddr align_pow2 vmm_flags VMM_REGION_FLAG_PHYSICAL arch_mmu_flags s;
          (case r of
             None \<Rightarrow> map_option (\<lambda>s. (s, ptr, ERR_NO_MEMORY)) (pmm_free_list page_list s)
           | Some r \<Rightarrow>
               let ptr = map_option (\<lambda>_. rg_base (region s r)) ptr in
               (case map_range m a (rg_base (region s r)) pa (ucast (sz div PAGE_SIZE)) arch_mmu_flags s of (s, err) \<Rightarrow>
                  if err < NO_ERROR then do {
                    s \<leftarrow> remove_placed m a r s;
                    s \<leftarrow> pmm_free_list page_list s;
                    Some (s, ptr, err)
                  }
                  else Some (region_upd r (\<lambda>x. x\<lparr>rg_pages := rg_pages x @ page_list\<rparr>) s, ptr, NO_ERROR)))
        }
      })"

text \<open>
  \<open>map_pages\<close> maps the pages one by one; a failure returns the error and the pages
  that are not in the region.
\<close>

fun map_pages ::
  "'arch arch_mmu \<Rightarrow> addr \<Rightarrow> addr \<Rightarrow> vaddr_t \<Rightarrow> u32 \<Rightarrow> page_ptr list \<Rightarrow> 'arch vmm_state
    \<Rightarrow> ('arch vmm_state \<times> (status_t \<times> page_ptr list) option) option" where
  "map_pages m a r va arch_mmu_flags [] s = Some (s, None)"
| "map_pages m a r va arch_mmu_flags (p # page_list) s = do {
     DEBUG_ASSERT (va \<le> rg_base (region s r) + rg_size (region s r) - 1);
     let pa = vm_page_to_paddr p (pmm s);
     DEBUG_ASSERT (IS_PAGE_ALIGNED pa);
     (case map_range m a va pa 1 arch_mmu_flags s of (s, err) \<Rightarrow>
        if err < NO_ERROR then Some (s, Some (err, page_list @ [p]))
        else map_pages m a r (va + PAGE_SIZE) arch_mmu_flags page_list (region_upd r (\<lambda>x. x\<lparr>rg_pages := rg_pages x @ [p]\<rparr>) s))
   }"

definition map_region ::
  "'arch arch_mmu \<Rightarrow> addr \<Rightarrow> addr \<Rightarrow> vaddr_t option \<Rightarrow> u32 \<Rightarrow> page_ptr list \<Rightarrow> 'arch vmm_state
    \<Rightarrow> ('arch vmm_state \<times> vaddr_t option \<times> status_t) option" where
  "map_region m a r ptr arch_mmu_flags page_list s = do {
     DEBUG_ASSERT (IS_PAGE_ALIGNED (rg_base (region s r)));
     (s, failed) \<leftarrow> map_pages m a r (rg_base (region s r)) arch_mmu_flags page_list s;
     (case failed of
        None \<Rightarrow> Some (s, map_option (\<lambda>_. rg_base (region s r)) ptr, NO_ERROR)
      | Some (err, page_list) \<Rightarrow> do {
          s \<leftarrow> remove_placed m a r s;
          s \<leftarrow> pmm_free_list (rg_pages (region s r)) s;
          s \<leftarrow> pmm_free_list page_list s;
          Some (s, ptr, err)
        })
   }"

definition vmm_alloc ::
  "'arch arch_mmu \<Rightarrow> addr option \<Rightarrow> addr \<Rightarrow> string \<Rightarrow> u64 \<Rightarrow> vaddr_t option \<Rightarrow> nat \<Rightarrow> u32 \<Rightarrow> u32 \<Rightarrow> 'arch vmm_state
    \<Rightarrow> ('arch vmm_state \<times> vaddr_t option \<times> status_t) option" where
  "vmm_alloc m mem a name sz ptr align_pow2 vmm_flags arch_mmu_flags s =
     (let sz = ROUNDUP sz PAGE_SIZE in
      if sz = 0 then Some (s, ptr, ERR_INVALID_ARGS)
      else if vmm_flags AND VMM_FLAG_VALLOC_SPECIFIC \<noteq> 0 \<and> ptr = None then Some (s, ptr, ERR_INVALID_ARGS)
      else
        let vaddr = (if vmm_flags AND VMM_FLAG_VALLOC_SPECIFIC \<noteq> 0 then the ptr else 0) in
        (case pmm_alloc_pages (ucast (sz div PAGE_SIZE)) [] (pmm s) of (q, page_list, count) \<Rightarrow>
         let s = s\<lparr>pmm := q\<rparr> in
         if \<not> count \<le> unat sz then None
         else if count < unat (sz div PAGE_SIZE) then map_option (\<lambda>s. (s, ptr, ERR_NO_MEMORY)) (pmm_free_list page_list s)
         else do {
           (s, r) \<leftarrow> alloc_region mem a name sz vaddr align_pow2 vmm_flags VMM_REGION_FLAG_PHYSICAL arch_mmu_flags s;
           (case r of
              None \<Rightarrow> map_option (\<lambda>s. (s, ptr, ERR_NO_MEMORY)) (pmm_free_list page_list s)
            | Some r \<Rightarrow> map_region m a r ptr arch_mmu_flags page_list s)
         }))"

section \<open>Address spaces\<close>

definition USER_ASPACE_SIZE :: "'arch arch_mmu \<Rightarrow> u64" where
  "USER_ASPACE_SIZE m = KERNEL_ASPACE_BASE m - USER_ASPACE_BASE - 0x01000000"

text \<open>The name is \<open>None\<close> for a null pointer; the result has the new structure's address on success.\<close>

definition vmm_create_aspace ::
  "'arch arch_mmu \<Rightarrow> addr option \<Rightarrow> string option \<Rightarrow> u32 \<Rightarrow> 'arch vmm_state \<Rightarrow> 'arch vmm_state \<times> status_t \<times> addr option" where
  "vmm_create_aspace m mem name flags s =
     (case mem of
        None \<Rightarrow> (s, ERR_NO_MEMORY, None)
      | Some a \<Rightarrow>
          let kern = flags AND VMM_ASPACE_FLAG_KERNEL \<noteq> 0;
              base = (if kern then KERNEL_ASPACE_BASE m else USER_ASPACE_BASE);
              sz = (if kern then KERNEL_ASPACE_SIZE m else USER_ASPACE_SIZE m)
          in case arch_mmu_init_aspace m base sz (if kern then ARCH_ASPACE_FLAG_KERNEL else 0) of (t, err) \<Rightarrow>
             if err < 0 then (s, err, None)
             else (s\<lparr>aspace := (aspace s)(a := \<lparr>as_name = take 31 (case name of Some n \<Rightarrow> n | None \<Rightarrow> ''unnamed''), as_flags = flags,
                       as_base = base, as_size = sz, region_list = [], arch_aspace = t\<rparr>),
                     aspace_list := a # aspace_list s\<rparr>, NO_ERROR, Some a))"

definition vmm_context_switch :: "addr \<Rightarrow> 'arch vmm_state \<Rightarrow> 'arch vmm_state" where
  "vmm_context_switch newaspace s = s\<lparr>mmu_context := newaspace\<rparr>"

fun unmap_all :: "'arch arch_mmu \<Rightarrow> addr \<Rightarrow> addr list \<Rightarrow> 'arch vmm_state \<Rightarrow> 'arch vmm_state" where
  "unmap_all m a [] s = aspace_upd a (\<lambda>x. x\<lparr>region_list := []\<rparr>) s"
| "unmap_all m a (r # rs) s = unmap_all m a rs (unmap_region m a r (aspace_upd a (\<lambda>x. x\<lparr>region_list := rs\<rparr>) s))"

fun free_regions :: "addr list \<Rightarrow> 'arch vmm_state \<Rightarrow> 'arch vmm_state option" where
  "free_regions [] s = Some s"
| "free_regions (r # rs) s = do {
     s \<leftarrow> pmm_free_list (rg_pages (region s r)) s;
     free_regions rs (region_upd r (\<lambda>x. x\<lparr>rg_pages := []\<rparr>) s)
   }"

definition vmm_free_aspace :: "'arch arch_mmu \<Rightarrow> addr \<Rightarrow> 'arch vmm_state \<Rightarrow> ('arch vmm_state \<times> status_t) option" where
  "vmm_free_aspace m a s =
     (if a \<notin> set (aspace_list s) then Some (s, ERR_INVALID_ARGS)
      else do {
        let s = s\<lparr>aspace_list := remove1 a (aspace_list s)\<rparr>;
        let rs = region_list (aspace s a);
        s \<leftarrow> free_regions rs (unmap_all m a rs s);
        Some (if cur_aspace s = a then vmm_context_switch 0 (s\<lparr>cur_aspace := 0\<rparr>) else s, NO_ERROR)
      })"

definition vmm_set_active_aspace :: "addr \<Rightarrow> 'arch vmm_state \<Rightarrow> 'arch vmm_state \<times> addr" where
  "vmm_set_active_aspace a s =
     (if a = cur_aspace s then (s, a)
      else (vmm_context_switch a (s\<lparr>cur_aspace := a\<rparr>), cur_aspace s))"

section \<open>Kernel addresses\<close>

definition is_kernel_address :: "'arch arch_mmu \<Rightarrow> vaddr_t \<Rightarrow> bool" where
  "is_kernel_address m va \<longleftrightarrow> va \<ge> KERNEL_ASPACE_BASE m \<and> va \<le> KERNEL_ASPACE_BASE m + (KERNEL_ASPACE_SIZE m - 1)"

definition is_user_address :: "'arch arch_mmu \<Rightarrow> vaddr_t \<Rightarrow> bool" where
  "is_user_address m va \<longleftrightarrow> va \<ge> USER_ASPACE_BASE \<and> va \<le> USER_ASPACE_BASE + (USER_ASPACE_SIZE m - 1)"

definition vaddr_to_aspace :: "'arch arch_mmu \<Rightarrow> addr \<Rightarrow> vaddr_t \<Rightarrow> 'arch vmm_state \<Rightarrow> addr" where
  "vaddr_to_aspace m kernel_aspace ptr s =
     (if is_kernel_address m ptr then kernel_aspace
      else if is_user_address m ptr then cur_aspace s
      else 0)"

definition vaddr_to_paddr :: "'arch arch_mmu \<Rightarrow> addr \<Rightarrow> vaddr_t \<Rightarrow> 'arch vmm_state \<Rightarrow> paddr_t" where
  "vaddr_to_paddr m kernel_aspace ptr s =
     (let a = vaddr_to_aspace m kernel_aspace ptr s in
      if a = 0 then 0
      else case arch_mmu_query m (arch_aspace (aspace s a)) ptr of (pa, flags, rc) \<Rightarrow> if rc \<noteq> 0 then 0 else pa)"

definition kvaddr_get_range :: "mmu_initial_mapping list \<Rightarrow> (vaddr_t \<times> u64) option" where
  "kvaddr_get_range maps = (case maps of [] \<Rightarrow> None | x # _ \<Rightarrow> Some (map_virt x, map_size x))"

text \<open>\<open>mark_pages\<close>: the loop over the \<open>n\<close> pages from \<open>va\<close> on; a page that is not mapped is a panic.\<close>

fun mark_pages :: "'arch arch_mmu \<Rightarrow> addr \<Rightarrow> vaddr_t \<Rightarrow> nat \<Rightarrow> page_ptr list \<Rightarrow> 'arch vmm_state \<Rightarrow> 'arch vmm_state option" where
  "mark_pages m kernel_aspace va 0 l s = Some s"
| "mark_pages m kernel_aspace va (Suc n) l s =
     (case arch_mmu_query m (arch_aspace (aspace s kernel_aspace)) va of (pa, flags, err) \<Rightarrow>
        if err \<ge> 0 then do {
          (q, l, _) \<leftarrow> pmm_alloc_range pa 1 l (pmm s);
          mark_pages m kernel_aspace (va + PAGE_SIZE) n l (s\<lparr>pmm := q\<rparr>)
        }
        else None)"

definition mark_pages_in_use :: "'arch arch_mmu \<Rightarrow> addr \<Rightarrow> vaddr_t \<Rightarrow> u64 \<Rightarrow> 'arch vmm_state \<Rightarrow> 'arch vmm_state option" where
  "mark_pages_in_use m kernel_aspace va len s =
     (let len = ALIGN (len + (va AND (PAGE_SIZE - 1))) PAGE_SIZE
      in mark_pages m kernel_aspace (ROUNDDOWN va PAGE_SIZE) (unat (len div PAGE_SIZE)) [] s)"

definition vm_init_preheap :: "'arch arch_mmu \<Rightarrow> addr \<Rightarrow> vaddr_t \<Rightarrow> vaddr_t \<Rightarrow> vaddr_t \<Rightarrow> 'arch vmm_state \<Rightarrow> 'arch vmm_state option" where
  "vm_init_preheap m kernel_aspace kstart kend boot_alloc_start s = do {
     s \<leftarrow> mark_pages_in_use m kernel_aspace kstart (kend - kstart) (vmm_init_preheap m kernel_aspace s);
     if boot_alloc_end (pmm s) \<noteq> boot_alloc_start
     then mark_pages_in_use m kernel_aspace boot_alloc_start (boot_alloc_end (pmm s) - boot_alloc_start) s
     else Some s
   }"

text \<open>\<open>mem\<close> gives what \<^verbatim>\<open>calloc\<close> returns for each mapping reserved.\<close>

fun vm_init_postheap ::
  "'arch arch_mmu \<Rightarrow> addr \<Rightarrow> (mmu_initial_mapping \<Rightarrow> addr option) \<Rightarrow> mmu_initial_mapping list \<Rightarrow> 'arch vmm_state \<Rightarrow> 'arch vmm_state option" where
  "vm_init_postheap m kernel_aspace mem [] s = Some s"
| "vm_init_postheap m kernel_aspace mem (x # maps) s =
     (if map_size x > 0 then
        if \<not> (map_flags x AND MMU_INITIAL_MAPPING_TEMPORARY \<noteq> 0) then do {
          (s, _) \<leftarrow> vmm_reserve_space m (mem x) kernel_aspace (map_name x) (map_size x) (map_virt x) s;
          vm_init_postheap m kernel_aspace mem maps s
        }
        else vm_init_postheap m kernel_aspace mem maps s
      else Some s)"

section \<open>Well-formed address spaces\<close>

definition rstart :: "vmm_region \<Rightarrow> nat" where "rstart x = unat (rg_base x)"
definition rend :: "vmm_region \<Rightarrow> nat" where "rend x = unat (rg_base x) + unat (rg_size x)"
definition astart :: "'arch vmm_aspace \<Rightarrow> nat" where "astart a = unat (as_base a)"
definition aend :: "'arch vmm_aspace \<Rightarrow> nat" where "aend a = unat (as_base a) + unat (as_size a)"

definition aspace_wf :: "'arch vmm_aspace \<Rightarrow> bool" where
  "aspace_wf a \<longleftrightarrow> astart a < aend a \<and> aend a \<le> 18446744073709551616"

definition region_in :: "'arch vmm_aspace \<Rightarrow> vmm_region \<Rightarrow> bool" where
  "region_in a x \<longleftrightarrow> rstart x < rend x \<and> astart a \<le> rstart x \<and> rend x \<le> aend a"

text \<open>The regions are inside the address space, sorted and disjoint.\<close>

definition regions_ok :: "'arch vmm_aspace \<Rightarrow> (addr \<Rightarrow> vmm_region) \<Rightarrow> addr list \<Rightarrow> bool" where
  "regions_ok a R l \<longleftrightarrow> aspace_wf a \<and> sorted_wrt (\<lambda>x y. rend (R x) \<le> rstart (R y)) l \<and> (\<forall>r\<in>set l. region_in a (R r))"

lemma u64_bound: "unat (x :: u64) < 18446744073709551616"
  using unsigned_less [of x, where ?'a = nat] by simp

lemma unat_last:
  fixes b z :: u64
  assumes "0 < unat z" "unat b + unat z \<le> 18446744073709551616"
  shows "unat (b + z - 1) = unat b + unat z - 1"
proof -
  have z: "unat (z - 1) = unat z - 1" using assms(1) by (simp add: unat_sub word_le_nat_alt)
  have "unat b + (unat z - 1) < 18446744073709551616" using assms by linarith
  then have "unat (b + (z - 1)) = unat b + (unat z - 1)" unfolding unat_word_ariths(1) z by simp
  then show ?thesis using assms(1) by (simp add: add_diff_eq)
qed

lemma unat_last_wraps:
  fixes b z :: u64
  assumes "18446744073709551616 < unat b + unat z"
  shows "b + z - 1 < b"
proof -
  have b: "unat b < 18446744073709551616" using unsigned_less [of b, where ?'a = nat] by simp
  have z: "unat (z - 1) = unat z - 1" using assms b by (simp add: unat_sub word_le_nat_alt)
  have lt: "unat z < 18446744073709551616" using unsigned_less [of z, where ?'a = nat] by simp
  have "unat (b + (z - 1)) = (unat b + (unat z - 1)) mod 18446744073709551616" unfolding unat_word_ariths(1) z by simp
  also have "\<dots> = unat b + (unat z - 1) - 18446744073709551616" using assms b lt by (simp add: mod_if)
  finally show ?thesis using assms lt by (simp add: word_less_nat_alt add_diff_eq)
qed

lemma inside_aspace_iff:
  assumes "aspace_wf a"
  shows "is_inside_aspace a v \<longleftrightarrow> astart a \<le> unat v \<and> unat v < aend a"
proof -
  have "unat (as_base a + as_size a - 1) = aend a - 1" "0 < aend a"
    using assms unat_last [of "as_size a" "as_base a"] by (auto simp: aspace_wf_def aend_def astart_def)
  then show ?thesis unfolding is_inside_aspace_def word_le_nat_alt astart_def by auto
qed

lemma region_inside_iff:
  assumes w: "aspace_wf a" and z: "0 < unat sz"
  shows "is_region_inside_aspace a v sz \<longleftrightarrow> astart a \<le> unat v \<and> unat v + unat sz \<le> aend a"
proof (cases "unat v + unat sz \<le> 18446744073709551616")
  case True
  have l: "unat (as_base a + as_size a - 1) = aend a - 1" "0 < aend a" "unat (v + sz - 1) = unat v + unat sz - 1"
    using w unat_last [of "as_size a" "as_base a"] unat_last [OF z True] by (auto simp: aspace_wf_def aend_def astart_def)
  have "sz \<noteq> 0" using z by auto
  then have "is_region_inside_aspace a v sz \<longleftrightarrow>
      (astart a \<le> unat v \<and> unat v < aend a) \<and> \<not> unat v + unat sz - 1 < unat v \<and> \<not> aend a - 1 < unat v + unat sz - 1"
    unfolding is_region_inside_aspace_def inside_aspace_iff [OF w] word_less_nat_alt l by auto
  then show ?thesis using z by auto
next
  case False
  then have "v + sz - 1 < v" by (intro unat_last_wraps) simp
  moreover have "sz \<noteq> 0" using z by auto
  ultimately have "\<not> is_region_inside_aspace a v sz" by (simp add: is_region_inside_aspace_def)
  then show ?thesis using False w by (auto simp: aspace_wf_def)
qed

lemma region_last:
  assumes "aspace_wf a" "region_in a x"
  shows "unat (rg_base x + rg_size x - 1) = rend x - 1" "0 < rend x"
  using assms unat_last [of "rg_size x" "rg_base x"] by (auto simp: region_in_def rend_def rstart_def aspace_wf_def)

text \<open>\<open>clear R v z l\<close>: the range of \<open>z\<close> bytes at \<open>v\<close> meets none of the regions.\<close>

definition clear :: "(addr \<Rightarrow> vmm_region) \<Rightarrow> nat \<Rightarrow> nat \<Rightarrow> addr list \<Rightarrow> bool" where
  "clear R v z l \<longleftrightarrow> (\<forall>r\<in>set l. v + z \<le> rstart (R r) \<or> rend (R r) \<le> v)"

lemma regions_ok_insert:
  assumes "regions_ok a R (l1 @ l2)" and "region_in a (R r)" and "\<forall>x\<in>set l1. rend (R x) \<le> rstart (R r)"
    and "\<forall>x\<in>set l2. rend (R r) \<le> rstart (R x)"
  shows "regions_ok a R (l1 @ r # l2)"
  using assms by (auto simp: regions_ok_def sorted_wrt_append)

text \<open>In a sorted list the regions before a clear range all end before it.\<close>

lemma clear_split:
  assumes "regions_ok a R l" and "clear R v z l" and "0 < z"
  shows "\<exists>l1 l2. l = l1 @ l2 \<and> (\<forall>x\<in>set l1. rend (R x) \<le> v) \<and> (\<forall>x\<in>set l2. v + z \<le> rstart (R x))"
  using assms
proof (induction l)
  case (Cons x l)
  have x: "rstart (R x) < rend (R x)" and ok: "regions_ok a R l" and cl: "clear R v z l" and le: "\<forall>y\<in>set l. rend (R x) \<le> rstart (R y)"
    using Cons.prems by (auto simp: regions_ok_def clear_def region_in_def)
  show ?case
  proof (cases "rend (R x) \<le> v")
    case True
    obtain l1 l2 where "l = l1 @ l2" "\<forall>x\<in>set l1. rend (R x) \<le> v" "\<forall>x\<in>set l2. v + z \<le> rstart (R x)"
      using Cons.IH [OF ok cl Cons.prems(3)] by blast
    then show ?thesis using True by (intro exI [of _ "x # l1"] exI [of _ l2]) simp
  next
    case False
    then have "v + z \<le> rstart (R x)" using Cons.prems(2) by (auto simp: clear_def)
    then show ?thesis using le x by (intro exI [of _ "[]"] exI [of _ "x # l"]) auto
  qed
qed simp

section \<open>Placing at a given address\<close>

abbreviation (input) between :: "(addr \<Rightarrow> vmm_region) \<Rightarrow> nat \<Rightarrow> nat \<Rightarrow> addr list \<Rightarrow> addr list \<Rightarrow> bool" where
  "between R v e l1 l2 \<equiv> (\<forall>x\<in>set l1. rend (R x) \<le> v) \<and> (\<forall>x\<in>set l2. e \<le> rstart (R x))"

lemma add_after_ok:
  assumes "regions_ok a R l" and r: "region_in a (R r)" "unat r_end = rend (R r) - 1"
  shows "case add_after r r_end R l of
      Some l' \<Rightarrow> \<exists>l1 l2. l1 \<noteq> [] \<and> l = l1 @ l2 \<and> l' = l1 @ r # l2 \<and> between R (rstart (R r)) (rend (R r)) l1 l2
    | None \<Rightarrow> l = [] \<or> rend (R r) \<le> rstart (R (hd l)) \<or> (\<exists>x\<in>set l. rstart (R r) < rend (R x) \<and> rstart (R x) < rend (R r))"
  using assms(1)
proof (induction l)
  case (Cons x l)
  have w: "aspace_wf a" and x: "region_in a (R x)" and ok: "regions_ok a R l" and le: "\<forall>y\<in>set l. rend (R x) \<le> rstart (R y)"
    using Cons.prems by (auto simp: regions_ok_def)
  have r_pos: "rstart (R r) < rend (R r)" using r(1) by (simp add: region_in_def)
  have "rg_base (R r) > rg_base (R x) + rg_size (R x) - 1 \<longleftrightarrow> rend (R x) \<le> rstart (R r)"
    using region_last [OF w x] by (auto simp: word_less_nat_alt rstart_def)
  moreover have "r_end < rg_base (R n) \<longleftrightarrow> rend (R r) \<le> rstart (R n)" for n
    unfolding word_less_nat_alt r(2) rstart_def using r_pos by auto
  ultimately have step: "add_after r r_end R (x # l) =
      (if rend (R x) \<le> rstart (R r) \<and> (l = [] \<or> rend (R r) \<le> rstart (R (hd l))) then Some (x # r # l)
       else map_option ((#) x) (add_after r r_end R l))"
    by (cases l) simp_all
  show ?case
  proof (cases "rend (R x) \<le> rstart (R r) \<and> (l = [] \<or> rend (R r) \<le> rstart (R (hd l)))")
    case True
    have "\<forall>y\<in>set l. rend (R r) \<le> rstart (R y)"
      using True ok by (cases l) (auto simp: regions_ok_def region_in_def)
    then have "\<exists>l1 l2. l1 \<noteq> [] \<and> x # l = l1 @ l2 \<and> x # r # l = l1 @ r # l2 \<and> between R (rstart (R r)) (rend (R r)) l1 l2"
      using True by (intro exI [of _ "[x]"] exI [of _ l]) simp
    then show ?thesis using True step by simp
  next
    case False
    show ?thesis
    proof (cases "add_after r r_end R l")
      case None
      have "rend (R r) \<le> rstart (R x) \<or> (\<exists>y\<in>set (x # l). rstart (R r) < rend (R y) \<and> rstart (R y) < rend (R r))"
        using Cons.IH [OF ok] False unfolding None by fastforce
      then show ?thesis using None step False by simp
    next
      case (Some l')
      then obtain l1 l2 where l: "l1 \<noteq> []" "l = l1 @ l2" "l' = l1 @ r # l2" "between R (rstart (R r)) (rend (R r)) l1 l2"
        using Cons.IH [OF ok] by auto
      have "rend (R x) \<le> rstart (R r)"
      proof (cases l1)
        case Nil
        then show ?thesis using l(1) by simp
      next
        case (Cons y ys)
        then have "rend (R x) \<le> rstart (R y)" "rend (R y) \<le> rstart (R r)" "region_in a (R y)" using le l ok by (auto simp: regions_ok_def)
        then show ?thesis by (simp add: region_in_def)
      qed
      then have "\<exists>l1' l2. l1' \<noteq> [] \<and> x # l = l1' @ l2 \<and> x # l' = l1' @ r # l2 \<and> between R (rstart (R r)) (rend (R r)) l1' l2"
        using l by (intro exI [of _ "x # l1"] exI [of _ l2]) simp
      then show ?thesis using Some step False by simp
    qed
  qed
qed simp

lemma aspace_upd_simps [simp]:
  "pmm (aspace_upd a f s) = pmm s" "aspace_list (aspace_upd a f s) = aspace_list s" "region (aspace_upd a f s) = region s"
  "cur_aspace (aspace_upd a f s) = cur_aspace s" "mmu_context (aspace_upd a f s) = mmu_context s"
  "aspace (aspace_upd a f s) b = (if b = a then f (aspace s a) else aspace s b)"
  by (simp_all add: aspace_upd_def)

lemma region_upd_simps [simp]:
  "pmm (region_upd r f s) = pmm s" "aspace_list (region_upd r f s) = aspace_list s" "aspace (region_upd r f s) = aspace s"
  "cur_aspace (region_upd r f s) = cur_aspace s" "mmu_context (region_upd r f s) = mmu_context s"
  "region (region_upd r f s) x = (if x = r then f (region s r) else region s x)"
  by (simp_all add: region_upd_def)

lemma add_region_ok:
  assumes ok: "regions_ok (aspace s a) (region s) (region_list (aspace s a))" and r: "0 < unat (rg_size (region s r))"
  shows "region_in (aspace s a) (region s r) \<and>
      (\<exists>l1 l2. region_list (aspace s a) = l1 @ l2 \<and> between (region s) (rstart (region s r)) (rend (region s r)) l1 l2 \<and>
        add_region_to_aspace a r s = (aspace_upd a (\<lambda>x. x\<lparr>region_list := l1 @ r # l2\<rparr>) s, NO_ERROR)) \<or>
    \<not> (region_in (aspace s a) (region s r) \<and>
       clear (region s) (rstart (region s r)) (unat (rg_size (region s r))) (region_list (aspace s a))) \<and>
      (\<exists>err<0. add_region_to_aspace a r s = (s, err))"
proof -
  let ?R = "region s" and ?a = "aspace s a" and ?l = "region_list (aspace s a)"
  let ?e = "rg_base (?R r) + rg_size (?R r) - 1"
  have w: "aspace_wf ?a" using ok by (simp add: regions_ok_def)
  have nz: "rg_size (?R r) \<noteq> 0" using r by auto
  have in_iff: "is_region_inside_aspace ?a (rg_base (?R r)) (rg_size (?R r)) \<longleftrightarrow> region_in ?a (?R r)"
    unfolding region_inside_iff [OF w r] region_in_def rstart_def rend_def using r by auto
  show ?thesis
  proof (cases "region_in ?a (?R r)")
    case False
    then show ?thesis using in_iff nz by (simp add: add_region_to_aspace_def Let_def)
  next
    case True
    have e: "unat ?e = rend (?R r) - 1" "0 < rend (?R r)" using region_last [OF w True] .
    have front: "?e < rg_base (?R n) \<longleftrightarrow> rend (?R r) \<le> rstart (?R n)" for n
      unfolding word_less_nat_alt e(1) rstart_def using e(2) by auto
    show ?thesis
    proof (cases "?l = [] \<or> rend (?R r) \<le> rstart (?R (hd ?l))")
      case f: True
      then have "(case ?l of [] \<Rightarrow> True | x # _ \<Rightarrow> ?e < rg_base (?R x))" using front by (cases ?l) simp_all
      then have "add_region_to_aspace a r s = (aspace_upd a (\<lambda>x. x\<lparr>region_list := [] @ r # ?l\<rparr>) s, NO_ERROR)"
        using in_iff nz True by (simp add: add_region_to_aspace_def Let_def)
      moreover have "\<forall>x\<in>set ?l. rend (?R r) \<le> rstart (?R x)"
        using f ok by (cases ?l) (auto simp: regions_ok_def region_in_def)
      ultimately show ?thesis using True by (intro disjI1 conjI exI [of _ "[]"] exI [of _ ?l]) simp_all
    next
      case f: False
      then have c: "\<not> (case ?l of [] \<Rightarrow> True | x # _ \<Rightarrow> ?e < rg_base (?R x))" using front by (cases ?l) simp_all
      show ?thesis
      proof (cases "add_after r ?e ?R ?l")
        case None
        have "add_region_to_aspace a r s = (s, ERR_NO_MEMORY)"
          using in_iff nz True c None by (simp add: add_region_to_aspace_def Let_def)
        moreover have "\<not> clear ?R (rstart (?R r)) (unat (rg_size (?R r))) ?l"
          using add_after_ok [OF ok True e(1)] f None by (fastforce simp: clear_def rend_def rstart_def)
        ultimately show ?thesis by simp
      next
        case (Some l')
        then have "add_region_to_aspace a r s = (aspace_upd a (\<lambda>x. x\<lparr>region_list := l'\<rparr>) s, NO_ERROR)"
          using in_iff nz True c by (simp add: add_region_to_aspace_def Let_def)
        then show ?thesis using add_after_ok [OF ok True e(1)] True unfolding Some by fastforce
      qed
    qed
  qed
qed

section \<open>Choosing an address\<close>

lemma ROUNDUP_least:
  fixes x :: u64
  assumes p: "p < 64" and v: "2 ^ p dvd v" "unat x \<le> v" "v < 18446744073709551616"
  shows "unat x + (2 ^ p - 1) < 2 ^ 64" "unat (ROUNDUP x (shl1 p)) \<le> v"
proof -
  define P :: nat where "P = 2 ^ p"
  define g where "g = unat x"
  have P: "0 < P" "P dvd 18446744073709551616"
    using p le_imp_power_dvd [of p 64 "2 :: nat"] by (simp_all add: P_def)
  have "v + P \<le> 18446744073709551616"
  proof (rule ccontr)
    assume "\<not> v + P \<le> 18446744073709551616"
    then have "0 < 18446744073709551616 - v" "18446744073709551616 - v < P" using v(3) by linarith+
    moreover have "P dvd 18446744073709551616 - v" using P(2) v(1) unfolding P_def by (rule dvd_diff_nat)
    ultimately show False using nat_dvd_not_less by blast
  qed
  then have "g + (P - 1) < 18446744073709551616" using v(2) P(1) unfolding g_def by linarith
  then show no: "unat x + (2 ^ p - 1) < 2 ^ 64" by (simp add: g_def P_def)
  have R: "unat (ROUNDUP x (shl1 p)) < g + P" "P dvd unat (ROUNDUP x (shl1 p))"
    using ROUNDUP_bounds(2,3) [of p x] p no by (simp_all add: g_def P_def)
  show "unat (ROUNDUP x (shl1 p)) \<le> v"
  proof (rule ccontr)
    assume "\<not> unat (ROUNDUP x (shl1 p)) \<le> v"
    then have "0 < unat (ROUNDUP x (shl1 p)) - v" "unat (ROUNDUP x (shl1 p)) - v < P" using R(1) v(2) unfolding g_def by linarith+
    moreover have "P dvd unat (ROUNDUP x (shl1 p)) - v" using R(2) v(1) unfolding P_def by (rule dvd_diff_nat)
    ultimately show False using nat_dvd_not_less by blast
  qed
qed

definition gap_start :: "'arch vmm_aspace \<Rightarrow> vmm_region option \<Rightarrow> nat" where
  "gap_start a prev = (case prev of None \<Rightarrow> astart a | Some x \<Rightarrow> rend x)"

definition gap_end :: "'arch vmm_aspace \<Rightarrow> vmm_region option \<Rightarrow> nat" where
  "gap_end a nxt = (case nxt of None \<Rightarrow> aend a | Some x \<Rightarrow> rstart x)"

text \<open>The test of one gap, whose first and last byte are \<open>b\<close> and \<open>e - 1\<close>.\<close>

lemma gap_test:
  fixes b ge :: u64
  assumes p: "12 \<le> p" "p < 64" and z: "4096 \<le> unat sz" and b: "unat b < e" "e \<le> 18446744073709551616" "unat ge = e - 1"
    and small: "0 < unat b \<or> e < 18446744073709551616"
  defines "A \<equiv> ROUNDUP b (shl1 p)"
  shows "A < b \<Longrightarrow> 2 ^ p dvd v \<Longrightarrow> unat b \<le> v \<Longrightarrow> v < 18446744073709551616 \<Longrightarrow> False"
    "\<not> A < b \<Longrightarrow> A < ge \<and> ge - A + 1 \<ge> sz \<Longrightarrow> 2 ^ p dvd unat A \<and> unat b \<le> unat A \<and> unat A + unat sz \<le> e \<and> A \<noteq> - 1"
    "\<not> A < b \<Longrightarrow> \<not> (A < ge \<and> ge - A + 1 \<ge> sz) \<Longrightarrow> 2 ^ p dvd v \<Longrightarrow> unat b \<le> v \<Longrightarrow> v + unat sz \<le> e \<Longrightarrow> False"
    "2 ^ p dvd v \<Longrightarrow> unat b \<le> v \<Longrightarrow> v < 18446744073709551616 \<Longrightarrow> unat A \<le> v"
proof -
  have least: "unat b + (2 ^ p - 1) < 2 ^ 64 \<and> unat A \<le> v" if "2 ^ p dvd v" "unat b \<le> v" "v < 18446744073709551616" for v
    using ROUNDUP_least [OF p(2) that] unfolding A_def by blast
  then show "2 ^ p dvd v \<Longrightarrow> unat b \<le> v \<Longrightarrow> v < 18446744073709551616 \<Longrightarrow> unat A \<le> v" by blast
  have lower: "unat b \<le> unat A" "2 ^ p dvd unat A" if "unat b + (2 ^ p - 1) < 2 ^ 64"
    using ROUNDUP_bounds(1,3) [of p b] p that unfolding A_def by simp_all
  show "A < b \<Longrightarrow> 2 ^ p dvd v \<Longrightarrow> unat b \<le> v \<Longrightarrow> v < 18446744073709551616 \<Longrightarrow> False"
    using least [of v] lower(1) unfolding word_less_nat_alt by linarith
  have nowrap: "unat b + (2 ^ p - 1) < 2 ^ 64" if "\<not> A < b"
  proof (rule ccontr)
    assume "\<not> unat b + (2 ^ p - 1) < 2 ^ 64"
    then have "A = 0" "0 < unat b" using ROUNDUP_wraps [of p b] p unfolding A_def by simp_all
    then show False using that by (simp add: word_less_nat_alt)
  qed
  have fit: "A < ge \<and> ge - A + 1 \<ge> sz \<longleftrightarrow> unat A + unat sz \<le> e" if nb: "\<not> A < b"
  proof -
    have bA: "unat b \<le> unat A" using lower(1) [OF nowrap [OF nb]] .
    show ?thesis
    proof (cases "A < ge")
      case True
      then have lt: "unat A < e - 1" unfolding word_less_nat_alt b(3) .
      have "unat (ge - A) = e - 1 - unat A" using lt b(3) by (simp add: unat_sub word_le_nat_alt)
      moreover have "e - 1 - unat A + 1 < 18446744073709551616" using lt b(1,2) small bA by linarith
      ultimately have "unat (ge - A + 1) = e - unat A" using lt by (simp add: unat_word_ariths)
      then show ?thesis using True lt by (auto simp: word_le_nat_alt)
    next
      case False
      then have "\<not> unat A < e - 1" unfolding word_less_nat_alt b(3) .
      then show ?thesis using False z b(1) by auto
    qed
  qed
  show "\<not> A < b \<Longrightarrow> A < ge \<and> ge - A + 1 \<ge> sz \<Longrightarrow> 2 ^ p dvd unat A \<and> unat b \<le> unat A \<and> unat A + unat sz \<le> e \<and> A \<noteq> - 1"
  proof -
    assume n: "\<not> A < b" and "A < ge \<and> ge - A + 1 \<ge> sz"
    then have f: "unat A + unat sz \<le> e" using fit by blast
    then have "unat A \<noteq> 18446744073709551615" using z b(2) by linarith
    moreover have "unat (- 1 :: u64) = 18446744073709551615" by (simp add: unsigned_minus_1_eq_mask mask_eq_exp_minus_1)
    ultimately have "A \<noteq> - 1" by metis
    then show "2 ^ p dvd unat A \<and> unat b \<le> unat A \<and> unat A + unat sz \<le> e \<and> A \<noteq> - 1" using f lower [OF nowrap [OF n]] by blast
  qed
  show "\<not> A < b \<Longrightarrow> \<not> (A < ge \<and> ge - A + 1 \<ge> sz) \<Longrightarrow> 2 ^ p dvd v \<Longrightarrow> unat b \<le> v \<Longrightarrow> v + unat sz \<le> e \<Longrightarrow> False"
  proof -
    assume "\<not> A < b" "\<not> (A < ge \<and> ge - A + 1 \<ge> sz)" and v: "2 ^ p dvd v" "unat b \<le> v" "v + unat sz \<le> e"
    then have "\<not> unat A + unat sz \<le> e" using fit by blast
    moreover have "v < 18446744073709551616" using v(3) z b(2) by linarith
    ultimately show False using least [OF v(1,2)] v(3) by linarith
  qed
qed

definition gap_result :: "nat \<Rightarrow> nat \<Rightarrow> nat \<Rightarrow> nat \<Rightarrow> nat \<Rightarrow> bool \<times> vaddr_t \<Rightarrow> bool" where
  "gap_result p z g e hi r \<longleftrightarrow> (case r of (stop, v) \<Rightarrow>
     stop \<and> v \<noteq> - 1 \<and> 2 ^ p dvd unat v \<and> g \<le> unat v \<and> unat v + z \<le> e \<and>
       (\<forall>x. 2 ^ p dvd x \<and> g \<le> x \<and> x + z \<le> hi \<longrightarrow> unat v \<le> x) \<or>
     stop \<and> v = - 1 \<and> (\<forall>x. 2 ^ p dvd x \<and> g \<le> x \<longrightarrow> \<not> x + z \<le> hi) \<or>
     \<not> stop \<and> (\<forall>x. 2 ^ p dvd x \<and> g \<le> x \<longrightarrow> \<not> x + z \<le> e))"

lemma gap_search:
  fixes b ge :: u64
  assumes "12 \<le> p" "p < 64" "4096 \<le> unat sz" "unat b < e" "e \<le> hi" "hi \<le> 18446744073709551616" "unat ge = e - 1"
    "0 < unat b \<or> e < 18446744073709551616"
  shows "gap_result p (unat sz) (unat b) e hi
    (let v = ROUNDUP b (shl1 p) in if v < b then (True, - 1) else if v < ge \<and> ge - v + 1 \<ge> sz then (True, v) else (False, v))"
proof -
  have e: "e \<le> 18446744073709551616" using assms(5,6) by simp
  have hi: "x < 18446744073709551616" if "x + unat sz \<le> hi" for x using that assms(3,6) by linarith
  note t = gap_test [OF assms(1-4) e assms(7,8)]
  let ?v = "ROUNDUP b (shl1 p) :: u64"
  consider "?v < b" | "\<not> ?v < b" "?v < ge \<and> ge - ?v + 1 \<ge> sz" | "\<not> ?v < b" "\<not> (?v < ge \<and> ge - ?v + 1 \<ge> sz)" by blast
  then show ?thesis
  proof cases
    case 1
    then show ?thesis using t(1) hi unfolding gap_result_def Let_def by auto
  next
    case 2
    then show ?thesis using t(2) [OF 2] t(4) hi unfolding gap_result_def Let_def by simp
  next
    case 3
    then show ?thesis using t(3) [OF 3] unfolding gap_result_def Let_def by auto
  qed
qed

lemma unat_region_end:
  fixes b z :: u64
  assumes "unat b + unat z < 18446744073709551616"
  shows "unat (b + z) = unat b + unat z"
  using assms by (simp add: unat_word_ariths)

lemma unat_region_top:
  fixes b z :: u64
  assumes "unat b + unat z = 18446744073709551616"
  shows "b + z = 0"
proof -
  have "unat (b + z) = unat (0 :: u64)" unfolding unat_word_ariths(1) using assms by simp
  then show ?thesis by (rule word_unat_eq_iff [THEN iffD2])
qed

lemma check_gap_ok:
  assumes w: "aspace_wf a" and pr: "\<And>x. prev = Some x \<Longrightarrow> region_in a x" and nx: "\<And>x. nxt = Some x \<Longrightarrow> region_in a x"
    and g: "gap_start a prev \<le> gap_end a nxt" and p: "12 \<le> p" "p < 64" and z: "4096 \<le> unat sz"
  shows "gap_result p (unat sz) (gap_start a prev) (gap_end a nxt) (aend a) (check_gap a prev nxt pva (shl1 p) sz flags)"
proof -
  let ?b = "case prev of Some p \<Rightarrow> rg_base p + rg_size p | None \<Rightarrow> as_base a"
  have a: "astart a < aend a" "aend a \<le> 18446744073709551616" "unat (as_base a + as_size a - 1) = aend a - 1"
    using w unat_last [of "as_size a" "as_base a"] by (auto simp: aspace_wf_def aend_def astart_def)
  have eq: "check_gap a prev nxt pva (shl1 p) sz flags =
      (let search = (\<lambda>ge. let v = ROUNDUP ?b (shl1 p) in
             if v < ?b then (True, - 1) else if v < ge \<and> ge - v + 1 \<ge> sz then (True, v) else (False, v))
       in case nxt of Some n \<Rightarrow> if ?b = rg_base n then (False, pva) else search (rg_base n - 1)
        | None \<Rightarrow> if ?b = as_base a + as_size a then (True, - 1) else search (as_base a + as_size a - 1))"
    by (simp add: check_gap_def arch_mmu_pick_spot_def ALIGN_def Let_def)
  have end_le: "gap_end a nxt \<le> aend a" using nx by (cases nxt) (auto simp: gap_end_def region_in_def)
  have start_pos: "0 < gap_start a prev \<or> aend a < 18446744073709551616"
  proof (cases prev)
    case None
    have "unat (as_size a) < 18446744073709551616" by (rule u64_bound)
    then show ?thesis using None by (auto simp: gap_start_def astart_def aend_def)
  next
    case (Some x)
    then show ?thesis using pr [OF Some] by (simp add: gap_start_def region_in_def)
  qed
  have b: "unat ?b = gap_start a prev" if "gap_start a prev < 18446744073709551616"
  proof (cases prev)
    case (Some x)
    then have "unat (rg_base x + rg_size x) = rend x" using that unfolding rend_def by (intro unat_region_end) (simp add: gap_start_def rend_def)
    then show ?thesis using Some by (simp add: gap_start_def)
  qed (simp add: gap_start_def astart_def)
  have b0: "?b = 0" "prev \<noteq> None" if g64: "gap_start a prev = 18446744073709551616"
  proof -
    have "unat (as_base a) \<noteq> 18446744073709551616" using u64_bound [of "as_base a"] by linarith
    then obtain x where x: "prev = Some x" "rend x = 18446744073709551616" using g64 by (cases prev) (simp_all add: gap_start_def astart_def)
    then show "?b = 0" "prev \<noteq> None" using unat_region_top [of "rg_base x" "rg_size x"] by (simp_all add: rend_def)
  qed
  show ?thesis
  proof (cases nxt)
    case (Some n)
    have n: "rstart n < 18446744073709551616" unfolding rstart_def by (rule u64_bound)
    have e: "gap_end a nxt = rstart n" by (simp add: gap_end_def Some)
    have ub: "unat ?b = gap_start a prev" using b g n e by simp
    show ?thesis
    proof (cases "?b = rg_base n")
      case True
      then have "gap_start a prev = rstart n" using ub by (simp add: rstart_def)
      then show ?thesis unfolding eq using Some True e z by (auto simp: gap_result_def Let_def)
    next
      case False
      then have "unat ?b \<noteq> rstart n" unfolding rstart_def using word_unat_eq_iff [of ?b "rg_base n"] by argo
      then have lt: "unat ?b < rstart n" using ub g e by simp
      then have "unat (rg_base n - 1) = rstart n - 1" by (simp add: rstart_def unat_sub word_le_nat_alt)
      then show ?thesis using gap_search [OF p z lt _ a(2), of "rg_base n - 1"] end_le n e ub False Some unfolding eq by simp
    qed
  next
    case None
    have e: "gap_end a nxt = aend a" by (simp add: gap_end_def None)
    show ?thesis
    proof (cases "gap_start a prev = aend a")
      case True
      have "?b = as_base a + as_size a"
      proof (cases "aend a < 18446744073709551616")
        case True
        then show ?thesis using b \<open>gap_start a prev = aend a\<close> by (intro word_unat_eq_iff [THEN iffD2]) (simp add: aend_def unat_region_end)
      next
        case False
        then have "aend a = 18446744073709551616" using a(2) by simp
        then show ?thesis using b0(1) True unat_region_top [of "as_base a" "as_size a"] by (simp add: aend_def)
      qed
      then show ?thesis unfolding eq using None True e z by (auto simp: gap_result_def Let_def)
    next
      case False
      then have lt: "gap_start a prev < aend a" using g e by simp
      then have ub: "unat ?b = gap_start a prev" using b a(2) by simp
      have "?b \<noteq> as_base a + as_size a"
      proof (cases "aend a < 18446744073709551616")
        case True
        then have "unat (as_base a + as_size a) = aend a" unfolding aend_def by (rule unat_region_end)
        then show ?thesis using ub False by metis
      next
        case False
        then have "as_base a + as_size a = 0" "0 < unat ?b" using unat_region_top [of "as_base a" "as_size a"] a(2) start_pos ub by (simp_all add: aend_def)
        then show ?thesis by auto
      qed
      then show ?thesis using gap_search [OF p z _ order_refl a(2) a(3), of ?b] lt ub start_pos None e unfolding eq by simp
    qed
  qed
qed

text \<open>
  \<open>spot p z a R l v\<close>: an aligned address of \<open>z\<close> bytes that are inside the address space and free.
\<close>

definition spot :: "nat \<Rightarrow> nat \<Rightarrow> 'arch vmm_aspace \<Rightarrow> (addr \<Rightarrow> vmm_region) \<Rightarrow> addr list \<Rightarrow> nat \<Rightarrow> bool" where
  "spot p z a R l v \<longleftrightarrow> 2 ^ p dvd v \<and> astart a \<le> v \<and> v + z \<le> aend a \<and> clear R v z l"

definition spot_result ::
  "nat \<Rightarrow> nat \<Rightarrow> 'arch vmm_aspace \<Rightarrow> (addr \<Rightarrow> vmm_region) \<Rightarrow> addr list \<Rightarrow> vaddr_t \<times> addr option option \<Rightarrow> bool" where
  "spot_result p z a R l r \<longleftrightarrow> (case r of (v, before) \<Rightarrow>
     if v = - 1 then \<forall>x. \<not> spot p z a R l x
     else spot p z a R l (unat v) \<and> (\<forall>x. spot p z a R l x \<longrightarrow> unat v \<le> x) \<and>
       (\<exists>b l1 l2. before = Some b \<and> l = l1 @ l2 \<and> between R (unat v) (unat v + z) l1 l2 \<and>
          (case b of None \<Rightarrow> l1 = [] | Some y \<Rightarrow> \<exists>l0. l1 = l0 @ [y])))"

text \<open>The decision for one gap between \<open>l1\<close> and \<open>l2\<close>, when no free address is below the gap.\<close>

lemma gap_decides:
  assumes ok: "regions_ok a R (l1 @ l2)" and z: "0 < z" and p: "12 \<le> p"
    and g: "g = gap_start a (if l1 = [] then None else Some (R (last l1)))"
    and e: "e = gap_end a (if l2 = [] then None else Some (R (hd l2)))"
    and low: "\<And>x. spot p z a R (l1 @ l2) x \<Longrightarrow> g \<le> x"
    and r: "gap_result p z g e (aend a) (stop, v)"
  shows "stop \<Longrightarrow> spot_result p z a R (l1 @ l2) (v, Some (if l1 = [] then None else Some (last l1)))"
    "\<not> stop \<Longrightarrow> l2 = [] \<Longrightarrow> \<not> spot p z a R (l1 @ l2) x"
    "\<not> stop \<Longrightarrow> l2 = y # ys \<Longrightarrow> spot p z a R (l1 @ l2) x \<Longrightarrow> rend (R y) \<le> x"
proof -
  have before: "rend (R x) \<le> g" if x: "x \<in> set l1" for x
  proof -
    obtain l0 y where y: "l1 = l0 @ [y]" using x by (cases l1 rule: rev_cases) auto
    have "rend (R x) \<le> rend (R y)" using x ok unfolding y by (auto simp: regions_ok_def sorted_wrt_append region_in_def)
    then show ?thesis using g y by (simp add: gap_start_def)
  qed
  have after: "e \<le> rstart (R x)" if x: "x \<in> set l2" for x
  proof -
    obtain y ys where y: "l2 = y # ys" using x by (cases l2) auto
    have "rstart (R y) \<le> rstart (R x)" using x ok unfolding y by (auto simp: regions_ok_def sorted_wrt_append region_in_def)
    then show ?thesis using e y by (simp add: gap_end_def)
  qed
  have ea: "e \<le> aend a" using ok e by (cases l2) (auto simp: gap_end_def regions_ok_def region_in_def)
  have ga: "astart a \<le> g"
    using ok g by (cases l1 rule: rev_cases) (auto simp: gap_start_def regions_ok_def region_in_def)
  have here: "spot p z a R (l1 @ l2) x" "between R x (x + z) l1 l2" if "2 ^ p dvd x" "g \<le> x" "x + z \<le> e" for x
    using that before after ea ga by (fastforce simp: spot_def clear_def)+
  show "stop \<Longrightarrow> spot_result p z a R (l1 @ l2) (v, Some (if l1 = [] then None else Some (last l1)))"
  proof -
    assume stop
    then consider "v = - 1" "\<forall>x. 2 ^ p dvd x \<and> g \<le> x \<longrightarrow> \<not> x + z \<le> aend a"
      | "v \<noteq> - 1" "2 ^ p dvd unat v" "g \<le> unat v" "unat v + z \<le> e" "\<forall>x. 2 ^ p dvd x \<and> g \<le> x \<and> x + z \<le> aend a \<longrightarrow> unat v \<le> x"
      using r unfolding gap_result_def by auto
    then show "spot_result p z a R (l1 @ l2) (v, Some (if l1 = [] then None else Some (last l1)))"
    proof cases
      case 1
      then have "\<not> spot p z a R (l1 @ l2) x" for x using low [of x] by (auto simp: spot_def)
      then show ?thesis using 1 by (simp add: spot_result_def)
    next
      case 2
      have "\<forall>x. spot p z a R (l1 @ l2) x \<longrightarrow> unat v \<le> x" using 2(5) low by (auto simp: spot_def)
      moreover have "case (if l1 = [] then None else Some (last l1)) of None \<Rightarrow> l1 = [] | Some y \<Rightarrow> \<exists>l0. l1 = l0 @ [y]"
        by (cases l1 rule: rev_cases) auto
      ultimately show ?thesis using 2(1) here [OF 2(2-4)] unfolding spot_result_def prod.case if_not_P [OF 2(1)] by blast
    qed
  qed
  have gap: "\<not> x + z \<le> e" if "\<not> stop" "spot p z a R (l1 @ l2) x" for x
    using that r low [of x] by (auto simp: gap_result_def spot_def)
  show "\<not> stop \<Longrightarrow> l2 = [] \<Longrightarrow> \<not> spot p z a R (l1 @ l2) x"
    using gap [of x] e by (auto simp: gap_end_def spot_def)
  show "\<not> stop \<Longrightarrow> l2 = y # ys \<Longrightarrow> spot p z a R (l1 @ l2) x \<Longrightarrow> rend (R y) \<le> x"
    using gap [of x] e by (auto simp: gap_end_def spot_def clear_def)
qed

lemma gap_ordered:
  assumes "regions_ok a R (l1 @ l2)"
  shows "gap_start a (if l1 = [] then None else Some (R (last l1))) \<le> gap_end a (if l2 = [] then None else Some (R (hd l2)))"
  using assms by (cases l1 rule: rev_cases; cases l2)
    (auto simp: regions_ok_def sorted_wrt_append gap_start_def gap_end_def region_in_def aspace_wf_def)

lemma spot_loop_ok:
  assumes "regions_ok a R (l0 @ r # l)" and p: "12 \<le> p" "p < 64" and z: "4096 \<le> unat sz"
    and "\<And>x. spot p (unat sz) a R (l0 @ r # l) x \<Longrightarrow> rend (R r) \<le> x"
  shows "spot_result p (unat sz) a R (l0 @ r # l) (spot_loop a R (shl1 p) sz flags pva (r # l))"
  using assms(1,5)
proof (induction l arbitrary: l0 r pva)
  case Nil
  note c = check_gap_ok [of a "Some (R r)" None p sz pva flags]
  have ok: "regions_ok a R ((l0 @ [r]) @ [])" using Nil.prems(1) by simp
  obtain stop v where sv: "check_gap a (Some (R r)) None pva (shl1 p) sz flags = (stop, v)" by fastforce
  have res: "gap_result p (unat sz) (gap_start a (Some (R r))) (gap_end a None) (aend a) (stop, v)"
    using c gap_ordered [OF ok] ok p z unfolding sv by (simp add: regions_ok_def)
  note d = gap_decides [OF ok _ p(1) _ _ _ res]
  show ?case
  proof (cases stop)
    case True
    then show ?thesis using d(1) Nil.prems(2) z sv by (simp add: gap_start_def)
  next
    case False
    then have "\<not> spot p (unat sz) a R (l0 @ [r]) x" for x using d(2) Nil.prems(2) z by (simp add: gap_start_def)
    then show ?thesis using False sv by (simp add: spot_result_def)
  qed
next
  case (Cons n l)
  note c = check_gap_ok [of a "Some (R r)" "Some (R n)" p sz pva flags]
  have ok: "regions_ok a R ((l0 @ [r]) @ n # l)" using Cons.prems(1) by simp
  obtain stop v where sv: "check_gap a (Some (R r)) (Some (R n)) pva (shl1 p) sz flags = (stop, v)" by fastforce
  have res: "gap_result p (unat sz) (gap_start a (Some (R r))) (gap_end a (Some (R n))) (aend a) (stop, v)"
    using c gap_ordered [OF ok] ok p z unfolding sv by (simp add: regions_ok_def)
  note d = gap_decides [OF ok _ p(1) _ _ _ res]
  show ?case
  proof (cases stop)
    case True
    then show ?thesis using d(1) Cons.prems(2) z sv by (simp add: gap_start_def)
  next
    case False
    then have "rend (R n) \<le> x" if "spot p (unat sz) a R ((l0 @ [r]) @ n # l) x" for x
      using d(3) [of n l x] Cons.prems(2) that z by (simp add: gap_start_def)
    then have "spot_result p (unat sz) a R ((l0 @ [r]) @ n # l) (spot_loop a R (shl1 p) sz flags v (n # l))"
      using Cons.IH ok by blast
    then show ?thesis using False sv by simp
  qed
qed

lemma alloc_spot_ok:
  assumes ok: "regions_ok (aspace s a) (region s) (region_list (aspace s a))"
    and z: "0 < unat sz" "4096 dvd unat sz" and al: "al < 64"
  shows "\<exists>r. alloc_spot a sz al flags pva s = Some r \<and>
    spot_result (max 12 al) (unat sz) (aspace s a) (region s) (region_list (aspace s a)) r"
proof -
  let ?a = "aspace s a" and ?R = "region s" and ?l = "region_list (aspace s a)" and ?p = "max 12 al"
  have p: "12 \<le> ?p" "?p < 64" using al by simp_all
  have z4: "4096 \<le> unat sz" using z by (simp add: dvd_imp_le)
  have "sz > 0" using z(1) by (simp add: word_less_nat_alt)
  moreover have "IS_PAGE_ALIGNED sz" using z(2) by (simp add: IS_ALIGNED_iff)
  moreover have "(if al < PAGE_SIZE_SHIFT then PAGE_SIZE_SHIFT else al) = ?p" by simp
  ultimately have ev: "alloc_spot a sz al flags pva s =
      (case check_gap ?a None (if ?l = [] then None else Some (?R (hd ?l))) pva (shl1 ?p) sz flags of
         (True, v) \<Rightarrow> Some (v, Some None)
       | (False, v) \<Rightarrow> Some (spot_loop ?a ?R (shl1 ?p) sz flags v ?l))"
    unfolding alloc_spot_def by (cases ?l) (simp_all add: Let_def split: prod.split bool.split)
  obtain stop v where sv: "check_gap ?a None (if ?l = [] then None else Some (?R (hd ?l))) pva (shl1 ?p) sz flags = (stop, v)" by fastforce
  have ok': "regions_ok ?a ?R ([] @ ?l)" using ok by simp
  have low: "gap_start ?a None \<le> x" if "spot ?p (unat sz) ?a ?R ([] @ ?l) x" for x using that by (simp add: spot_def gap_start_def)
  have nx: "region_in ?a x" if "(if ?l = [] then None else Some (?R (hd ?l))) = Some x" for x
    using that ok by (auto simp: regions_ok_def split: if_splits)
  have res: "gap_result ?p (unat sz) (gap_start ?a None) (gap_end ?a (if ?l = [] then None else Some (?R (hd ?l)))) (aend ?a) (stop, v)"
    using check_gap_ok [of ?a None "if ?l = [] then None else Some (?R (hd ?l))" ?p sz pva flags] ok gap_ordered [OF ok'] p z4 nx
    unfolding sv by (simp add: regions_ok_def)
  have g0: "gap_start ?a None = gap_start ?a (if [] = [] then None else Some (?R (last [])))" by simp
  note d = gap_decides [OF ok' z(1) p(1) g0 refl low res]
  show ?thesis
  proof (cases stop)
    case True
    then show ?thesis using d(1) ev sv by simp
  next
    case stop: False
    show ?thesis
    proof (cases ?l)
      case Nil
      then have "\<not> spot ?p (unat sz) ?a ?R ?l x" for x using d(2) stop by simp
      then show ?thesis using stop ev sv Nil by (simp add: spot_result_def)
    next
      case (Cons r rs)
      have "rend (?R r) \<le> x" if "spot ?p (unat sz) ?a ?R ?l x" for x using d(3) stop Cons that by simp
      then have "spot_result ?p (unat sz) ?a ?R ?l (spot_loop ?a ?R (shl1 ?p) sz flags v ?l)"
        using spot_loop_ok [of ?a ?R "[]" r rs ?p sz] ok p z4 Cons by simp
      then show ?thesis using stop ev sv by simp
    qed
  qed
qed

section \<open>The invariant of the manager\<close>

definition regs :: "'arch vmm_state \<Rightarrow> addr set" where
  "regs s = (\<Union>a\<in>set (aspace_list s). set (region_list (aspace s a)))"

text \<open>The pages of the regions are allocated, and no page is in two of them.\<close>

definition pages_ok :: "'arch vmm_state \<Rightarrow> bool" where
  "pages_ok s \<longleftrightarrow>
     (\<forall>r\<in>regs s. distinct (rg_pages (region s r)) \<and> set (rg_pages (region s r)) \<subseteq> managed (pmm s) - free_pages (pmm s)) \<and>
     (\<forall>r\<in>regs s. \<forall>q\<in>regs s. r \<noteq> q \<longrightarrow> set (rg_pages (region s r)) \<inter> set (rg_pages (region s q)) = {})"

definition vmm_ok :: "'arch vmm_state \<Rightarrow> bool" where
  "vmm_ok s \<longleftrightarrow> pmm_ok (pmm s) \<and> distinct (aspace_list s) \<and>
     (\<forall>a\<in>set (aspace_list s). regions_ok (aspace s a) (region s) (region_list (aspace s a))) \<and>
     (\<forall>a\<in>set (aspace_list s). \<forall>b\<in>set (aspace_list s). a \<noteq> b \<longrightarrow>
        set (region_list (aspace s a)) \<inter> set (region_list (aspace s b)) = {}) \<and> pages_ok s"

text \<open>\<open>idle_but r s s'\<close>: nothing changes but the unused structure \<open>r\<close>.\<close>

definition idle_but :: "addr option \<Rightarrow> 'arch vmm_state \<Rightarrow> 'arch vmm_state \<Rightarrow> bool" where
  "idle_but mem s s' \<longleftrightarrow> pmm s' = pmm s \<and> aspace_list s' = aspace_list s \<and> aspace s' = aspace s \<and>
     (\<forall>x. Some x \<noteq> mem \<longrightarrow> region s' x = region s x) \<and> cur_aspace s' = cur_aspace s \<and> mmu_context s' = mmu_context s"

text \<open>\<open>placed a r l1 l2 s s'\<close>: region \<open>r\<close> is new in address space \<open>a\<close>, between the regions \<open>l1\<close> and \<open>l2\<close>.\<close>

definition placed :: "addr \<Rightarrow> addr \<Rightarrow> addr list \<Rightarrow> addr list \<Rightarrow> 'arch vmm_state \<Rightarrow> 'arch vmm_state \<Rightarrow> bool" where
  "placed a r l1 l2 s s' \<longleftrightarrow> pmm s' = pmm s \<and> aspace_list s' = aspace_list s \<and>
     region_list (aspace s a) = l1 @ l2 \<and> aspace s' = (aspace s)(a := (aspace s a)\<lparr>region_list := l1 @ r # l2\<rparr>) \<and>
     region_in (aspace s a) (region s' r) \<and> between (region s) (rstart (region s' r)) (rend (region s' r)) l1 l2 \<and>
     (\<forall>x. x \<noteq> r \<longrightarrow> region s' x = region s x) \<and> cur_aspace s' = cur_aspace s \<and> mmu_context s' = mmu_context s"

lemma regions_ok_cong:
  assumes "\<And>r. r \<in> set l \<Longrightarrow> rg_base (R' r) = rg_base (R r) \<and> rg_size (R' r) = rg_size (R r)"
    and "as_base a' = as_base a" "as_size a' = as_size a"
  shows "regions_ok a' R' l = regions_ok a R l"
proof -
  have r: "rstart (R' r) = rstart (R r)" "rend (R' r) = rend (R r)" if "r \<in> set l" for r
    using assms(1) [OF that] by (simp_all add: rstart_def rend_def)
  have a: "astart a' = astart a" "aend a' = aend a" using assms(2,3) by (simp_all add: astart_def aend_def)
  have "sorted_wrt (\<lambda>x y. rend (R' x) \<le> rstart (R' y)) l = sorted_wrt (\<lambda>x y. rend (R x) \<le> rstart (R y)) l"
    using r by (intro iffI; elim sorted_wrt_mono_rel [rotated]) simp_all
  then show ?thesis using r unfolding regions_ok_def aspace_wf_def region_in_def a by simp
qed

lemma placed_ok:
  assumes s: "vmm_ok s" and a: "a \<in> set (aspace_list s)" and r: "r \<notin> regs s" and p: "placed a r l1 l2 s s'"
    and pages: "rg_pages (region s' r) = []"
  shows "vmm_ok s'" "regs s' = insert r (regs s)"
proof -
  have f: "pmm s' = pmm s" "aspace_list s' = aspace_list s" "region_list (aspace s a) = l1 @ l2"
      "aspace s' = (aspace s)(a := (aspace s a)\<lparr>region_list := l1 @ r # l2\<rparr>)" "\<And>x. x \<noteq> r \<Longrightarrow> region s' x = region s x"
    using p by (simp_all add: placed_def)
  have "set (region_list (aspace s' b)) = (if b = a then insert r (set (region_list (aspace s a))) else set (region_list (aspace s b)))" for b
    using f(3) by (simp add: f(4))
  then show regs: "regs s' = insert r (regs s)" unfolding regs_def f(2) using a by (auto split: if_splits)
  have old: "region s' x = region s x" if "x \<in> regs s" for x using f(5) r that by metis
  have mem: "set (region_list (aspace s b)) \<subseteq> regs s" if "b \<in> set (aspace_list s)" for b using that by (auto simp: regs_def)
  have ok: "regions_ok (aspace s b) (region s') (region_list (aspace s b))" if "b \<in> set (aspace_list s)" for b
    using s that mem [OF that] old by (subst regions_ok_cong [of _ "region s'" "region s" _ "aspace s b"]) (auto simp: vmm_ok_def)
  have same: "rstart (region s' x) = rstart (region s x)" "rend (region s' x) = rend (region s x)" if "x \<in> set (l1 @ l2)" for x
    using old [of x] mem [OF a] that f(3) by auto
  have "regions_ok (aspace s a) (region s') (l1 @ r # l2)"
    using ok [OF a] p same unfolding f(3) by (intro regions_ok_insert) (auto simp: placed_def)
  then have "regions_ok (aspace s' b) (region s') (region_list (aspace s' b))" if "b \<in> set (aspace_list s)" for b
    using ok [OF that] by (simp add: f(4) regions_ok_def aspace_wf_def region_in_def astart_def aend_def)
  moreover have "set (region_list (aspace s' b)) \<inter> set (region_list (aspace s' c)) = {}"
    if "b \<in> set (aspace_list s)" "c \<in> set (aspace_list s)" "b \<noteq> c" for b c
  proof -
    have "set (region_list (aspace s b)) \<inter> set (region_list (aspace s c)) = {}" using s that by (simp add: vmm_ok_def)
    then show ?thesis using mem [OF that(1)] mem [OF that(2)] r that(3) f(3) by (auto simp: f(4))
  qed
  moreover have "pages_ok s'"
    using s pages old unfolding vmm_ok_def pages_ok_def regs f(1) by auto
  ultimately show "vmm_ok s'" using s unfolding vmm_ok_def f(1,2) by blast
qed

lemma regions_distinct: "regions_ok a R l \<Longrightarrow> distinct l"
proof (induction l)
  case (Cons x l)
  then have "rstart (R x) < rend (R x)" "\<forall>y\<in>set l. rend (R x) \<le> rstart (R y)" "regions_ok a R l"
    by (simp_all add: regions_ok_def region_in_def)
  then show ?case using Cons.IH by auto
qed simp

lemma insert_after_split:
  assumes "distinct (l1 @ l2)" and "case b of None \<Rightarrow> l1 = [] | Some y \<Rightarrow> \<exists>l0. l1 = l0 @ [y]"
  shows "insert_after b r (l1 @ l2) = l1 @ r # l2"
proof (cases b)
  case (Some y)
  then obtain l0 where l0: "l1 = l0 @ [y]" using assms(2) by auto
  have "y \<notin> set l0 \<Longrightarrow> insert_after (Some y) r (l0 @ y # l2) = l0 @ y # r # l2" for l0 by (induction l0) auto
  then show ?thesis using assms(1) Some l0 by simp
qed (use assms in simp)

definition specific :: "u32 \<Rightarrow> bool" where "specific vmm_flags \<longleftrightarrow> vmm_flags AND VMM_FLAG_VALLOC_SPECIFIC \<noteq> 0"

lemma alloc_region_ok:
  assumes s: "vmm_ok s" and a: "a \<in> set (aspace_list s)" and fresh: "\<And>r. mem = Some r \<Longrightarrow> r \<notin> regs s"
    and z: "0 < unat sz" and free: "\<not> specific vf \<Longrightarrow> 4096 dvd unat sz \<and> al < 64"
  shows "\<exists>s' ro. alloc_region mem a name sz vaddr al vf rf mf s = Some (s', ro) \<and>
    (case ro of None \<Rightarrow> idle_but mem s s'
     | Some r \<Rightarrow> mem = Some r \<and> (\<exists>l1 l2. placed a r l1 l2 s s') \<and> rg_size (region s' r) = sz \<and> rg_pages (region s' r) = [] \<and>
         (if specific vf then rg_base (region s' r) = vaddr else 2 ^ max 12 al dvd unat (rg_base (region s' r))))"
proof (cases mem)
  case None
  then show ?thesis by (simp add: alloc_region_def alloc_region_struct_def idle_but_def)
next
  case (Some r)
  define x where "x = \<lparr>rg_name = take 31 name, rg_flags = rf, rg_mmu_flags = mf, rg_base = vaddr, rg_size = sz, rg_pages = []\<rparr>"
  define t where "t = region_upd r (\<lambda>_. x) s"
  have st: "alloc_region_struct mem name vaddr sz rf mf s = (t, Some r)" by (simp add: alloc_region_struct_def Some t_def x_def)
  have t: "pmm t = pmm s" "aspace_list t = aspace_list s" "aspace t = aspace s" "region t r = x" "\<And>y. y \<noteq> r \<Longrightarrow> region t y = region s y"
      "cur_aspace t = cur_aspace s" "mmu_context t = mmu_context s" by (simp_all add: t_def)
  let ?l = "region_list (aspace s a)"
  have new: "r \<notin> set ?l" using fresh [OF Some] a by (auto simp: regs_def)
  have ok: "regions_ok (aspace s a) (region s) ?l" using s a by (simp add: vmm_ok_def)
  have ok_t: "regions_ok (aspace t a) (region t) (region_list (aspace t a))"
    using ok new t(5) unfolding t(3) by (subst regions_ok_cong [of _ _ "region s" _ "aspace s a"]) (metis, simp_all)
  have idle: "idle_but mem s t" using t by (simp add: idle_but_def Some)
  have btw: "between (region t) v e l1 l2 = between (region s) v e l1 l2" if "?l = l1 @ l2" for v e l1 l2
    using new that t(5) by (metis Un_iff set_append)
  show ?thesis
  proof (cases "specific vf")
    case True
    have ev: "alloc_region mem a name sz vaddr al vf rf mf s =
        (case add_region_to_aspace a r t of (s, err) \<Rightarrow> Some (s, if err < 0 then None else Some r))"
      using True by (simp add: alloc_region_def st specific_def)
    have xr: "0 < unat (rg_size (region t r))" using z by (simp add: t(4) x_def)
    show ?thesis
    proof (cases "\<exists>err<0. add_region_to_aspace a r t = (t, err)")
      case e: True
      then show ?thesis using idle ev by (intro exI [of _ t] exI [of _ None]) auto
    next
      case False
      then obtain l1 l2 where l: "region_in (aspace t a) (region t r)" "?l = l1 @ l2"
          "between (region t) (rstart (region t r)) (rend (region t r)) l1 l2"
          "add_region_to_aspace a r t = (aspace_upd a (\<lambda>x. x\<lparr>region_list := l1 @ r # l2\<rparr>) t, NO_ERROR)"
        using add_region_ok [OF ok_t xr] unfolding t(3) by blast
      let ?s = "aspace_upd a (\<lambda>x. x\<lparr>region_list := l1 @ r # l2\<rparr>) t"
      have "aspace ?s = (aspace s)(a := (aspace s a)\<lparr>region_list := l1 @ r # l2\<rparr>)" by (rule ext) (simp add: t(3))
      then have "placed a r l1 l2 s ?s"
        using l(1-3) t unfolding placed_def btw [OF l(2)] by simp
      then show ?thesis using ev l(4) True Some by (intro exI [of _ ?s] exI [of _ "Some r"]) (auto simp: t(4) x_def)
    qed
  next
    case False
    obtain v before where vb: "alloc_spot a sz al mf 0 t = Some (v, before)"
        "spot_result (max 12 al) (unat sz) (aspace t a) (region t) (region_list (aspace t a)) (v, before)"
      using alloc_spot_ok [OF ok_t z, of al mf 0] free [OF False] by auto
    have ev: "alloc_region mem a name sz vaddr al vf rf mf s =
        (if v = - 1 then Some (t, None)
         else do {
           b \<leftarrow> before;
           Some (aspace_upd a (\<lambda>x. x\<lparr>region_list := insert_after b r (region_list x)\<rparr>) (region_upd r (\<lambda>x. x\<lparr>rg_base := v\<rparr>) t), Some r)
         })"
      using False vb(1) by (simp add: alloc_region_def st specific_def)
    show ?thesis
    proof (cases "v = - 1")
      case True
      then show ?thesis using idle ev by (intro exI [of _ t] exI [of _ None]) simp
    next
      case v: False
      then obtain b l1 l2 where b: "spot (max 12 al) (unat sz) (aspace s a) (region t) ?l (unat v)" "before = Some b" "?l = l1 @ l2"
          "between (region t) (unat v) (unat v + unat sz) l1 l2" "case b of None \<Rightarrow> l1 = [] | Some y \<Rightarrow> \<exists>l0. l1 = l0 @ [y]"
        using vb(2) unfolding spot_result_def t(3) by auto
      let ?s = "aspace_upd a (\<lambda>x. x\<lparr>region_list := insert_after b r (region_list x)\<rparr>) (region_upd r (\<lambda>x. x\<lparr>rg_base := v\<rparr>) t)"
      have "insert_after b r ?l = l1 @ r # l2" using insert_after_split [OF _ b(5)] regions_distinct [OF ok] unfolding b(3) by blast
      then have as: "aspace ?s = (aspace s)(a := (aspace s a)\<lparr>region_list := l1 @ r # l2\<rparr>)" by (intro ext) (simp add: t(3))
      have sr: "region ?s r = x\<lparr>rg_base := v\<rparr>" by (simp add: t(4))
      have rs: "rstart (region ?s r) = unat v" "rend (region ?s r) = unat v + unat sz" unfolding sr by (simp_all add: rstart_def rend_def x_def)
      have "region_in (aspace s a) (region ?s r)" unfolding region_in_def rs using b(1) z by (simp add: spot_def)
      moreover have "between (region s) (rstart (region ?s r)) (rend (region ?s r)) l1 l2" unfolding rs using b(4) btw [OF b(3)] by blast
      ultimately have "placed a r l1 l2 s ?s" using b(3) as t unfolding placed_def by simp
      then show ?thesis using ev v b(1,2) False Some sr
        by (intro exI [of _ ?s] exI [of _ "Some r"]) (auto simp: x_def spot_def)
    qed
  qed
qed

section \<open>Finding and removing regions\<close>

definition inside :: "vaddr_t \<Rightarrow> vmm_region \<Rightarrow> bool" where
  "inside v x \<longleftrightarrow> rstart x \<le> unat v \<and> unat v < rend x"

lemma regions_apart:
  "regions_ok a R l \<Longrightarrow> x \<in> set l \<Longrightarrow> y \<in> set l \<Longrightarrow> x \<noteq> y \<Longrightarrow> rend (R x) \<le> rstart (R y) \<or> rend (R y) \<le> rstart (R x)"
  by (induction l) (auto simp: regions_ok_def)

lemma find_region_iff:
  assumes ok: "regions_ok (aspace s a) (region s) (region_list (aspace s a))"
  shows "vmm_find_region a v s = Some r \<longleftrightarrow> r \<in> set (region_list (aspace s a)) \<and> inside v (region s r)"
    "vmm_find_region a v s = None \<longleftrightarrow> (\<forall>r\<in>set (region_list (aspace s a)). \<not> inside v (region s r))"
proof -
  let ?P = "\<lambda>r. v \<ge> rg_base (region s r) \<and> v \<le> rg_base (region s r) + rg_size (region s r) - 1"
  have P: "?P r \<longleftrightarrow> inside v (region s r)" if "r \<in> set (region_list (aspace s a))" for r
    using region_last [of "aspace s a" "region s r"] ok that
    by (auto simp: regions_ok_def inside_def word_le_nat_alt rstart_def)
  show none: "vmm_find_region a v s = None \<longleftrightarrow> (\<forall>r\<in>set (region_list (aspace s a)). \<not> inside v (region s r))"
    unfolding vmm_find_region_def find_None_iff using P by blast
  have unique: "r = q" if "r \<in> set (region_list (aspace s a))" "q \<in> set (region_list (aspace s a))" "inside v (region s r)" "inside v (region s q)" for r q
  proof -
    have "r = q \<or> rend (region s r) \<le> rstart (region s q) \<or> rend (region s q) \<le> rstart (region s r)"
      using regions_apart [OF ok that(1,2)] by blast
    then show ?thesis using that(3,4) by (auto simp: inside_def)
  qed
  show "vmm_find_region a v s = Some r \<longleftrightarrow> r \<in> set (region_list (aspace s a)) \<and> inside v (region s r)"
  proof
    assume "vmm_find_region a v s = Some r"
    then have "r \<in> set (region_list (aspace s a))" "?P r" unfolding vmm_find_region_def by (auto simp: find_Some_iff)
    then show "r \<in> set (region_list (aspace s a)) \<and> inside v (region s r)" using P by blast
  next
    assume r: "r \<in> set (region_list (aspace s a)) \<and> inside v (region s r)"
    then obtain q where q: "vmm_find_region a v s = Some q" using none by (cases "vmm_find_region a v s") auto
    then have "q \<in> set (region_list (aspace s a))" "?P q" unfolding vmm_find_region_def by (auto simp: find_Some_iff)
    then show "vmm_find_region a v s = Some r" using q unique r P by blast
  qed
qed

text \<open>\<open>removed a r s s'\<close>: region \<open>r\<close> is off the list of \<open>a\<close>, whose page table may have changed.\<close>

definition removed :: "addr \<Rightarrow> addr \<Rightarrow> 'arch vmm_state \<Rightarrow> 'arch vmm_state \<Rightarrow> bool" where
  "removed a r s s' \<longleftrightarrow> pmm s' = pmm s \<and> aspace_list s' = aspace_list s \<and> region s' = region s \<and>
     (\<exists>t. aspace s' = (aspace s)(a := (aspace s a)\<lparr>region_list := remove1 r (region_list (aspace s a)), arch_aspace := t\<rparr>)) \<and>
     cur_aspace s' = cur_aspace s \<and> mmu_context s' = mmu_context s"

lemma removed_ok:
  assumes s: "vmm_ok s" and a: "a \<in> set (aspace_list s)" and r: "r \<in> set (region_list (aspace s a))" and q: "removed a r s s'"
  shows "vmm_ok s'" "regs s' = regs s - {r}"
proof -
  obtain t where f: "pmm s' = pmm s" "aspace_list s' = aspace_list s" "region s' = region s"
      "aspace s' = (aspace s)(a := (aspace s a)\<lparr>region_list := remove1 r (region_list (aspace s a)), arch_aspace := t\<rparr>)"
    using q by (auto simp: removed_def)
  let ?l = "region_list (aspace s a)"
  have ok: "regions_ok (aspace s b) (region s) (region_list (aspace s b))" if "b \<in> set (aspace_list s)" for b
    using s that by (simp add: vmm_ok_def)
  have set_rem: "set (remove1 r ?l) = set ?l - {r}" using regions_distinct [OF ok [OF a]] by (rule set_remove1_eq)
  have apart: "set (region_list (aspace s b)) \<inter> set (region_list (aspace s c)) = {}"
    if "b \<in> set (aspace_list s)" "c \<in> set (aspace_list s)" "b \<noteq> c" for b c using s that by (simp add: vmm_ok_def)
  have lists: "set (region_list (aspace s' b)) = set (region_list (aspace s b)) - {r}" if "b \<in> set (aspace_list s)" for b
    using apart [OF that a] r set_rem by (cases "b = a") (auto simp: f(4))
  then show regs: "regs s' = regs s - {r}" unfolding regs_def f(2) by auto
  have "regions_ok (aspace s' b) (region s') (region_list (aspace s' b))" if "b \<in> set (aspace_list s)" for b
  proof (cases "b = a")
    case True
    have "sorted_wrt P (remove1 r l)" if "sorted_wrt P l" for P and l :: "addr list"
      using that by (induction l) (auto dest: notin_set_remove1 in_set_remove1 set_remove1_subset [THEN subsetD])
    then show ?thesis using ok [OF a] set_rem True
      by (simp add: f(3,4) regions_ok_def aspace_wf_def region_in_def astart_def aend_def)
  next
    case False
    then show ?thesis using ok [OF that] by (simp add: f(3,4))
  qed
  moreover have "set (region_list (aspace s' b)) \<inter> set (region_list (aspace s' c)) = {}"
    if "b \<in> set (aspace_list s)" "c \<in> set (aspace_list s)" "b \<noteq> c" for b c
    using apart [OF that] lists that by auto
  moreover have "pages_ok s'" using s unfolding vmm_ok_def pages_ok_def regs f(1,3) by auto
  ultimately show "vmm_ok s'" using s unfolding vmm_ok_def f(1,2) by blast
qed

lemma remove_region_ok:
  assumes "vmm_find_region a v s = Some r"
  shows "\<exists>s'. vmm_remove_region_locked m a v s = (s', NO_ERROR, Some r) \<and> removed a r s s'"
proof -
  let ?s = "unmap_region m a r (aspace_upd a (\<lambda>x. x\<lparr>region_list := remove1 r (region_list x)\<rparr>) s)"
  have "\<exists>t. aspace ?s = (aspace s)(a := (aspace s a)\<lparr>region_list := remove1 r (region_list (aspace s a)), arch_aspace := t\<rparr>)"
    by (intro exI [of _ "arch_aspace (aspace ?s a)"] ext) (simp add: unmap_region_def)
  moreover have "pmm ?s = pmm s" "aspace_list ?s = aspace_list s" "region ?s = region s" "cur_aspace ?s = cur_aspace s" "mmu_context ?s = mmu_context s"
    by (simp_all add: unmap_region_def)
  ultimately have "removed a r s ?s" unfolding removed_def by blast
  then show ?thesis using assms by (simp add: vmm_remove_region_locked_def Let_def)
qed

lemma pmm_free_list_ok:
  assumes "pmm_ok (pmm s)" and "distinct ps" and "set ps \<subseteq> managed (pmm s) - free_pages (pmm s)"
  shows "\<exists>q. pmm_free_list ps s = Some (s\<lparr>pmm := q\<rparr>) \<and> pmm_ok q \<and> free_pages q = free_pages (pmm s) \<union> set ps \<and> managed q = managed (pmm s)"
proof -
  have "set ps \<subseteq> managed (pmm s)" "set ps \<inter> free_pages (pmm s) = {}" using assms(3) by auto
  then obtain q where "pmm_free ps (pmm s) = Some (q, length ps)" "pmm_ok q" "free_pages q = free_pages (pmm s) \<union> set ps" "managed q = managed (pmm s)"
    using pmm_free_ok [OF assms(1,2)] by blast
  then show ?thesis by (intro exI [of _ q]) (simp add: pmm_free_list_def)
qed

lemma pmm_upd_ok:
  assumes "vmm_ok s" and "pmm_ok q" and "managed q = managed (pmm s)"
    and "\<And>r. r \<in> regs s \<Longrightarrow> set (rg_pages (region s r)) \<inter> free_pages q = {}"
  shows "vmm_ok (s\<lparr>pmm := q\<rparr>)"
proof -
  have "regs (s\<lparr>pmm := q\<rparr>) = regs s" by (simp add: regs_def)
  then have "pages_ok (s\<lparr>pmm := q\<rparr>)" using assms by (fastforce simp: vmm_ok_def pages_ok_def)
  then show ?thesis using assms(1,2) by (simp add: vmm_ok_def)
qed

lemma vmm_pagesD:
  assumes "vmm_ok s" and "r \<in> regs s"
  shows "distinct (rg_pages (region s r))" "set (rg_pages (region s r)) \<subseteq> managed (pmm s) - free_pages (pmm s)"
    "q \<in> regs s \<Longrightarrow> r \<noteq> q \<Longrightarrow> set (rg_pages (region s r)) \<inter> set (rg_pages (region s q)) = {}"
  using assms by (simp_all add: vmm_ok_def pages_ok_def)

lemma unused_region_ok:
  assumes "vmm_ok s" and "r \<notin> regs s"
  shows "vmm_ok (region_upd r f s)"
proof -
  have same: "regs (region_upd r f s) = regs s" by (simp add: regs_def)
  have "regions_ok (aspace s a) (region (region_upd r f s)) (region_list (aspace s a))" if "a \<in> set (aspace_list s)" for a
  proof -
    have "r \<notin> set (region_list (aspace s a))" using assms(2) that by (auto simp: regs_def)
    then show ?thesis using assms(1) that
      by (subst regions_ok_cong [of _ _ "region s" _ "aspace s a"]) (auto simp: vmm_ok_def)
  qed
  moreover have "region (region_upd r f s) x = region s x" if "x \<in> regs s" for x using that assms(2) by auto
  then have "pages_ok (region_upd r f s)" using assms(1) unfolding vmm_ok_def pages_ok_def same by auto
  ultimately show ?thesis using assms(1) by (simp add: vmm_ok_def)
qed

text \<open>
  C0: \<^verbatim>\<open>vmm_free_region\<close> of an address in a region takes that region, and no other, off the list
  and returns its pages to the page allocator; an address in no region is an error and changes nothing.
  The lists stay sorted and disjoint, and no assertion fails.
\<close>

theorem vmm_free_region_frees:
  assumes s: "vmm_ok s" and a: "a \<in> set (aspace_list s)"
  shows "if \<exists>r\<in>set (region_list (aspace s a)). inside v (region s r)
    then \<exists>r s'. r \<in> set (region_list (aspace s a)) \<and> inside v (region s r) \<and> vmm_free_region m a v s = Some (s', NO_ERROR) \<and>
      vmm_ok s' \<and> region_list (aspace s' a) = remove1 r (region_list (aspace s a)) \<and>
      free_pages (pmm s') = free_pages (pmm s) \<union> set (rg_pages (region s r))
    else vmm_free_region m a v s = Some (s, ERR_NOT_FOUND)"
proof (cases "vmm_find_region a v s")
  case None
  have ok: "regions_ok (aspace s a) (region s) (region_list (aspace s a))" using s a by (simp add: vmm_ok_def)
  then have "\<forall>r\<in>set (region_list (aspace s a)). \<not> inside v (region s r)" using None find_region_iff(2) by blast
  moreover have "vmm_free_region m a v s = Some (s, ERR_NOT_FOUND)" using None by (simp add: vmm_free_region_def vmm_remove_region_locked_def)
  ultimately show ?thesis by simp
next
  case (Some r)
  have ok: "regions_ok (aspace s a) (region s) (region_list (aspace s a))" using s a by (simp add: vmm_ok_def)
  have r: "r \<in> set (region_list (aspace s a))" "inside v (region s r)" using find_region_iff(1) [OF ok] Some by blast+
  obtain t where t: "vmm_remove_region_locked m a v s = (t, NO_ERROR, Some r)" "removed a r s t" using remove_region_ok [OF Some] by blast
  note tok = removed_ok [OF s a r(1) t(2)]
  have tf: "pmm t = pmm s" "region t = region s" "region_list (aspace t a) = remove1 r (region_list (aspace s a))"
    using t(2) by (auto simp: removed_def)
  have reg: "r \<in> regs s" using r(1) a by (auto simp: regs_def)
  have pg: "distinct (rg_pages (region t r))" "set (rg_pages (region t r)) \<subseteq> managed (pmm t) - free_pages (pmm t)"
    using vmm_pagesD(1,2) [OF s reg] unfolding tf(1,2) .
  have "pmm_ok (pmm t)" using tok(1) by (simp add: vmm_ok_def)
  then obtain q where q: "pmm_free_list (rg_pages (region t r)) t = Some (t\<lparr>pmm := q\<rparr>)" "pmm_ok q"
      "free_pages q = free_pages (pmm t) \<union> set (rg_pages (region t r))" "managed q = managed (pmm t)"
    using pmm_free_list_ok [OF _ pg] by blast
  have "set (rg_pages (region t x)) \<inter> free_pages q = {}" if "x \<in> regs t" for x
  proof -
    have "x \<in> regs s" "x \<noteq> r" using that tok(2) by auto
    then show ?thesis using vmm_pagesD(2,3) [OF s] reg unfolding q(3) tf(1,2) by blast
  qed
  then have "vmm_ok (t\<lparr>pmm := q\<rparr>)" using pmm_upd_ok [OF tok(1) q(2,4)] by blast
  moreover have "r \<notin> regs (t\<lparr>pmm := q\<rparr>)" using tok(2) by (auto simp: regs_def)
  ultimately have "vmm_ok (region_upd r (\<lambda>x. x\<lparr>rg_pages := []\<rparr>) (t\<lparr>pmm := q\<rparr>))" by (rule unused_region_ok)
  moreover have "vmm_free_region m a v s = Some (region_upd r (\<lambda>x. x\<lparr>rg_pages := []\<rparr>) (t\<lparr>pmm := q\<rparr>), NO_ERROR)"
    using t(1) q(1) by (simp add: vmm_free_region_def)
  ultimately show ?thesis using r q(3) tf by auto
qed

section \<open>Mapping the pages of a region\<close>

definition same_pages :: "page_ptr list \<Rightarrow> page_ptr list \<Rightarrow> bool" where
  "same_pages ps qs \<longleftrightarrow> set ps = set qs \<and> distinct ps = distinct qs"

text \<open>\<open>remapped a r s s'\<close>: only the page table of \<open>a\<close> and the page list of \<open>r\<close> differ.\<close>

definition remapped :: "addr \<Rightarrow> addr \<Rightarrow> page_ptr list \<Rightarrow> 'arch vmm_state \<Rightarrow> 'arch vmm_state \<Rightarrow> bool" where
  "remapped a r ps s s' \<longleftrightarrow> pmm s' = pmm s \<and> aspace_list s' = aspace_list s \<and>
     (\<exists>t. aspace s' = (aspace s)(a := (aspace s a)\<lparr>arch_aspace := t\<rparr>)) \<and>
     region s' = (region s)(r := (region s r)\<lparr>rg_pages := rg_pages (region s r) @ ps\<rparr>) \<and>
     cur_aspace s' = cur_aspace s \<and> mmu_context s' = mmu_context s"

lemma map_range_remapped: "map_range m a va pa n mf s = (s', err) \<Longrightarrow> remapped a r [] s s'"
  unfolding map_range_def remapped_def
  by (auto simp: fun_eq_iff aspace_upd_def split: prod.splits intro!: exI [of _ "arch_aspace (aspace s' a)"])

lemma remapped_trans: "remapped a r ps s t \<Longrightarrow> remapped a r qs t u \<Longrightarrow> remapped a r (ps @ qs) s u"
  unfolding remapped_def by (auto simp: fun_eq_iff intro!: exI [of _ "arch_aspace (aspace u a)"])

lemma map_pages_ok:
  assumes "pmm_ok (pmm s)" and "set ps \<subseteq> managed (pmm s)" and "rstart (region s r) < rend (region s r)" "rend (region s r) \<le> 18446744073709551616"
    and "unat va = rstart (region s r) + 4096 * j" and "4096 * (j + length ps) \<le> unat (rg_size (region s r))"
  shows "\<exists>s' f. map_pages m a r va mf ps s = Some (s', f) \<and>
    (case f of None \<Rightarrow> remapped a r ps s s'
     | Some (err, rest) \<Rightarrow> err < 0 \<and> (\<exists>mapd. remapped a r mapd s s' \<and> same_pages (mapd @ rest) ps))"
  using assms
proof (induction ps arbitrary: s va j)
  case Nil
  have "remapped a r [] s s" by (auto simp: remapped_def fun_eq_iff intro!: exI [of _ "arch_aspace (aspace s a)"])
  then show ?case by simp
next
  case (Cons p ps)
  obtain s1 err where m1: "map_range m a va (vm_page_to_paddr p (pmm s)) 1 mf s = (s1, err)" by fastforce
  note r1 = map_range_remapped [OF m1, of r]
  have "unat (rg_base (region s r) + rg_size (region s r) - 1) = rend (region s r) - 1"
    using unat_last [of "rg_size (region s r)" "rg_base (region s r)"] Cons.prems(3,4) by (simp add: rstart_def rend_def)
  then have le: "va \<le> rg_base (region s r) + rg_size (region s r) - 1"
    using Cons.prems(5,6) by (simp add: word_le_nat_alt rstart_def rend_def)
  have al: "IS_PAGE_ALIGNED (vm_page_to_paddr p (pmm s))" using page_paddr_aligned Cons.prems(1,2) by simp
  show ?case
  proof (cases "err < 0")
    case True
    then have "map_pages m a r va mf (p # ps) s = Some (s1, Some (err, ps @ [p]))" using le al m1 by simp
    moreover have "remapped a r [] s s1 \<and> same_pages ([] @ ps @ [p]) (p # ps)" using r1 by (auto simp: same_pages_def)
    ultimately show ?thesis using True by (intro exI [of _ s1] exI [of _ "Some (err, ps @ [p])"]) (auto simp del: map_pages.simps)
  next
    case False
    define s2 where "s2 = region_upd r (\<lambda>x. x\<lparr>rg_pages := rg_pages x @ [p]\<rparr>) s1"
    have ev: "map_pages m a r va mf (p # ps) s = map_pages m a r (va + PAGE_SIZE) mf ps s2"
      using le al m1 False by (simp add: s2_def)
    have r2: "remapped a r [p] s s2" using r1 by (auto simp: remapped_def s2_def fun_eq_iff)
    have same: "pmm s2 = pmm s" "rstart (region s2 r) = rstart (region s r)" "rend (region s2 r) = rend (region s r)"
        "rg_size (region s2 r) = rg_size (region s r)" using r2 by (simp_all add: remapped_def rstart_def rend_def)
    show ?thesis
    proof (cases ps)
      case Nil
      then show ?thesis using ev r2 by simp
    next
      case ne: (Cons p' ps')
      have "unat va + 4096 < 18446744073709551616" using Cons.prems(4-6) ne by (simp add: rstart_def rend_def)
      then have va: "unat (va + PAGE_SIZE) = rstart (region s2 r) + 4096 * Suc j"
        using Cons.prems(5) same by (simp add: unat_word_ariths)
      obtain s' f where f: "map_pages m a r (va + PAGE_SIZE) mf ps s2 = Some (s', f)"
          "case f of None \<Rightarrow> remapped a r ps s2 s'
           | Some (err, rest) \<Rightarrow> err < 0 \<and> (\<exists>mapd. remapped a r mapd s2 s' \<and> same_pages (mapd @ rest) ps)"
        using Cons.IH [of s2, OF _ _ _ _ va] Cons.prems same by auto
      show ?thesis
      proof (cases f)
        case None
        then show ?thesis using ev f remapped_trans [OF r2, of ps s'] by simp
      next
        case (Some e)
        obtain err rest mapd where e: "e = (err, rest)" "err < 0" "remapped a r mapd s2 s'" "same_pages (mapd @ rest) ps"
          using f(2) Some by (cases e) auto
        have "remapped a r (p # mapd) s s'" using remapped_trans [OF r2 e(3)] by simp
        moreover have "same_pages ((p # mapd) @ rest) (p # ps)" using e(4) by (auto simp: same_pages_def)
        ultimately show ?thesis using ev f(1) Some e(1,2) by (intro exI [of _ s'] exI [of _ f]) (auto simp del: map_pages.simps)
      qed
    qed
  qed
qed

lemma give_back_ok:
  assumes "vmm_ok t" and "distinct ps" and "set ps \<subseteq> managed (pmm t) - free_pages (pmm t)"
    and "\<And>r. r \<in> regs t \<Longrightarrow> set (rg_pages (region t r)) \<inter> set ps = {}"
  shows "\<exists>q. pmm_free_list ps t = Some (t\<lparr>pmm := q\<rparr>) \<and> vmm_ok (t\<lparr>pmm := q\<rparr>) \<and>
    free_pages q = free_pages (pmm t) \<union> set ps \<and> managed q = managed (pmm t)"
proof -
  have "pmm_ok (pmm t)" using assms(1) by (simp add: vmm_ok_def)
  then obtain q where q: "pmm_free_list ps t = Some (t\<lparr>pmm := q\<rparr>)" "pmm_ok q" "free_pages q = free_pages (pmm t) \<union> set ps"
      "managed q = managed (pmm t)" using pmm_free_list_ok [OF _ assms(2,3)] by blast
  have "set (rg_pages (region t r)) \<inter> free_pages q = {}" if "r \<in> regs t" for r
    using vmm_pagesD(2) [OF assms(1) that] assms(4) [OF that] unfolding q(3) by blast
  then show ?thesis using q pmm_upd_ok [OF assms(1) q(2,4)] by blast
qed

lemma remapped_ok:
  assumes s: "vmm_ok s" and r: "r \<in> regs s" and m: "remapped a r ps s s'" and e: "rg_pages (region s r) = []"
    and ps: "distinct ps" "set ps \<subseteq> managed (pmm s) - free_pages (pmm s)"
    and d: "\<And>x. x \<in> regs s \<Longrightarrow> set (rg_pages (region s x)) \<inter> set ps = {}"
  shows "vmm_ok s'" "regs s' = regs s" "region_list (aspace s' b) = region_list (aspace s b)" "rg_pages (region s' r) = ps"
    "rg_base (region s' x) = rg_base (region s x)" "rg_size (region s' x) = rg_size (region s x)"
    "x \<noteq> r \<Longrightarrow> region s' x = region s x"
proof -
  have f: "pmm s' = pmm s" "aspace_list s' = aspace_list s" "region s' = (region s)(r := (region s r)\<lparr>rg_pages := ps\<rparr>)"
    "\<And>b. region_list (aspace s' b) = region_list (aspace s b)" "\<And>b. as_base (aspace s' b) = as_base (aspace s b)"
    "\<And>b. as_size (aspace s' b) = as_size (aspace s b)" using m e by (auto simp: remapped_def)
  show "region_list (aspace s' b) = region_list (aspace s b)" "rg_pages (region s' r) = ps"
    "rg_base (region s' x) = rg_base (region s x)" "rg_size (region s' x) = rg_size (region s x)"
    "x \<noteq> r \<Longrightarrow> region s' x = region s x" by (simp_all add: f(3,4))
  show regs: "regs s' = regs s" by (simp add: regs_def f(2,4))
  have "regions_ok (aspace s' c) (region s') (region_list (aspace s' c))" if "c \<in> set (aspace_list s)" for c
    using s that unfolding f(4) by (subst regions_ok_cong [of _ _ "region s" _ "aspace s c"]) (auto simp: vmm_ok_def f(3,5,6))
  moreover have "pages_ok s'"
    unfolding pages_ok_def regs
  proof (intro conjI ballI impI)
    fix x assume x: "x \<in> regs s"
    show "distinct (rg_pages (region s' x))" "set (rg_pages (region s' x)) \<subseteq> managed (pmm s') - free_pages (pmm s')"
      using vmm_pagesD(1,2) [OF s x] ps by (simp_all add: f(1,3))
    fix y assume y: "y \<in> regs s" "x \<noteq> y"
    show "set (rg_pages (region s' x)) \<inter> set (rg_pages (region s' y)) = {}"
      using vmm_pagesD(3) [OF s x y] d [OF x] d [OF y(1)] y(2) by (auto simp: f(3))
  qed
  ultimately show "vmm_ok s'" using s unfolding vmm_ok_def f(1,2,4) by blast
qed

lemma idle_ok:
  assumes s: "vmm_ok s" and r: "\<And>r. mem = Some r \<Longrightarrow> r \<notin> regs s" and i: "idle_but mem s s'"
  shows "vmm_ok s'" "regs s' = regs s" "x \<in> regs s \<Longrightarrow> region s' x = region s x"
proof -
  have f: "pmm s' = pmm s" "aspace_list s' = aspace_list s" "aspace s' = aspace s" "\<And>x. Some x \<noteq> mem \<Longrightarrow> region s' x = region s x"
    using i by (simp_all add: idle_but_def)
  show regs: "regs s' = regs s" by (simp add: regs_def f(2,3))
  have old: "region s' x = region s x" if "x \<in> regs s" for x using f(4) r that by metis
  then show "x \<in> regs s \<Longrightarrow> region s' x = region s x" .
  have "regions_ok (aspace s c) (region s') (region_list (aspace s c))" if "c \<in> set (aspace_list s)" for c
  proof -
    have "x \<in> regs s" if "x \<in> set (region_list (aspace s c))" for x using that \<open>c \<in> set (aspace_list s)\<close> by (auto simp: regs_def)
    then show ?thesis using s that old by (subst regions_ok_cong [of _ _ "region s" _ "aspace s c"]) (auto simp: vmm_ok_def)
  qed
  moreover have "pages_ok s'" using s old unfolding vmm_ok_def pages_ok_def regs f(1) by auto
  ultimately show "vmm_ok s'" using s unfolding vmm_ok_def f(1-3) by blast
qed

text \<open>The error path of the allocators undoes the placement.\<close>

lemma remove_placed_ok:
  assumes s: "vmm_ok s" and a: "a \<in> set (aspace_list s)" and l: "region_list (aspace s a) = l1 @ r # l2"
  shows "\<exists>s'. remove_placed m a r s = Some s' \<and> removed a r s s' \<and> region_list (aspace s' a) = l1 @ l2"
proof -
  have ok: "regions_ok (aspace s a) (region s) (region_list (aspace s a))" using s a by (simp add: vmm_ok_def)
  have "inside (rg_base (region s r)) (region s r)" using ok l by (simp add: regions_ok_def region_in_def inside_def rstart_def)
  then have "vmm_find_region a (rg_base (region s r)) s = Some r" using find_region_iff(1) [OF ok] l by simp
  then obtain s' where s': "vmm_remove_region_locked m a (rg_base (region s r)) s = (s', NO_ERROR, Some r)" "removed a r s s'"
    using remove_region_ok by blast
  have "r \<notin> set l1" using regions_distinct [OF ok] l by simp
  then have "region_list (aspace s' a) = l1 @ l2" using s'(2) l by (auto simp: removed_def remove1_append)
  then show ?thesis using s' by (simp add: remove_placed_def)
qed


lemma ROUNDUP_dvd: "2 ^ p dvd unat (ROUNDUP a (shl1 p))"
  by (simp add: ROUNDUP_def shl1_minus_one unat_and_not_mask)

text \<open>The state after \<open>ps\<close> were taken from the page allocator.\<close>

lemma taken_ok:
  assumes s: "vmm_ok s" and t: "taken ps (pmm s) q" "pmm_ok q"
  shows "vmm_ok (s\<lparr>pmm := q\<rparr>)" "distinct ps" "set ps \<subseteq> managed q - free_pages q" "set ps \<subseteq> free_pages (pmm s)"
    "free_pages q = free_pages (pmm s) - set ps" "managed q = managed (pmm s)"
    "r \<in> regs s \<Longrightarrow> set (rg_pages (region s r)) \<inter> set ps = {}"
proof -
  show ps: "distinct ps" "set ps \<subseteq> free_pages (pmm s)" using t(1) by (simp_all add: taken_def)
  show q: "free_pages q = free_pages (pmm s) - set ps" "managed q = managed (pmm s)" using t(1) by (simp_all add: taken_free_pages taken_managed)
  have "free_pages (pmm s) \<subseteq> managed (pmm s)" using s free_pages_eq by (auto simp: vmm_ok_def)
  then show "set ps \<subseteq> managed q - free_pages q" using ps q by auto
  show "r \<in> regs s \<Longrightarrow> set (rg_pages (region s r)) \<inter> set ps = {}" using vmm_pagesD(2) [OF s] ps(2) by blast
  show "vmm_ok (s\<lparr>pmm := q\<rparr>)"
    using vmm_pagesD(2) [OF s] q by (intro pmm_upd_ok [OF s t(2)]) auto
qed

definition alloc_undone :: "'arch vmm_state \<Rightarrow> 'arch vmm_state \<Rightarrow> bool" where
  "alloc_undone s s' \<longleftrightarrow> vmm_ok s' \<and> free_pages (pmm s') = free_pages (pmm s) \<and> aspace_list s' = aspace_list s \<and>
     (\<forall>b. region_list (aspace s' b) = region_list (aspace s b)) \<and> (\<forall>x\<in>regs s. region s' x = region s x)"

definition alloc_done :: "addr \<Rightarrow> addr option \<Rightarrow> u64 \<Rightarrow> vaddr_t \<Rightarrow> 'arch vmm_state \<Rightarrow> 'arch vmm_state \<Rightarrow> bool" where
  "alloc_done a mem sz base s s' \<longleftrightarrow> vmm_ok s' \<and> aspace_list s' = aspace_list s \<and> (\<forall>x\<in>regs s. region s' x = region s x) \<and>
     (\<forall>b. b \<noteq> a \<longrightarrow> region_list (aspace s' b) = region_list (aspace s b)) \<and>
     (\<exists>r l1 l2. mem = Some r \<and> region_list (aspace s a) = l1 @ l2 \<and> region_list (aspace s' a) = l1 @ r # l2 \<and>
        rg_base (region s' r) = base \<and> rg_size (region s' r) = sz \<and> length (rg_pages (region s' r)) * 4096 = unat sz \<and>
        set (rg_pages (region s' r)) \<subseteq> free_pages (pmm s) \<and>
        free_pages (pmm s') = free_pages (pmm s) - set (rg_pages (region s' r)))"

text \<open>Giving back the pages after a region that could not be mapped was removed.\<close>

lemma undo_ok:
  assumes s: "vmm_ok s" and a: "a \<in> set (aspace_list s)" and r: "r \<notin> regs s" and t: "taken ps (pmm s) q" "pmm_ok q"
    and p: "placed a r l1 l2 (s\<lparr>pmm := q\<rparr>) s2" and e: "rg_pages (region s2 r) = []"
    and m: "remapped a r xs s2 s3" "same_pages (xs @ ys) ps"
  shows "\<exists>s4 q5 q6. remove_placed m a r s3 = Some s4 \<and> rg_pages (region s4 r) = xs \<and>
    pmm_free_list xs s4 = Some (s4\<lparr>pmm := q5\<rparr>) \<and> pmm_free_list ys (s4\<lparr>pmm := q5\<rparr>) = Some (s4\<lparr>pmm := q6\<rparr>) \<and>
    alloc_undone s (s4\<lparr>pmm := q6\<rparr>)"
proof -
  note tk = taken_ok [OF s t]
  have r1: "r \<notin> regs (s\<lparr>pmm := q\<rparr>)" and a1: "a \<in> set (aspace_list (s\<lparr>pmm := q\<rparr>))" and regs1: "regs (s\<lparr>pmm := q\<rparr>) = regs s"
    using r a by (simp_all add: regs_def)
  note s2 = placed_ok [OF tk(1) a1 r1 p e]
  have f2: "pmm s2 = q" "aspace_list s2 = aspace_list s" "region_list (aspace s a) = l1 @ l2"
      "\<And>b. region_list (aspace s2 b) = (if b = a then l1 @ r # l2 else region_list (aspace s b))" "\<And>x. x \<noteq> r \<Longrightarrow> region s2 x = region s x"
    using p by (auto simp: placed_def)
  have pages: "distinct xs" "distinct ys" "set xs \<union> set ys = set ps" "set xs \<inter> set ys = {}"
    using m(2) tk(2) unfolding same_pages_def by auto
  have old: "region s2 x = region s x" if "x \<in> regs s" for x using f2(5) r that by metis
  have d2: "set (rg_pages (region s2 x)) \<inter> set xs = {}" if "x \<in> regs s2" for x
  proof (cases "x = r")
    case False
    then have "x \<in> regs s" using that s2(2) regs1 by simp
    then show ?thesis using old [of x] tk(7) [of x] pages(3) by fastforce
  qed (use e in simp)
  have x2: "set xs \<subseteq> managed (pmm s2) - free_pages (pmm s2)" using tk(3) pages(3) by (auto simp: f2(1))
  have r2: "r \<in> regs s2" using s2(2) by simp
  note s3 = remapped_ok [OF s2(1) r2 m(1) e pages(1) x2 d2]
  have f3: "pmm s3 = q" "aspace_list s3 = aspace_list s" using m(1) f2 by (simp_all add: remapped_def)
  have l3: "region_list (aspace s3 a) = l1 @ r # l2" using s3(3) f2(4) by simp
  have a3: "a \<in> set (aspace_list s3)" using a f3 by simp
  obtain s4 where s4: "remove_placed m a r s3 = Some s4" "removed a r s3 s4" "region_list (aspace s4 a) = l1 @ l2"
    using remove_placed_ok [OF s3(1) a3 l3] by blast
  have r3: "r \<in> set (region_list (aspace s3 a))" using l3 by simp
  note s4ok = removed_ok [OF s3(1) a3 r3 s4(2)]
  have f4: "pmm s4 = q" "aspace_list s4 = aspace_list s" "region s4 = region s3" using s4(2) f3 by (simp_all add: removed_def)
  have regs4: "regs s4 = regs s" using s4ok(2) s3(2) s2(2) regs1 r by auto
  have old4: "region s4 x = region s x" if "x \<in> regs s" for x using s3(7) [of x] old [OF that] r that unfolding f4(3) by metis
  have lists4: "region_list (aspace s4 b) = region_list (aspace s b)" for b
    using s4(2,3) s3(3) [of b] f2(3,4) by (cases "b = a") (auto simp: removed_def)
  have d4: "set (rg_pages (region s4 x)) \<inter> set ps = {}" if "x \<in> regs s4" for x using that old4 [of x] tk(7) [of x] regs4 by auto
  have "set xs \<subseteq> managed (pmm s4) - free_pages (pmm s4)" using x2 f2(1) f4(1) by simp
  then obtain q5 where q5: "pmm_free_list xs s4 = Some (s4\<lparr>pmm := q5\<rparr>)" "vmm_ok (s4\<lparr>pmm := q5\<rparr>)" "free_pages q5 = free_pages q \<union> set xs"
      "managed q5 = managed q"
    using give_back_ok [OF s4ok(1) pages(1)] d4 pages(3) f4(1) by fastforce
  have regs5: "regs (s4\<lparr>pmm := q5\<rparr>) = regs s4" by (simp add: regs_def)
  have "set ys \<subseteq> managed (pmm (s4\<lparr>pmm := q5\<rparr>)) - free_pages (pmm (s4\<lparr>pmm := q5\<rparr>))"
    using tk(3) pages(3,4) q5(3,4) by auto
  moreover have "set (rg_pages (region (s4\<lparr>pmm := q5\<rparr>) x)) \<inter> set ys = {}" if "x \<in> regs (s4\<lparr>pmm := q5\<rparr>)" for x
    using d4 [of x] that pages(3) regs5 by auto
  ultimately obtain q6 where q6: "pmm_free_list ys (s4\<lparr>pmm := q5\<rparr>) = Some (s4\<lparr>pmm := q5, pmm := q6\<rparr>)" "vmm_ok (s4\<lparr>pmm := q5, pmm := q6\<rparr>)"
      "free_pages q6 = free_pages q5 \<union> set ys"
    using give_back_ok [OF q5(2) pages(2)] by fastforce
  have "free_pages q6 = free_pages (pmm s)" using q6(3) q5(3) tk(4,5) pages(3) by auto
  then have "alloc_undone s (s4\<lparr>pmm := q6\<rparr>)"
    using q6(2) lists4 old4 f4(2) unfolding alloc_undone_def by simp
  then show ?thesis using s4(1) s3(4) f4(3) q5(1) q6(1) by (intro exI [of _ s4] exI [of _ q5] exI [of _ q6]) simp
qed


lemma done_ok:
  assumes s: "vmm_ok s" and a: "a \<in> set (aspace_list s)" and r: "r \<notin> regs s" and t: "taken ps (pmm s) q" "pmm_ok q"
    and p: "placed a r l1 l2 (s\<lparr>pmm := q\<rparr>) s2" and e: "rg_pages (region s2 r) = []" "rg_size (region s2 r) = sz"
    and m: "remapped a r ps s2 s3" and n: "length ps * 4096 = unat sz"
  shows "alloc_done a (Some r) sz (rg_base (region s3 r)) s s3"
proof -
  note tk = taken_ok [OF s t]
  have r1: "r \<notin> regs (s\<lparr>pmm := q\<rparr>)" and a1: "a \<in> set (aspace_list (s\<lparr>pmm := q\<rparr>))" and regs1: "regs (s\<lparr>pmm := q\<rparr>) = regs s"
    using r a by (simp_all add: regs_def)
  note s2 = placed_ok [OF tk(1) a1 r1 p e(1)]
  have f2: "pmm s2 = q" "aspace_list s2 = aspace_list s" "region_list (aspace s a) = l1 @ l2"
      "\<And>b. region_list (aspace s2 b) = (if b = a then l1 @ r # l2 else region_list (aspace s b))" "\<And>x. x \<noteq> r \<Longrightarrow> region s2 x = region s x"
    using p by (auto simp: placed_def)
  have old: "region s2 x = region s x" if "x \<in> regs s" for x using f2(5) r that by metis
  have d2: "set (rg_pages (region s2 x)) \<inter> set ps = {}" if "x \<in> regs s2" for x
  proof (cases "x = r")
    case False
    then have "x \<in> regs s" using that s2(2) regs1 by simp
    then show ?thesis using old [of x] tk(7) [of x] by simp
  qed (use e in simp)
  have x2: "set ps \<subseteq> managed (pmm s2) - free_pages (pmm s2)" using tk(3) by (simp add: f2(1))
  have r2: "r \<in> regs s2" using s2(2) by simp
  note s3 = remapped_ok [OF s2(1) r2 m e(1) tk(2) x2 d2]
  have f3: "pmm s3 = q" "aspace_list s3 = aspace_list s" using m f2 by (simp_all add: remapped_def)
  have "region s3 x = region s x" if "x \<in> regs s" for x using s3(7) [of x] old [OF that] r that by metis
  then show ?thesis using s3(1,3,4,6) f2(3,4) f3 e(2) n tk(4,5) unfolding alloc_done_def by auto
qed

lemma give_all_back:
  assumes s: "vmm_ok s" and q: "taken ps (pmm s) q" "pmm_ok q"
    and t: "vmm_ok t" "pmm t = q" "regs t = regs s" "aspace_list t = aspace_list s" "aspace t = aspace s" "\<And>x. x \<in> regs s \<Longrightarrow> region t x = region s x"
  shows "\<exists>t'. pmm_free_list ps t = Some t' \<and> alloc_undone s t'"
proof -
  note tk = taken_ok [OF s q]
  obtain q' where "pmm_free_list ps t = Some (t\<lparr>pmm := q'\<rparr>)" "vmm_ok (t\<lparr>pmm := q'\<rparr>)" "free_pages q' = free_pages q \<union> set ps"
    using give_back_ok [OF t(1) tk(2)] tk(3,7) t(2,3,6) by auto
  then show ?thesis using t tk(4,5) by (intro exI [of _ "t\<lparr>pmm := q'\<rparr>"]) (auto simp: alloc_undone_def)
qed

lemma map_region_ok:
  assumes s: "vmm_ok s" and a: "a \<in> set (aspace_list s)" and rf: "r \<notin> regs s" and q: "taken ps (pmm s) q" "pmm_ok q"
    and p: "placed a r l1 l2 (s\<lparr>pmm := q\<rparr>) s2" and e: "rg_pages (region s2 r) = []" "rg_size (region s2 r) = Z"
    and n: "length ps * 4096 = unat Z" and al: "IS_PAGE_ALIGNED (rg_base (region s2 r))"
  shows "\<exists>s' ptr' err. map_region m a r ptr mf ps s2 = Some (s', ptr', err) \<and>
    (if err = NO_ERROR then \<exists>base. ptr' = map_option (\<lambda>_. base) ptr \<and> alloc_done a (Some r) Z base s s'
     else err < 0 \<and> ptr' = ptr \<and> alloc_undone s s')"
proof -
  note tk = taken_ok [OF s q]
  have w: "aspace_wf (aspace s a)" using s a by (simp add: vmm_ok_def regions_ok_def)
  have "region_in (aspace s a) (region s2 r)" "pmm s2 = q" using p by (simp_all add: placed_def)
  then have in2: "rstart (region s2 r) < rend (region s2 r)" "rend (region s2 r) \<le> 18446744073709551616" "pmm_ok (pmm s2)" "set ps \<subseteq> managed (pmm s2)"
    using w q(2) tk(3) by (auto simp: region_in_def aspace_wf_def)
  obtain s3 f where f: "map_pages m a r (rg_base (region s2 r)) mf ps s2 = Some (s3, f)"
      "case f of None \<Rightarrow> remapped a r ps s2 s3
       | Some (err, rest) \<Rightarrow> err < 0 \<and> (\<exists>xs. remapped a r xs s2 s3 \<and> same_pages (xs @ rest) ps)"
    using map_pages_ok [OF in2(3,4,1,2), of "rg_base (region s2 r)" 0 m a mf] n e(2) by (auto simp: rstart_def)
  show ?thesis
  proof (cases f)
    case None
    have "alloc_done a (Some r) Z (rg_base (region s3 r)) s s3" using done_ok [OF s a rf q p e _ n] f(2) None by simp
    then show ?thesis using al f(1) None
      by (intro exI [of _ s3] exI [of _ "map_option (\<lambda>_. rg_base (region s3 r)) ptr"] exI [of _ NO_ERROR]) (auto simp: map_region_def)
  next
    case (Some x)
    obtain err ys xs where x: "x = (err, ys)" "err < 0" "remapped a r xs s2 s3" "same_pages (xs @ ys) ps"
      using f(2) Some by (cases x) auto
    obtain s4 q5 q6 where u: "remove_placed m a r s3 = Some s4" "rg_pages (region s4 r) = xs"
        "pmm_free_list xs s4 = Some (s4\<lparr>pmm := q5\<rparr>)" "pmm_free_list ys (s4\<lparr>pmm := q5\<rparr>) = Some (s4\<lparr>pmm := q6\<rparr>)"
        "alloc_undone s (s4\<lparr>pmm := q6\<rparr>)"
      using undo_ok [OF s a rf q p e(1) x(3,4)] by blast
    have "map_region m a r ptr mf ps s2 = Some (s4\<lparr>pmm := q6\<rparr>, ptr, err)"
      using al f(1) Some x(1) u(1-4) by (simp add: map_region_def)
    then show ?thesis using x(2) u(5) by simp
  qed
qed

text \<open>
  C0: \<^verbatim>\<open>vmm_alloc\<close> is all or nothing. When it succeeds, exactly one region is new: it has the size
  asked for, rounded up to pages, does not overlap another region and holds as many pages, which were
  free before. When it fails, for any reason (no pages, no structure, no room, or an error of the
  MMU in the middle of the mapping), every page is free again and every region list is as before. It
  never fails an assertion, provided an address asked for is page aligned.
\<close>

theorem vmm_alloc_all_or_nothing:
  assumes s: "vmm_ok s" and a: "a \<in> set (aspace_list s)" and fresh: "\<And>r. mem = Some r \<Longrightarrow> r \<notin> regs s" and al: "al < 64"
    and aligned: "\<And>v. specific vf \<Longrightarrow> ptr = Some v \<Longrightarrow> 4096 dvd unat v"
  shows "\<exists>s' ptr' err. vmm_alloc m mem a name sz ptr al vf mf s = Some (s', ptr', err) \<and>
    (if err = NO_ERROR then \<exists>base. ptr' = map_option (\<lambda>_. base) ptr \<and> alloc_done a mem (ROUNDUP sz PAGE_SIZE) base s s'
     else err < 0 \<and> ptr' = ptr \<and> alloc_undone s s')"
proof -
  define Z where "Z = ROUNDUP sz PAGE_SIZE"
  have self: "alloc_undone s s" using s by (simp add: alloc_undone_def)
  show ?thesis
  proof (cases "Z = 0 \<or> specific vf \<and> ptr = None")
    case True
    then have "vmm_alloc m mem a name sz ptr al vf mf s = Some (s, ptr, ERR_INVALID_ARGS)"
      unfolding vmm_alloc_def Let_def Z_def [symmetric] specific_def [symmetric] by auto
    then show ?thesis using self by simp
  next
    case False
    then have nz: "\<not> Z = 0" and sp: "\<not> (specific vf \<and> ptr = None)" by blast+
    have "2 ^ 12 dvd unat Z" unfolding Z_def by (rule ROUNDUP_dvd)
    moreover have "unat Z \<noteq> 0" using False by (simp add: unsigned_eq_0_iff)
    ultimately have Z: "4096 dvd unat Z" "0 < unat Z" by simp_all
    define vaddr where "vaddr = (if specific vf then the ptr else 0)"
    obtain q ps where q: "pmm_alloc_pages (ucast (Z div PAGE_SIZE)) [] (pmm s) = (q, ps, length ps)"
        "ps = take (unat (ucast (Z div PAGE_SIZE) :: u32)) (concat (map (\<lambda>a. free_list (arena (pmm s) a)) (arena_list (pmm s))))"
        "taken ps (pmm s) q" "pmm_ok q"
      using pmm_alloc_pages_ok [of "pmm s" "ucast (Z div PAGE_SIZE)" "[]"] s by (auto simp: vmm_ok_def)
    note tk = taken_ok [OF s q(3,4)]
    have zp: "unat (Z div PAGE_SIZE) = unat Z div 4096" by (simp add: unat_div)
    have len: "length ps \<le> unat Z div 4096"
    proof -
      have "unat (ucast (Z div PAGE_SIZE) :: u32) \<le> unat (Z div PAGE_SIZE)" by (simp add: unsigned_ucast_eq take_bit_nat_less_eq_self)
      then show ?thesis using q(2) zp by simp
    qed
    then have le: "length ps \<le> unat Z" using div_le_dividend [of "unat Z" 4096] by linarith
    let ?s = "s\<lparr>pmm := q\<rparr>"
    have ev: "vmm_alloc m mem a name sz ptr al vf mf s =
        (if length ps < unat Z div 4096 then map_option (\<lambda>s. (s, ptr, ERR_NO_MEMORY)) (pmm_free_list ps ?s)
         else do {
           (s, r) \<leftarrow> alloc_region mem a name Z vaddr al vf VMM_REGION_FLAG_PHYSICAL mf ?s;
           (case r of
              None \<Rightarrow> map_option (\<lambda>s. (s, ptr, ERR_NO_MEMORY)) (pmm_free_list ps s)
            | Some r \<Rightarrow> map_region m a r ptr mf ps s)
         })"
      unfolding vmm_alloc_def Z_def [symmetric] Let_def q(1) vaddr_def [symmetric] specific_def [symmetric] zp
        if_not_P [OF nz] if_not_P [OF sp] prod.case using le by simp
    have regs1: "regs ?s = regs s" by (simp add: regs_def)
    note give = give_all_back [OF s q(3,4)]
    show ?thesis
    proof (cases "length ps < unat Z div 4096")
      case True
      then show ?thesis using ev give [of ?s] tk(1) regs1 by auto
    next
      case enough: False
      then have n: "length ps * 4096 = unat Z" using len Z(1) by auto
      have fresh1: "\<And>r. mem = Some r \<Longrightarrow> r \<notin> regs ?s" and a1: "a \<in> set (aspace_list ?s)" using fresh a regs1 by simp_all
      obtain s2 ro where ro: "alloc_region mem a name Z vaddr al vf VMM_REGION_FLAG_PHYSICAL mf ?s = Some (s2, ro)"
          "case ro of None \<Rightarrow> idle_but mem ?s s2
           | Some r \<Rightarrow> mem = Some r \<and> (\<exists>l1 l2. placed a r l1 l2 ?s s2) \<and> rg_size (region s2 r) = Z \<and> rg_pages (region s2 r) = [] \<and>
               (if specific vf then rg_base (region s2 r) = vaddr else 2 ^ max 12 al dvd unat (rg_base (region s2 r)))"
        using alloc_region_ok [OF tk(1) a1 fresh1 Z(2), where vf = vf and al = al and name = name and vaddr = vaddr and rf = 2 and mf = mf] Z(1) al by blast
      show ?thesis
      proof (cases ro)
        case None
        have i: "idle_but mem ?s s2" using ro(2) None by simp
        note io = idle_ok [OF tk(1) fresh1 i]
        have "\<exists>t'. pmm_free_list ps s2 = Some t' \<and> alloc_undone s t'"
          using give [of s2] io regs1 i by (simp add: idle_but_def)
        then show ?thesis using ev enough ro(1) None by auto
      next
        case (Some r)
        then obtain l1 l2 where p: "mem = Some r" "placed a r l1 l2 ?s s2" "rg_size (region s2 r) = Z" "rg_pages (region s2 r) = []"
            "if specific vf then rg_base (region s2 r) = vaddr else 2 ^ max 12 al dvd unat (rg_base (region s2 r))"
          using ro(2) by auto
        have rf: "r \<notin> regs s" using fresh p(1) by simp
        have "4096 dvd unat (rg_base (region s2 r))"
        proof (cases "specific vf")
          case True
          then show ?thesis using p(5) aligned [OF True] False by (auto simp: vaddr_def)
        next
          case False
          have "(2::nat) ^ 12 dvd 2 ^ max 12 al" by (intro le_imp_power_dvd) simp
          then show ?thesis using p(5) False by (auto intro: dvd_trans)
        qed
        then have al2: "IS_PAGE_ALIGNED (rg_base (region s2 r))" by (simp add: IS_ALIGNED_iff)
        have "vmm_alloc m mem a name sz ptr al vf mf s = map_region m a r ptr mf ps s2"
          unfolding ev if_not_P [OF enough] using ro(1) Some by simp
        then show ?thesis using map_region_ok [OF s a rf q(3,4) p(2,4,3) n al2, of m ptr mf] unfolding p(1) Z_def by simp
      qed
    qed
  qed
qed


section \<open>A machine with one address space\<close>

text \<open>Page tables that record nothing and accept every mapping, except at address 0.\<close>

definition demo_mmu :: "unit arch_mmu" where
  "demo_mmu = \<lparr>arch_mmu_init_aspace = \<lambda>_ _ _. ((), NO_ERROR), arch_mmu_map = \<lambda>_ va _ _ _. ((), if va = 0 then ERR_GENERIC else NO_ERROR),
     arch_mmu_unmap = \<lambda>_ _ _. (), arch_mmu_query = \<lambda>_ _. (0, 0, ERR_NOT_FOUND),
     KERNEL_ASPACE_BASE = 0x80000000, KERNEL_ASPACE_SIZE = 0x80000000\<rparr>"

definition demo_vmm :: "unit vmm_state" where
  "demo_vmm = \<lparr>pmm = demo_pmm, aspace_list = [1],
     aspace = \<lambda>_. \<lparr>as_name = ''kernel'', as_flags = 1, as_base = 0x80000000, as_size = 0x80000000, region_list = [2], arch_aspace = ()\<rparr>,
     region = \<lambda>_. \<lparr>rg_name = ''text'', rg_flags = 1, rg_mmu_flags = 0, rg_base = 0x80000000, rg_size = 0x200000, rg_pages = []\<rparr>,
     cur_aspace = 0, mmu_context = 0\<rparr>"

lemma demo_vmm_simps [simp]:
  "aspace_list demo_vmm = [1]" "regs demo_vmm = {2}" "pmm demo_vmm = demo_pmm" "region_list (aspace demo_vmm a) = [2]"
  by (simp_all add: demo_vmm_def regs_def)

lemma demo_vmm_ok: "vmm_ok demo_vmm"
  using demo_pmm_ok unfolding vmm_ok_def pages_ok_def
  by (simp add: regions_ok_def region_in_def aspace_wf_def astart_def aend_def rstart_def rend_def) (simp add: demo_vmm_def)

theorem vmm_free_region_frees_witness:
  "(\<exists>s'. vmm_free_region demo_mmu 1 0x80001234 demo_vmm = Some (s', NO_ERROR) \<and> region_list (aspace s' 1) = []) \<and>
   vmm_free_region demo_mmu 1 0x90000000 demo_vmm = Some (demo_vmm, ERR_NOT_FOUND)"
proof
  have "inside 0x80001234 (region demo_vmm 2)" "\<not> inside 0x90000000 (region demo_vmm 2)"
    by (simp_all add: inside_def rstart_def rend_def demo_vmm_def)
  then show "\<exists>s'. vmm_free_region demo_mmu 1 0x80001234 demo_vmm = Some (s', NO_ERROR) \<and> region_list (aspace s' 1) = []"
    "vmm_free_region demo_mmu 1 0x90000000 demo_vmm = Some (demo_vmm, ERR_NOT_FOUND)"
    using vmm_free_region_frees [OF demo_vmm_ok, of 1 "0x80001234" demo_mmu] vmm_free_region_frees [OF demo_vmm_ok, of 1 "0x90000000" demo_mmu] by auto
qed

theorem vmm_alloc_all_or_nothing_witness:
  "\<exists>s' base. vmm_alloc demo_mmu (Some 7) 1 ''stack'' 0x1800 (Some 0x80200000) 0 1 0 demo_vmm = Some (s', Some base, NO_ERROR) \<and>
    alloc_done 1 (Some 7) 0x2000 base demo_vmm s'"
proof -
  have r: "ROUNDUP (0x1800 :: u64) PAGE_SIZE = 0x2000" by (simp add: ROUNDUP_def shl1_def)
  have "\<exists>s' ptr' err. vmm_alloc demo_mmu (Some 7) 1 ''stack'' 0x1800 (Some 0x80200000) 0 1 0 demo_vmm = Some (s', ptr', err) \<and>
    (if err = NO_ERROR then \<exists>base. ptr' = map_option (\<lambda>_. base) (Some (0x80200000 :: vaddr_t)) \<and> alloc_done 1 (Some 7) (ROUNDUP 0x1800 PAGE_SIZE) base demo_vmm s'
     else err < 0 \<and> ptr' = Some 0x80200000 \<and> alloc_undone demo_vmm s')"
    by (rule vmm_alloc_all_or_nothing [OF demo_vmm_ok]) simp_all
  moreover have "map_option (\<lambda>r. snd (snd r)) (vmm_alloc demo_mmu (Some 7) 1 ''stack'' 0x1800 (Some 0x80200000) 0 1 0 demo_vmm) = Some NO_ERROR"
    by code_simp
  ultimately show ?thesis unfolding r by auto
qed

end
