(* ===== verification/Spec2Isabelle.thy ===== *)
theory Spec2Isabelle
  imports Klist Pow2 Timer Policy Mutexes Cbuf Vmm
begin

text \<open>
  A verification of the core of the nusa kernel (\<^verbatim>\<open>src/kernel\<close> and the libraries it rests on):
  threads and their scheduler, timers, wait queues, the blocking primitives built on them,
  and physical and virtual memory management.

  \<^bold>\<open>How the code is modelled.\<close> Every function is a HOL function on an explicit state. A
  function that may fail an assertion, panic, read outside an array or not return has a result in
  \<open>option\<close>, where \<open>None\<close> is that failure; an error code is an ordinary result. A structure
  of the code is a record and is known by its address. Machine integers keep their width where
  the code depends on it; counters that only grow by one per call (threads on a queue,
  mutex and semaphore counts) are integers or naturals. Code under the thread lock, a mutex or a
  spin lock is one atomic step. A call that blocks returns \<open>Switched\<close>, and a
  function with the suffix \<open>_return\<close> is the rest of the call, run when the thread is current
  again. The configuration is the multiprocessor build with \<^verbatim>\<open>WITH_SMP\<close>, \<^verbatim>\<open>WITH_KERNEL_VM\<close>,
  \<^verbatim>\<open>PLATFORM_HAS_DYNAMIC_TIMER\<close> and assertions on; statistics, event logs and trace output are left out.

  \<^bold>\<open>Parts and theories.\<close>

  \<^item> \<^verbatim>\<open>Prelude\<close>: error codes, \<^verbatim>\<open>DEBUG_ASSERT\<close>, generic lemmas, and the locales
    \<open>simulation\<close> and \<open>partial_simulation\<close> for runs of operations and what they refine.
  \<^item> \<^verbatim>\<open>Klist\<close>: the doubly linked lists of \<^verbatim>\<open>list.h\<close> as transformers of a heap of nodes. Every
    operation refines an operation on sequences, which is how all other theories see lists.
  \<^item> \<^verbatim>\<open>Pow2\<close>: \<^verbatim>\<open>pow2.h\<close> on 32-bit words.
  \<^item> \<^verbatim>\<open>Timer\<close>: \<^verbatim>\<open>timer.c\<close>. The queue of a CPU stays sorted by due time, where times are 32-bit
    words compared modulo wrap-around; the tick fires what is due. The tick loop is given fuel; the
    lemmas on \<open>queue_weight\<close> bound the number of timers it can fire, and so the fuel it needs.
  \<^item> \<^verbatim>\<open>Thread\<close>, \<^verbatim>\<open>Sched\<close>, \<^verbatim>\<open>Lifecycle\<close>: the state and the functions of \<^verbatim>\<open>thread.c\<close> and \<^verbatim>\<open>mp.c\<close>, the
    scheduler's invariant, and its preservation by each function.
  \<^item> \<^verbatim>\<open>Kernel\<close>: the states reachable from boot by any interleaving of kernel calls and timer ticks
    on the CPUs. No assertion fails in them and the scheduler's data are consistent.
  \<^item> \<^verbatim>\<open>Policy\<close>: what the scheduler decides: which thread runs after a yield or a preemption, the order
    of wake-ups, and that sleepers wake.
  \<^item> \<^verbatim>\<open>Frames\<close>: what each kernel call leaves alone, for the clients above.
  \<^item> \<^verbatim>\<open>Sync\<close>, \<^verbatim>\<open>Mutexes\<close>: events, semaphores and mutexes (\<^verbatim>\<open>event.c\<close>, \<^verbatim>\<open>semaphore.c\<close>, \<^verbatim>\<open>mutex.c\<close>). At most
    one thread holds a mutex; without timeouts no waiter is forgotten; with a timeout one can be.
  \<^item> \<^verbatim>\<open>Cbuf\<close>: the circular buffer of \<^verbatim>\<open>lib/cbuf\<close>, which refines a bounded queue of bytes.
  \<^item> \<^verbatim>\<open>Align\<close>, \<^verbatim>\<open>Pmm\<close>: the alignment macros, the boot-time allocator and the allocator of physical pages
    (\<^verbatim>\<open>pmm.c\<close>). Free lists, page flags and counters agree; allocation hands out free pages only, and the
    search for a contiguous run is complete where its 32-bit sums do not overflow.
  \<^item> \<^verbatim>\<open>Vmm\<close>: address spaces and regions (\<^verbatim>\<open>vmm.c\<close>, \<^verbatim>\<open>vm.c\<close>). The architecture's page tables are
    a parameter.

  \<^bold>\<open>Parameters.\<close> What \<^verbatim>\<open>malloc\<close> returns, the functions of \<^verbatim>\<open>arch/mmu.h\<close>, the platform's
    table of initial mappings and the bounds of the kernel's address space are arguments.

  \<^bold>\<open>Not modelled.\<close> Interrupt masking is not part of the state. Device drivers, architecture and
  platform code, file systems, the network and the console are input and output or assembly.
  The heap allocators and the C library work on raw memory, and no modelled function depends on
  more than their results. Message ports and the tests and applications are left out.
\<close>

end
